(* ===== verification/Nldb_Prelude.thy ===== *)
theory Nldb_Prelude
  imports
    "HOL-Library.Word"
    "HOL-Library.List_Lexorder"
    "HOL-Library.Monad_Syntax"
begin

text \<open>
  Shared vocabulary of the development: the machine types of \<^verbatim>\<open>nldb_common.h\<close>, the return
  codes, the C memory primitives the sources call (\<^verbatim>\<open>memcmp\<close>, \<^verbatim>\<open>memcpy\<close>, \<^verbatim>\<open>memmove\<close>), the
  conversion of a wide integer to a C \<^verbatim>\<open>int\<close>, and the reference operations on strictly sorted
  association lists (\<open>ord_put\<close>, \<open>ord_del\<close>, \<open>map_of\<close>, \<open>rank_le\<close>) against which the sorted array
  and the array tree are verified.

  Conventions. A C++ function that dereferences memory, asserts or loops is a function into
  \<^typ>\<open>'a option\<close>: \<^term>\<open>None\<close> is every way of not returning (an access outside an object, a null
  dereference, a failing \<^verbatim>\<open>tx_assert\<close>, a loop that never ends). \<^verbatim>\<open>tx_debug_assert\<close> is compiled
  away unless \<^verbatim>\<open>DEBUG\<close> is defined (\<^verbatim>\<open>tx_assert.h\<close>) and is not a branch of the model. A function
  whose every path returns \<^verbatim>\<open>NLDB_OK\<close> returns its output parameters only; a function with an error
  return gives back the return code beside its outputs.
\<close>

section \<open>Types and return codes\<close>

type_synonym byte = "8 word"
type_synonym key = "byte list"
type_synonym ptr = nat

abbreviation (input) NULL :: ptr where
  "NULL \<equiv> 0"

type_synonym nldb_rc_t = int

abbreviation (input) NLDB_OK :: nldb_rc_t where
  "NLDB_OK \<equiv> 0"

abbreviation (input) NLDB_ERROR_KEY_NOT_FOUND :: nldb_rc_t where
  "NLDB_ERROR_KEY_NOT_FOUND \<equiv> - 10"

abbreviation (input) NLDB_ERROR_END_OF_ITERATION :: nldb_rc_t where
  "NLDB_ERROR_END_OF_ITERATION \<equiv> - 12"

abbreviation (input) NLDB_ERROR_UNSUPPORTED_FEATURE :: nldb_rc_t where
  "NLDB_ERROR_UNSUPPORTED_FEATURE \<equiv> - 20"

abbreviation (input) NLDB_ERROR_VARIABLE_KEY_SIZE_NOT_SUPPORTED :: nldb_rc_t where
  "NLDB_ERROR_VARIABLE_KEY_SIZE_NOT_SUPPORTED \<equiv> - 21"

named_theorems sa_rules \<open>refinement facts of the sorted array operations\<close>
named_theorems heap_simps \<open>how the node accessors see an updated heap\<close>

section \<open>C memory primitives\<close>

text \<open>
  \<^verbatim>\<open>memcmp\<close> compares the first \<open>n\<close> bytes as unsigned characters. C fixes only the sign of the
  result; the model returns \<open>-1\<close>, \<open>0\<close> or \<open>1\<close>.
\<close>

fun memcmp :: "byte list \<Rightarrow> byte list \<Rightarrow> nat \<Rightarrow> int" where
  "memcmp (x # xs) (y # ys) (Suc n) =
     (if x < y then -1 else if y < x then 1 else memcmp xs ys n)"
| "memcmp _ _ _ = 0"

text \<open>Access to an array object: outside of its bounds the behaviour is undefined.\<close>

definition mem_read :: "'a list \<Rightarrow> int \<Rightarrow> int \<Rightarrow> 'a list option" where
  "mem_read mem pos n =
     (if 0 \<le> pos \<and> 0 \<le> n \<and> pos + n \<le> int (length mem)
      then Some (take (nat n) (drop (nat pos) mem)) else None)"

definition mem_get :: "'a list \<Rightarrow> int \<Rightarrow> 'a option" where
  "mem_get mem pos =
     (if 0 \<le> pos \<and> pos < int (length mem) then Some (mem ! nat pos) else None)"

definition mem_write :: "'a list \<Rightarrow> int \<Rightarrow> 'a list \<Rightarrow> 'a list option" where
  "mem_write mem pos bs =
     (if 0 \<le> pos \<and> pos + int (length bs) \<le> int (length mem)
      then Some (take (nat pos) mem @ bs @ drop (nat pos + length bs) mem) else None)"

definition mem_move :: "'a list \<Rightarrow> int \<Rightarrow> int \<Rightarrow> int \<Rightarrow> 'a list option" where
  "mem_move mem dest src n = mem_read mem src n \<bind> mem_write mem dest"

text \<open>The value of a wide integer after it is stored in a C \<^verbatim>\<open>int\<close> (32 bits, two's complement).\<close>

definition to_int32 :: "int \<Rightarrow> int" where
  "to_int32 x = (x + 2 ^ 31) mod 2 ^ 32 - 2 ^ 31"

lemma to_int32_id [simp]: "0 \<le> x \<Longrightarrow> x < 2 ^ 31 \<Longrightarrow> to_int32 x = x"
  by (simp add: to_int32_def)

lemma memcmp_neg_iff:
  "length xs = n \<Longrightarrow> length ys = n \<Longrightarrow> memcmp xs ys n < 0 \<longleftrightarrow> xs < ys"
  by (induction xs ys n rule: memcmp.induct) auto

lemma memcmp_zero_iff:
  "length xs = n \<Longrightarrow> length ys = n \<Longrightarrow> memcmp xs ys n = 0 \<longleftrightarrow> xs = ys"
  by (induction xs ys n rule: memcmp.induct) auto

lemma memcmp_pos_iff:
  assumes "length xs = n" and "length ys = n"
  shows "0 < memcmp xs ys n \<longleftrightarrow> ys < xs"
  using memcmp_neg_iff [OF assms] memcmp_zero_iff [OF assms]
  by (metis linorder_less_linear not_less_iff_gr_or_eq)

lemmas memcmp_iffs = memcmp_neg_iff memcmp_zero_iff memcmp_pos_iff

lemma mem_read_Some_iff:
  "mem_read mem pos n = Some bs \<longleftrightarrow>
     0 \<le> pos \<and> 0 \<le> n \<and> pos + n \<le> int (length mem) \<and> bs = take (nat n) (drop (nat pos) mem)"
  by (auto simp: mem_read_def)

lemma mem_read_nat:
  "pos + n \<le> length mem \<Longrightarrow> mem_read mem (int pos) (int n) = Some (take n (drop pos mem))"
  by (simp add: mem_read_def flip: of_nat_add)

lemma mem_get_eq [simp]: "i < length mem \<Longrightarrow> mem_get mem (int i) = Some (mem ! i)"
  by (simp add: mem_get_def)

lemma mem_write_nat:
  "pos + length bs \<le> length mem \<Longrightarrow>
     mem_write mem (int pos) bs = Some (take pos mem @ bs @ drop (pos + length bs) mem)"
  by (simp add: mem_write_def)

lemma mem_move_nat:
  assumes "src + n \<le> length mem" and "dest + n \<le> length mem"
  shows "mem_move mem (int dest) (int src) (int n) =
           Some (take dest mem @ take n (drop src mem) @ drop (dest + n) mem)"
proof -
  have len: "length (take n (drop src mem)) = n"
    using assms(1) by simp
  have "mem_read mem (int src) (int n) = Some (take n (drop src mem))"
    using assms(1) by (rule mem_read_nat)
  then show ?thesis
    using assms(2) len by (simp add: mem_move_def mem_write_nat)
qed

lemma length_mem_write: "mem_write mem pos bs = Some mem' \<Longrightarrow> length mem' = length mem"
  by (auto simp: mem_write_def split: if_splits)

text \<open>The same on a memory that is given in three parts.\<close>

lemma mem_read_append:
  assumes "pos = int (length as)" "n = int (length bs)"
  shows "mem_read (as @ bs @ cs) pos n = Some bs"
  using assms by (simp add: mem_read_def)

lemma mem_write_append:
  assumes "pos = int (length as)" "length bs' = length bs"
  shows "mem_write (as @ bs @ cs) pos bs' = Some (as @ bs' @ cs)"
  using assms by (simp add: mem_write_def)

section \<open>Strictly sorted association lists\<close>

type_synonym entries = "(key \<times> ptr) list"

abbreviation sorted_keys :: "('k::linorder \<times> 'v) list \<Rightarrow> bool" where
  "sorted_keys xs \<equiv> sorted_wrt (<) (map fst xs)"

definition ord_put :: "'k::linorder \<Rightarrow> 'v \<Rightarrow> ('k \<times> 'v) list \<Rightarrow> ('k \<times> 'v) list" where
  "ord_put k v xs = filter (\<lambda>e. fst e < k) xs @ (k, v) # filter (\<lambda>e. k < fst e) xs"

definition ord_del :: "'k::linorder \<Rightarrow> ('k \<times> 'v) list \<Rightarrow> ('k \<times> 'v) list" where
  "ord_del k xs = filter (\<lambda>e. fst e \<noteq> k) xs"

text \<open>The number of keys not above (below) a key; for a stored key \<open>rank_le\<close> is its 1-based order.\<close>

definition rank_le :: "'k::linorder \<Rightarrow> ('k \<times> 'v) list \<Rightarrow> nat" where
  "rank_le k xs = length (filter (\<lambda>e. fst e \<le> k) xs)"

definition rank_lt :: "'k::linorder \<Rightarrow> ('k \<times> 'v) list \<Rightarrow> nat" where
  "rank_lt k xs = length (filter (\<lambda>e. fst e < k) xs)"

lemma sorted_keys_filter: "sorted_keys xs \<Longrightarrow> sorted_keys (filter P xs)"
  by (induction xs) auto

lemma ord_put_sorted [intro]: "sorted_keys xs \<Longrightarrow> sorted_keys (ord_put k v xs)"
  by (auto simp: ord_put_def sorted_wrt_append sorted_keys_filter intro: less_trans)

lemma ord_del_sorted [intro]: "sorted_keys xs \<Longrightarrow> sorted_keys (ord_del k xs)"
  by (simp add: ord_del_def sorted_keys_filter)

lemma sorted_keys_distinct: "sorted_keys xs \<Longrightarrow> distinct (map fst xs)"
  by (simp add: strict_sorted_iff)

lemma map_of_filter_key:
  "map_of (filter (\<lambda>e. P (fst e)) xs) k = (if P k then map_of xs k else None)"
  by (induction xs) auto

lemma map_of_ord_put: "map_of (ord_put k v xs) = (map_of xs)(k \<mapsto> v)"
proof (rule ext)
  fix j
  have "map_of (filter (\<lambda>e. fst e < k) xs) j = (if j < k then map_of xs j else None)"
    and "map_of (filter (\<lambda>e. k < fst e) xs) j = (if k < j then map_of xs j else None)"
    by (rule map_of_filter_key)+
  then show "map_of (ord_put k v xs) j = ((map_of xs)(k \<mapsto> v)) j"
    by (cases j k rule: linorder_cases) (auto simp: ord_put_def map_add_def split: option.split)
qed

lemma map_of_ord_del: "map_of (ord_del k xs) = (map_of xs)(k := None)"
  unfolding ord_del_def by (rule ext) (simp add: map_of_filter_key [where P = "\<lambda>j. j \<noteq> k"])

lemma set_ord_put: "set (ord_put k v xs) = insert (k, v) {e \<in> set xs. fst e \<noteq> k}"
  by (auto simp: ord_put_def)

lemma set_ord_del: "set (ord_del k xs) = {e \<in> set xs. fst e \<noteq> k}"
  by (auto simp: ord_del_def)

text \<open>Both operations act on one segment of a list whose other segments lie on either side.\<close>

lemma ord_put_segment:
  assumes "\<forall>e\<in>set as. fst e < k" and "\<forall>e\<in>set bs. k < fst e"
  shows "ord_put k v (as @ xs @ bs) = as @ ord_put k v xs @ bs"
proof -
  have "filter (\<lambda>e. fst e < k) as = as" "filter (\<lambda>e. k < fst e) as = []"
    "filter (\<lambda>e. fst e < k) bs = []" "filter (\<lambda>e. k < fst e) bs = bs"
    using assms by (auto simp: filter_empty_conv)
  then show ?thesis by (simp add: ord_put_def)
qed

lemma ord_del_segment:
  assumes "\<forall>e\<in>set as. fst e < k" and "\<forall>e\<in>set bs. k < fst e"
  shows "ord_del k (as @ xs @ bs) = as @ ord_del k xs @ bs"
proof -
  have "filter (\<lambda>e. fst e \<noteq> k) as = as" "filter (\<lambda>e. fst e \<noteq> k) bs = bs"
    using assms by (force simp: filter_id_conv)+
  then show ?thesis by (simp add: ord_del_def)
qed

lemma rank_le_segment:
  assumes "\<forall>e\<in>set as. fst e < k" and "\<forall>e\<in>set bs. k < fst e"
  shows "rank_le k (as @ xs @ bs) = length as + rank_le k xs"
proof -
  have "filter (\<lambda>e. fst e \<le> k) as = as" "filter (\<lambda>e. fst e \<le> k) bs = []"
    using assms by (auto simp: filter_empty_conv filter_id_conv not_le less_imp_le)
  then show ?thesis by (simp add: rank_le_def)
qed

lemma map_of_segment:
  fixes k :: "'k::linorder"
  assumes "\<forall>e\<in>set as. fst e < k" and "\<forall>e\<in>set bs. k < fst e"
  shows "map_of (as @ xs @ bs) k = map_of xs k"
proof -
  have "map_of as k = None" "map_of bs k = None"
    using assms by (fastforce simp: map_of_eq_None_iff)+
  then show ?thesis by (simp add: map_add_def split: option.split)
qed

lemma sorted_filter_split:
  fixes xs :: "('k::linorder \<times> 'v) list"
  assumes "sorted_keys xs" and "\<And>a b. a < b \<Longrightarrow> P b \<Longrightarrow> P a"
  shows "filter (\<lambda>e. P (fst e)) xs = take (length (filter (\<lambda>e. P (fst e)) xs)) xs"
    and "filter (\<lambda>e. \<not> P (fst e)) xs = drop (length (filter (\<lambda>e. P (fst e)) xs)) xs"
  using assms(1)
proof (induction xs)
  case (Cons x xs)
  have none: "filter (\<lambda>e. P (fst e)) xs = []" "filter (\<lambda>e. \<not> P (fst e)) xs = xs"
    if "\<not> P (fst x)" "sorted_keys (x # xs)"
    using that assms(2) by (auto simp: filter_empty_conv filter_id_conv)
  { case 1 with Cons.IH(1) none show ?case by auto
  next case 2 with Cons.IH(2) none show ?case by auto }
qed simp_all

lemma filter_sorted_take:
  assumes "sorted_keys xs"
  shows "filter (\<lambda>e. fst e < k) xs = take (rank_lt k xs) xs"
    and "filter (\<lambda>e. fst e \<le> k) xs = take (rank_le k xs) xs"
    and "filter (\<lambda>e. k \<le> fst e) xs = drop (rank_lt k xs) xs"
    and "filter (\<lambda>e. k < fst e) xs = drop (rank_le k xs) xs"
  using sorted_filter_split [OF assms, of "\<lambda>a. a < k"] sorted_filter_split [OF assms, of "\<lambda>a. a \<le> k"]
  by (auto simp: rank_lt_def rank_le_def not_less not_le)

lemma rank_lt_le: "rank_lt k xs \<le> rank_le k xs"
  unfolding rank_lt_def rank_le_def by (induction xs) auto

lemma rank_le_length: "rank_le k xs \<le> length xs"
  by (simp add: rank_le_def)

lemma rank_lt_length: "rank_lt k xs \<le> length xs"
  by (simp add: rank_lt_def)

lemma rank_le_absent: "k \<notin> fst ` set xs \<Longrightarrow> rank_le k xs = rank_lt k xs"
  unfolding rank_le_def rank_lt_def by (metis (mono_tags, lifting) filter_cong image_eqI less_le)

end
