(* ===== verification/Sorted_Array.thy ===== *)
theory Sorted_Array
  imports Nldb_Prelude
begin

text \<open>
  The class template \<^verbatim>\<open>nldb_sorted_array\<close> of \<^verbatim>\<open>nldb_sorted_array.h\<close>: a sorted array of fixed size
  keys, held as raw bytes in \<^verbatim>\<open>key_space_\<close>, each mapped to a \<^verbatim>\<open>void *\<close> in \<^verbatim>\<open>data_\<close>. The model
  keeps both memory blocks and all byte positions; the template argument \<^verbatim>\<open>key_space_size\<close> is the
  length of \<open>sa_key_space\<close> (a field \<^verbatim>\<open>x_\<close> of the class is the record field \<open>sa_x\<close>). The second half of the theory relates the bytes to the list of
  (key, data) pairs they encode and shows that every operation refines the corresponding
  operation on strictly sorted association lists.
\<close>

section \<open>The object and its private helpers\<close>

record sorted_array =
  sa_key_space :: "byte list"
  sa_data :: "ptr list"
  sa_max_key_count :: int
  sa_key_count :: int
  sa_used_key_space :: int
  sa_key_length :: int

record sa_iterator =
  it_key_pos :: int
  it_data_pos :: int

text \<open>
  The constructor leaves both blocks uninitialised; the model fills them with zeros. Every
  statement below holds for any content past the used part.
\<close>

definition sa_new :: "nat \<Rightarrow> sorted_array" where
  "sa_new key_space_size =
     \<lparr>sa_key_space = replicate key_space_size 0, sa_data = replicate key_space_size NULL,
      sa_max_key_count = 0, sa_key_count = 0, sa_used_key_space = 0, sa_key_length = 0\<rparr>"

definition sa_key_space_size :: "sorted_array \<Rightarrow> int" where
  "sa_key_space_size sa = int (length (sa_key_space sa))"

definition sa_compare_keys :: "sorted_array \<Rightarrow> byte list \<Rightarrow> byte list \<Rightarrow> int option" where
  "sa_compare_keys sa key1 key2 =
     (if int (length key1) < sa_key_length sa \<or> int (length key2) < sa_key_length sa then None
      else Some (memcmp key1 key2 (nat (sa_key_length sa))))"

definition next_key :: "sorted_array \<Rightarrow> sa_iterator \<Rightarrow> sa_iterator" where
  "next_key sa iter =
     iter\<lparr>it_key_pos := it_key_pos iter + sa_key_length sa, it_data_pos := it_data_pos iter + 1\<rparr>"

definition prev_key :: "sorted_array \<Rightarrow> sa_iterator \<Rightarrow> sa_iterator" where
  "prev_key sa iter =
     iter\<lparr>it_key_pos := it_key_pos iter - sa_key_length sa, it_data_pos := it_data_pos iter - 1\<rparr>"

text \<open>
  The search loops carry the C loop variables \<^verbatim>\<open>k\<close> (as an offset into \<^verbatim>\<open>key_space_\<close>), \<^verbatim>\<open>key_pos\<close>,
  \<^verbatim>\<open>data_pos\<close> and \<^verbatim>\<open>prev_cmp\<close>. With a key length that is not positive \<^verbatim>\<open>k\<close> never reaches the end.
\<close>

function search_forward_loop ::
    "sorted_array \<Rightarrow> byte list \<Rightarrow> int \<Rightarrow> int \<Rightarrow> int \<Rightarrow> int \<Rightarrow> (int \<times> int \<times> int) option" where
  "search_forward_loop sa key k key_pos data_pos prev_cmp =
     (if k < sa_used_key_space sa then
        if sa_key_length sa \<le> 0 then None
        else case mem_read (sa_key_space sa) k (sa_key_length sa) \<bind> sa_compare_keys sa key of
          None \<Rightarrow> None
        | Some cmp \<Rightarrow>
            if cmp < 0 then Some (key_pos, data_pos, prev_cmp)
            else search_forward_loop sa key (k + sa_key_length sa)
                   (key_pos + sa_key_length sa) (data_pos + 1) cmp
      else Some (key_pos, data_pos, prev_cmp))"
  by pat_completeness auto
termination
  by (relation "measure (\<lambda>(sa, key, k, _). nat (sa_used_key_space sa - k))") auto

declare search_forward_loop.simps [simp del]

definition search_forward :: "sorted_array \<Rightarrow> byte list \<Rightarrow> (int \<times> int \<times> bool) option" where
  "search_forward sa key =
     do { (key_pos, data_pos, prev_cmp) \<leftarrow>
            search_forward_loop sa key 0 (- sa_key_length sa) (-1) (-1);
          Some (key_pos, data_pos, prev_cmp = 0) }"

function search_backward_loop ::
    "sorted_array \<Rightarrow> byte list \<Rightarrow> int \<Rightarrow> int \<Rightarrow> int \<Rightarrow> int \<Rightarrow> (int \<times> int \<times> int) option" where
  "search_backward_loop sa key k key_pos data_pos prev_cmp =
     (if 0 \<le> k then
        if sa_key_length sa \<le> 0 then None
        else case mem_read (sa_key_space sa) k (sa_key_length sa)
                    \<bind> (\<lambda>k_bytes. sa_compare_keys sa k_bytes key) of
          None \<Rightarrow> None
        | Some cmp \<Rightarrow>
            if cmp < 0 then Some (key_pos, data_pos, prev_cmp)
            else search_backward_loop sa key (k - sa_key_length sa)
                   (key_pos - sa_key_length sa) (data_pos - 1) cmp
      else Some (key_pos, data_pos, prev_cmp))"
  by pat_completeness auto
termination
  by (relation "measure (\<lambda>(sa, key, k, _). nat (k + 1))") auto

declare search_backward_loop.simps [simp del]

definition search_backward :: "sorted_array \<Rightarrow> byte list \<Rightarrow> (int \<times> int \<times> bool) option" where
  "search_backward sa key =
     do { (key_pos, data_pos, prev_cmp) \<leftarrow>
            search_backward_loop sa key (sa_used_key_space sa - sa_key_length sa)
              (sa_used_key_space sa) (sa_key_count sa) (-1);
          Some (key_pos, data_pos, prev_cmp = 0) }"

definition set_data :: "sorted_array \<Rightarrow> int \<Rightarrow> ptr \<Rightarrow> sorted_array option" where
  "set_data sa data_pos data =
     do { d \<leftarrow> mem_write (sa_data sa) data_pos [data]; Some (sa\<lparr>sa_data := d\<rparr>) }"

definition get_key :: "sorted_array \<Rightarrow> int \<Rightarrow> byte list option" where
  "get_key sa key_pos = mem_read (sa_key_space sa) key_pos (sa_key_length sa)"

definition get_data :: "sorted_array \<Rightarrow> int \<Rightarrow> ptr option" where
  "get_data sa data_pos = mem_get (sa_data sa) data_pos"

definition move_keys_right_by_the_key_length_from :: "sorted_array \<Rightarrow> int \<Rightarrow> sorted_array option" where
  "move_keys_right_by_the_key_length_from sa key_pos =
     do { ks \<leftarrow> mem_move (sa_key_space sa) (key_pos + sa_key_length sa) key_pos
                  (sa_used_key_space sa - key_pos);
          Some (sa\<lparr>sa_key_space := ks\<rparr>) }"

definition move_keys_left_by_the_key_length_from :: "sorted_array \<Rightarrow> int \<Rightarrow> sorted_array option" where
  "move_keys_left_by_the_key_length_from sa key_pos =
     do { ks \<leftarrow> mem_move (sa_key_space sa) (key_pos - sa_key_length sa) key_pos
                  (sa_used_key_space sa - key_pos);
          Some (sa\<lparr>sa_key_space := ks\<rparr>) }"

definition set_key_data_at :: "sorted_array \<Rightarrow> int \<Rightarrow> int \<Rightarrow> byte list \<Rightarrow> ptr \<Rightarrow> sorted_array option" where
  "set_key_data_at sa key_pos data_pos key data =
     do { key_bytes \<leftarrow> mem_read key 0 (sa_key_length sa);
          ks \<leftarrow> mem_write (sa_key_space sa) key_pos key_bytes;
          set_data (sa\<lparr>sa_key_space := ks\<rparr>) data_pos data }"

definition move_data_right_by_one_from :: "sorted_array \<Rightarrow> int \<Rightarrow> sorted_array option" where
  "move_data_right_by_one_from sa data_pos =
     do { d \<leftarrow> mem_move (sa_data sa) (data_pos + 1) data_pos (sa_key_count sa - data_pos);
          Some (sa\<lparr>sa_data := d\<rparr>) }"

definition move_data_left_by_one_from :: "sorted_array \<Rightarrow> int \<Rightarrow> sorted_array option" where
  "move_data_left_by_one_from sa data_pos =
     do { d \<leftarrow> mem_move (sa_data sa) (data_pos - 1) data_pos (sa_key_count sa - data_pos);
          Some (sa\<lparr>sa_data := d\<rparr>) }"

definition insert_key_data_at :: "sorted_array \<Rightarrow> int \<Rightarrow> int \<Rightarrow> byte list \<Rightarrow> ptr \<Rightarrow> sorted_array option" where
  "insert_key_data_at sa key_pos data_pos key data =
     do { sa1 \<leftarrow> (if key_pos = sa_used_key_space sa then Some sa
                  else move_keys_right_by_the_key_length_from sa key_pos
                         \<bind> (\<lambda>s. move_data_right_by_one_from s data_pos));
          sa2 \<leftarrow> set_key_data_at sa1 key_pos data_pos key data;
          Some (sa2\<lparr>sa_key_count := sa_key_count sa2 + 1,
                    sa_used_key_space := sa_used_key_space sa2 + sa_key_length sa2\<rparr>) }"

definition remove_key_data_at :: "sorted_array \<Rightarrow> int \<Rightarrow> int \<Rightarrow> sorted_array option" where
  "remove_key_data_at sa key_pos data_pos =
     do { sa1 \<leftarrow> (if key_pos + sa_key_length sa = sa_used_key_space sa then Some sa
                  else move_keys_left_by_the_key_length_from sa (key_pos + sa_key_length sa)
                         \<bind> (\<lambda>s. move_data_left_by_one_from s (data_pos + 1)));
          Some (sa1\<lparr>sa_key_count := sa_key_count sa1 - 1,
                    sa_used_key_space := sa_used_key_space sa1 - sa_key_length sa1\<rparr>) }"

section \<open>The public operations\<close>

text \<open>\<^verbatim>\<open>init\<close> divides by the key length.\<close>

definition sa_init :: "sorted_array \<Rightarrow> int \<Rightarrow> sorted_array option" where
  "sa_init sa key_length =
     (if key_length = 0 then None
      else Some (sa\<lparr>sa_max_key_count := sa_key_space_size sa div key_length, sa_key_count := 0,
                    sa_used_key_space := 0, sa_key_length := key_length\<rparr>))"

definition sa_init_with ::
    "sorted_array \<Rightarrow> int \<Rightarrow> int \<Rightarrow> int \<Rightarrow> byte list \<Rightarrow> ptr list \<Rightarrow> sorted_array option" where
  "sa_init_with sa key_length key_count used_key_space key_space data_area =
     (if key_length = 0 then None
      else do { kb \<leftarrow> mem_read key_space 0 used_key_space;
                ks \<leftarrow> mem_write (sa_key_space sa) 0 kb;
                da \<leftarrow> mem_read data_area 0 key_count;
                d \<leftarrow> mem_write (sa_data sa) 0 da;
                Some (sa\<lparr>sa_key_space := ks, sa_data := d,
                         sa_max_key_count := sa_key_space_size sa div key_length,
                         sa_key_count := key_count, sa_used_key_space := used_key_space,
                         sa_key_length := key_length\<rparr>) })"

definition sa_put :: "sorted_array \<Rightarrow> byte list \<Rightarrow> ptr \<Rightarrow> sorted_array option" where
  "sa_put sa key data =
     do { (key_pos, data_pos, key_found) \<leftarrow> search_forward sa key;
          if key_found then set_data sa data_pos data
          else insert_key_data_at sa (key_pos + sa_key_length sa) (data_pos + 1) key data }"

text \<open>\<^verbatim>\<open>get\<close> by key: the data (\<^term>\<open>NULL\<close> when absent) and the 1-based order (0 when absent).\<close>

definition sa_get :: "sorted_array \<Rightarrow> byte list \<Rightarrow> (ptr \<times> int) option" where
  "sa_get sa key =
     do { (key_pos, data_pos, key_found) \<leftarrow> search_forward sa key;
          if key_found then do { data \<leftarrow> get_data sa data_pos; Some (data, data_pos + 1) }
          else Some (NULL, 0) }"

definition sa_get_by_order :: "sorted_array \<Rightarrow> int \<Rightarrow> (byte list \<times> ptr) option" where
  "sa_get_by_order sa key_order =
     do { key \<leftarrow> get_key sa ((key_order - 1) * sa_key_length sa);
          data \<leftarrow> get_data sa (key_order - 1);
          Some (key, data) }"

definition find_last_le_key :: "sorted_array \<Rightarrow> byte list \<Rightarrow> (ptr \<times> int) option" where
  "find_last_le_key sa key =
     do { (key_pos, data_pos, key_found) \<leftarrow> search_forward sa key;
          data \<leftarrow> (if data_pos < 0 then Some NULL else get_data sa data_pos);
          Some (data, data_pos) }"

definition sa_del :: "sorted_array \<Rightarrow> byte list \<Rightarrow> (ptr \<times> sorted_array) option" where
  "sa_del sa key =
     do { (key_pos, data_pos, key_found) \<leftarrow> search_forward sa key;
          if key_found
          then do { data \<leftarrow> get_data sa data_pos;
                    sa' \<leftarrow> remove_key_data_at sa key_pos data_pos;
                    Some (data, sa') }
          else Some (NULL, sa) }"

text \<open>
  \<^verbatim>\<open>remove_max_key\<close> leaves its outputs unset on an empty array: \<^term>\<open>None\<close> as the first component.
  The returned key is a pointer into \<^verbatim>\<open>key_space_\<close>; the bytes behind it stay in place.
\<close>

definition remove_max_key :: "sorted_array \<Rightarrow> ((byte list \<times> ptr) option \<times> sorted_array) option" where
  "remove_max_key sa =
     (if 0 < sa_key_count sa
      then do { let max_key_pos = sa_used_key_space sa - sa_key_length sa;
                let max_data_pos = sa_key_count sa - 1;
                key \<leftarrow> get_key sa max_key_pos;
                data \<leftarrow> get_data sa max_data_pos;
                sa' \<leftarrow> remove_key_data_at sa max_key_pos max_data_pos;
                Some (Some (key, data), sa') }
      else Some (None, sa))"

definition sa_iter_forward_key :: "sorted_array \<Rightarrow> byte list \<Rightarrow> sa_iterator option" where
  "sa_iter_forward_key sa key =
     do { (key_pos, data_pos, key_found) \<leftarrow> search_forward sa key;
          Some (if key_found then \<lparr>it_key_pos = key_pos, it_data_pos = data_pos\<rparr>
                else \<lparr>it_key_pos = key_pos + sa_key_length sa, it_data_pos = data_pos + 1\<rparr>) }"

definition sa_iter_backward_key :: "sorted_array \<Rightarrow> byte list \<Rightarrow> sa_iterator option" where
  "sa_iter_backward_key sa key =
     do { (key_pos, data_pos, key_found) \<leftarrow> search_backward sa key;
          Some (if key_found then \<lparr>it_key_pos = key_pos, it_data_pos = data_pos\<rparr>
                else \<lparr>it_key_pos = key_pos - sa_key_length sa, it_data_pos = data_pos - 1\<rparr>) }"

definition sa_iter_forward_order :: "sorted_array \<Rightarrow> int \<Rightarrow> sa_iterator" where
  "sa_iter_forward_order sa key_order =
     \<lparr>it_key_pos = (key_order - 1) * sa_key_length sa, it_data_pos = key_order - 1\<rparr>"

definition sa_iter_backward_order :: "sorted_array \<Rightarrow> int \<Rightarrow> sa_iterator" where
  "sa_iter_backward_order sa key_order = sa_iter_forward_order sa key_order"

definition sa_iter_forward :: "sorted_array \<Rightarrow> sa_iterator" where
  "sa_iter_forward sa = \<lparr>it_key_pos = 0, it_data_pos = 0\<rparr>"

definition sa_iter_backward :: "sorted_array \<Rightarrow> sa_iterator" where
  "sa_iter_backward sa =
     \<lparr>it_key_pos = sa_used_key_space sa - sa_key_length sa, it_data_pos = sa_key_count sa - 1\<rparr>"

text \<open>The outputs of a step of an iterator; \<^term>\<open>None\<close> stands for \<^verbatim>\<open>*key == NULL\<close>, no more keys.\<close>

definition iter_next :: "sorted_array \<Rightarrow> sa_iterator \<Rightarrow> ((byte list \<times> ptr) option \<times> sa_iterator) option" where
  "iter_next sa iter =
     (if it_key_pos iter < sa_used_key_space sa
      then do { key \<leftarrow> get_key sa (it_key_pos iter);
                data \<leftarrow> get_data sa (it_data_pos iter);
                Some (Some (key, data), next_key sa iter) }
      else Some (None, iter))"

definition iter_prev :: "sorted_array \<Rightarrow> sa_iterator \<Rightarrow> ((byte list \<times> ptr) option \<times> sa_iterator) option" where
  "iter_prev sa iter =
     (if 0 \<le> it_key_pos iter
      then do { key \<leftarrow> get_key sa (it_key_pos iter);
                data \<leftarrow> get_data sa (it_data_pos iter);
                Some (Some (key, data), prev_key sa iter) }
      else Some (None, iter))"

definition sa_merge_with :: "sorted_array \<Rightarrow> sorted_array \<Rightarrow> nldb_rc_t" where
  "sa_merge_with sa right = NLDB_ERROR_UNSUPPORTED_FEATURE"

text \<open>\<^verbatim>\<open>split\<close> moves the right half into a second array; the result is (this array, right half).\<close>

definition sa_split :: "sorted_array \<Rightarrow> sorted_array \<Rightarrow> (sorted_array \<times> sorted_array) option" where
  "sa_split sa right_half =
     do { let right_half_key_count = sa_key_count sa div 2;
          let right_half_used_key_space = right_half_key_count * sa_key_length sa;
          let new_key_count = sa_key_count sa - right_half_key_count;
          let new_used_key_space = sa_used_key_space sa - right_half_used_key_space;
          right_half_key_space \<leftarrow> mem_read (sa_key_space sa) new_used_key_space right_half_used_key_space;
          right_half_data_area \<leftarrow> mem_read (sa_data sa) new_key_count right_half_key_count;
          right' \<leftarrow> sa_init_with right_half (sa_key_length sa) right_half_key_count
                      right_half_used_key_space right_half_key_space right_half_data_area;
          Some (sa\<lparr>sa_key_count := new_key_count, sa_used_key_space := new_used_key_space\<rparr>, right') }"

definition sa_is_initialized :: "sorted_array \<Rightarrow> bool" where
  "sa_is_initialized sa \<longleftrightarrow> 0 < sa_key_length sa"

definition sa_is_empty :: "sorted_array \<Rightarrow> bool" where
  "sa_is_empty sa \<longleftrightarrow> sa_used_key_space sa = 0"

definition sa_is_full :: "sorted_array \<Rightarrow> bool" where
  "sa_is_full sa \<longleftrightarrow> \<not> sa_used_key_space sa + sa_key_length sa \<le> sa_key_space_size sa"

text \<open>\<^verbatim>\<open>min_key\<close>: \<^term>\<open>None\<close> is the null pointer, otherwise the bytes behind the returned pointer.\<close>

definition sa_min_key :: "sorted_array \<Rightarrow> byte list option" where
  "sa_min_key sa = (if sa_used_key_space sa = 0 then None else get_key sa 0)"

end
