(* ===== verification/Sorted_Array_Proofs.thy ===== *)
theory Sorted_Array_Proofs
  imports Sorted_Array
begin

text \<open>
  Data refinement of the sorted array: \<open>sa_rep\<close> relates the byte level object to the strictly
  sorted list of (key, data) pairs it encodes. Each operation of \<^verbatim>\<open>nldb_sorted_array\<close> is shown to
  stay inside its memory blocks and to compute the corresponding list operation.
\<close>

section \<open>Fixed width blocks\<close>

lemma length_concat_fixed:
  "\<forall>k\<in>set ks. length k = kl \<Longrightarrow> length (concat ks) = length ks * kl"
  by (induction ks) auto

lemma take_concat_fixed:
  "\<forall>k\<in>set ks. length k = kl \<Longrightarrow> take (i * kl) (concat ks) = concat (take i ks)"
proof (induction ks arbitrary: i)
  case (Cons k ks)
  then show ?case by (cases i) auto
qed simp

lemma drop_concat_fixed:
  "\<forall>k\<in>set ks. length k = kl \<Longrightarrow> drop (i * kl) (concat ks) = concat (drop i ks)"
proof (induction ks arbitrary: i)
  case (Cons k ks)
  then show ?case by (cases i) auto
qed simp

text \<open>Shifting the tail of a used prefix by one block, to open or to close a gap.\<close>

lemma mem_open_gap:
  assumes "a \<le> b" and "b + w \<le> length K" and "length x = w"
  obtains M where "mem_move K (int a + int w) (int a) (int b - int a) = Some M"
    and "mem_write M (int a) x = Some (take a K @ x @ take (b - a) (drop a K) @ drop (b + w) K)"
proof -
  let ?A = "take (a + w) K" and ?B = "take (b - a) (drop a K)" and ?C = "drop (b + w) K"
  have la: "length ?A = a + w" "length ?B = b - a" using assms by auto
  have "mem_move K (int (a + w)) (int a) (int (b - a)) = Some (?A @ ?B @ ?C)"
    using mem_move_nat [of a "b - a" K "a + w"] assms by (simp add: add.commute)
  moreover have "mem_write (?A @ ?B @ ?C) (int a) x = Some (take a K @ x @ ?B @ ?C)"
    using mem_write_nat [of a x "?A @ ?B @ ?C"] assms la by (simp add: min_def)
  ultimately show ?thesis
    using assms(1) that [of "?A @ ?B @ ?C"] by (simp add: of_nat_diff)
qed

lemma length_open_gap:
  assumes "a \<le> b" and "b + w \<le> length K" and "length x = w"
  shows "length (take a K @ x @ take (b - a) (drop a K) @ drop (b + w) K) = length K"
proof -
  have "length (take a K) = a" "length (take (b - a) (drop a K)) = b - a" using assms by auto
  then show ?thesis using assms by simp
qed

lemma mem_close_gap:
  assumes "a + w \<le> b" and "b \<le> length K"
  obtains C where
    "mem_move K (int a) (int a + int w) (int b - (int a + int w)) =
       Some (take a K @ take (b - (a + w)) (drop (a + w) K) @ C)"
    and "length C = length K - (b - w)"
proof -
  have "mem_move K (int a) (int (a + w)) (int (b - (a + w))) =
      Some (take a K @ take (b - (a + w)) (drop (a + w) K) @ drop (a + (b - (a + w))) K)"
    using mem_move_nat [of "a + w" "b - (a + w)" K a] assms by simp
  then show ?thesis
    using assms that [of "drop (a + (b - (a + w))) K"] by (simp add: of_nat_diff)
qed

section \<open>The representation relation\<close>

definition sa_rep :: "nat \<Rightarrow> nat \<Rightarrow> sorted_array \<Rightarrow> entries \<Rightarrow> bool" where
  "sa_rep kss kl sa xs \<longleftrightarrow>
     0 < kl \<and> sa_key_length sa = int kl \<and>
     length (sa_key_space sa) = kss \<and> length (sa_data sa) = kss \<and>
     sa_max_key_count sa = int (kss div kl) \<and>
     sa_key_count sa = int (length xs) \<and> sa_used_key_space sa = int (length xs * kl) \<and>
     length xs * kl \<le> kss \<and> (\<forall>k\<in>fst ` set xs. length k = kl) \<and>
     take (length xs * kl) (sa_key_space sa) = concat (map fst xs) \<and>
     take (length xs) (sa_data sa) = map snd xs \<and> sorted_keys xs"

lemma sa_repD:
  assumes "sa_rep kss kl sa xs"
  shows "0 < kl" "sa_key_length sa = int kl" "length (sa_key_space sa) = kss"
    "length (sa_data sa) = kss" "sa_key_count sa = int (length xs)"
    "sa_used_key_space sa = int (length xs * kl)" "length xs * kl \<le> kss"
    "\<And>e. e \<in> set xs \<Longrightarrow> length (fst e) = kl"
    "take (length xs * kl) (sa_key_space sa) = concat (map fst xs)"
    "take (length xs) (sa_data sa) = map snd xs" "sorted_keys xs"
  using assms by (auto simp: sa_rep_def)

lemma sa_rep_length_le:
  assumes "sa_rep kss kl sa xs"
  shows "length xs \<le> kss"
proof -
  have "length xs \<le> length xs * kl"
    using sa_repD(1) [OF assms] by simp
  with sa_repD(7) [OF assms] show ?thesis by linarith
qed

lemma sa_rep_key_at:
  assumes rep: "sa_rep kss kl sa xs" and i: "i < length xs"
  shows "get_key sa (int (i * kl)) = Some (fst (xs ! i))"
proof -
  let ?ks = "map fst xs"
  note d = sa_repD [OF rep]
  have fixed: "\<forall>k\<in>set ?ks. length k = kl" using d(8) by auto
  have bound: "i * kl + kl \<le> length xs * kl"
    using mult_le_mono1 [of "Suc i" "length xs" kl] i by simp
  have "take kl (drop (i * kl) (sa_key_space sa)) =
          take kl (drop (i * kl) (take (length xs * kl) (sa_key_space sa)))"
    using bound by (simp add: drop_take min_def)
  also have "\<dots> = take (1 * kl) (concat (drop i ?ks))"
    using fixed by (simp add: d(9) drop_concat_fixed)
  also have "\<dots> = concat (take 1 (drop i ?ks))"
    using fixed by (intro take_concat_fixed) (blast dest: in_set_dropD)
  also have "\<dots> = fst (xs ! i)"
    using i by (simp add: take_Suc hd_drop_conv_nth)
  finally have read: "take kl (drop (i * kl) (sa_key_space sa)) = fst (xs ! i)" .
  have "int (i * kl) + int kl \<le> int kss"
    using bound d(7) by linarith
  then show ?thesis
    using read d(1-3) by (simp add: get_key_def mem_read_def nat_mult_distrib)
qed

lemma sa_rep_data_at:
  assumes rep: "sa_rep kss kl sa xs" and i: "i < length xs"
  shows "get_data sa (int i) = Some (snd (xs ! i))"
proof -
  have "sa_data sa ! i = take (length xs) (sa_data sa) ! i" using i by simp
  also have "\<dots> = snd (xs ! i)" using i by (simp add: sa_repD(10) [OF rep])
  finally show ?thesis
    using i sa_rep_length_le [OF rep] by (simp add: get_data_def mem_get_def sa_repD(4) [OF rep])
qed

lemma sa_rep_slices:
  assumes rep: "sa_rep kss kl sa xs" and i: "i \<le> length xs"
  shows "take (i * kl) (sa_key_space sa) = concat (map fst (take i xs))"
    and "take (length xs * kl - i * kl) (drop (i * kl) (sa_key_space sa)) = concat (map fst (drop i xs))"
    and "take i (sa_data sa) = map snd (take i xs)"
    and "take (length xs - i) (drop i (sa_data sa)) = map snd (drop i xs)"
proof -
  note r = sa_repD [OF rep]
  have fixed: "\<forall>k\<in>set (map fst xs). length k = kl" using r(8) by auto
  have "take (i * kl) (sa_key_space sa) = take (i * kl) (take (length xs * kl) (sa_key_space sa))"
    using i by (simp add: min_def)
  then show "take (i * kl) (sa_key_space sa) = concat (map fst (take i xs))"
    using fixed by (simp add: r(9) take_concat_fixed take_map)
  have "take (length xs * kl - i * kl) (drop (i * kl) (sa_key_space sa)) =
          drop (i * kl) (take (length xs * kl) (sa_key_space sa))"
    by (simp add: drop_take)
  then show "take (length xs * kl - i * kl) (drop (i * kl) (sa_key_space sa)) = concat (map fst (drop i xs))"
    using fixed by (simp add: r(9) drop_concat_fixed drop_map)
  have "take i (sa_data sa) = take i (take (length xs) (sa_data sa))"
    using i by (simp add: min_def)
  then show "take i (sa_data sa) = map snd (take i xs)"
    by (simp add: r(10) take_map)
  show "take (length xs - i) (drop i (sa_data sa)) = map snd (drop i xs)"
    by (simp add: take_drop r(10) drop_map i flip: drop_take)
qed

lemma sa_compare_keys_rep:
  assumes "sa_rep kss kl sa xs" and "length a = kl" and "length b = kl"
  shows "sa_compare_keys sa a b = Some (memcmp a b kl)"
  using assms by (simp add: sa_compare_keys_def sa_repD(2))

lemma sa_rep_update:
  assumes rep: "sa_rep kss kl sa xs"
    and ys: "sorted_keys ys" "\<And>e. e \<in> set ys \<Longrightarrow> length (fst e) = kl"
    and K: "K = concat (map fst ys) @ junk" "length K = kss"
    and D: "D = map snd ys @ junk'" "length D = kss"
    and n: "n = int (length ys)" "u = int (length ys * kl)"
  shows "sa_rep kss kl (sa\<lparr>sa_key_space := K, sa_data := D, sa_key_count := n, sa_used_key_space := u\<rparr>) ys"
proof -
  have len: "length (concat (map fst ys)) = length ys * kl"
    using ys(2) length_concat_fixed [of "map fst ys" kl] by auto
  have "take (length ys * kl) K = concat (map fst ys)"
    unfolding K(1) using len by (metis append_eq_conv_conj)
  moreover have "length ys * kl \<le> kss"
    using K len by (metis le_add1 length_append)
  ultimately show ?thesis
    using rep ys K(2) D n by (auto simp: sa_rep_def)
qed

section \<open>Searching\<close>

lemma search_forward_loop_spec:
  assumes rep: "sa_rep kss kl sa xs" and key: "length key = kl" and i: "i \<le> length xs"
  shows "search_forward_loop sa key (int (i * kl)) kp dp pc =
           (let m = length (takeWhile (\<lambda>e. fst e \<le> key) (drop i xs)) in
            Some (kp + int (m * kl), dp + int m,
                  if m = 0 then pc else memcmp key (fst (xs ! (i + m - 1))) kl))"
  using i
proof (induction "length xs - i" arbitrary: i kp dp pc)
  case 0
  then show ?case by (subst search_forward_loop.simps) (simp add: sa_repD(6) [OF rep])
next
  case (Suc d)
  note r = sa_repD [OF rep]
  from Suc have i: "i < length xs" by simp
  then have drop: "drop i xs = xs ! i # drop (Suc i) xs" by (simp add: Cons_nth_drop_Suc)
  have len: "length (fst (xs ! i)) = kl" using r(8) i by simp
  have inside: "int (i * kl) < sa_used_key_space sa" using i r(1,6) by simp
  have cmp: "mem_read (sa_key_space sa) (int (i * kl)) (sa_key_length sa) \<bind> sa_compare_keys sa key =
      Some (memcmp key (fst (xs ! i)) kl)"
    using sa_rep_key_at [OF rep i] sa_compare_keys_rep [OF rep key len] by (simp add: get_key_def)
  show ?case
  proof (cases "key < fst (xs ! i)")
    case True
    then show ?thesis
      using inside cmp r(1,2) memcmp_neg_iff [OF key len] drop
      by (subst search_forward_loop.simps) simp
  next
    case False
    have step: "search_forward_loop sa key (int (i * kl)) kp dp pc =
        search_forward_loop sa key (int (Suc i * kl)) (kp + int kl) (dp + 1) (memcmp key (fst (xs ! i)) kl)"
      using inside cmp r(1,2) memcmp_neg_iff [OF key len] False
      by (subst search_forward_loop.simps) (simp add: algebra_simps)
    have "d = length xs - Suc i" "Suc i \<le> length xs" using Suc.hyps(2) i by auto
    from Suc.hyps(1) [OF this, of "kp + int kl" "dp + 1" "memcmp key (fst (xs ! i)) kl"]
    show ?thesis
      using step drop False by (auto simp: Let_def not_less algebra_simps)
  qed
qed

lemma takeWhile_sorted:
  fixes xs :: "('k::linorder \<times> 'v) list"
  assumes "sorted_keys xs"
  shows "takeWhile (\<lambda>e. fst e \<le> k) xs = filter (\<lambda>e. fst e \<le> k) xs"
  using assms by (induction xs) (auto simp: empty_filter_conv)

lemma rank_le_last:
  fixes xs :: "('k::linorder \<times> 'v) list"
  assumes "sorted_keys xs"
  shows "k \<in> fst ` set xs \<longleftrightarrow> 0 < rank_le k xs \<and> fst (xs ! (rank_le k xs - 1)) = k"
  using assms
proof (induction xs)
  case (Cons x xs)
  have none: "filter (\<lambda>e. fst e \<le> k) xs = []" if "k \<le> fst x"
    using that Cons.prems by (auto simp: filter_empty_conv)
  have IH: "k \<in> fst ` set xs \<longleftrightarrow> 0 < rank_le k xs \<and> fst (xs ! (rank_le k xs - 1)) = k"
    using Cons by auto
  consider "k < fst x" | "k = fst x" | "fst x < k" by force
  then show ?case
  proof cases
    case 1
    then show ?thesis using none Cons.prems by (force simp: rank_le_def)
  next
    case 2
    then show ?thesis using none by (simp add: rank_le_def)
  next
    case 3
    then have "rank_le k (x # xs) = Suc (rank_le k xs)" by (simp add: rank_le_def)
    with 3 IH show ?thesis by (cases "rank_le k xs") auto
  qed
qed (simp add: rank_le_def)

lemma search_forward_spec [sa_rules]:
  assumes rep: "sa_rep kss kl sa xs" and key: "length key = kl"
  shows "search_forward sa key =
           Some ((int (rank_le key xs) - 1) * int kl, int (rank_le key xs) - 1, key \<in> fst ` set xs)"
proof -
  note r = sa_repD [OF rep]
  let ?m = "rank_le key xs"
  have m: "length (takeWhile (\<lambda>e. fst e \<le> key) xs) = ?m"
    by (simp add: takeWhile_sorted [OF r(11)] rank_le_def)
  have "?m \<le> length xs" by (rule rank_le_length)
  then have "memcmp key (fst (xs ! (?m - 1))) kl = 0 \<longleftrightarrow> fst (xs ! (?m - 1)) = key" if "0 < ?m"
    using that key r(8) [of "xs ! (?m - 1)"] by (subst memcmp_zero_iff) auto
  then have "(if ?m = 0 then -1 else memcmp key (fst (xs ! (?m - 1))) kl) = 0 \<longleftrightarrow> key \<in> fst ` set xs"
    using rank_le_last [OF r(11), of key] by auto
  then show ?thesis
    using search_forward_loop_spec [OF rep key, of 0 "- int kl" "-1" "-1"] m
    by (simp add: search_forward_def r(2) Let_def algebra_simps split: if_splits)
qed

section \<open>Insertion and removal\<close>

text \<open>Opening a slot at index \<open>i\<close> and filling it: the array holds the list with the pair inserted.\<close>

lemma insert_key_data_at_spec:
  assumes rep: "sa_rep kss kl sa xs" and key: "length key = kl" and i: "i \<le> length xs"
    and room: "length xs * kl + kl \<le> kss"
    and sorted: "sorted_keys (take i xs @ (key, v) # drop i xs)"
  shows "\<exists>sa'. insert_key_data_at sa (int (i * kl)) (int i) key v = Some sa' \<and>
               sa_rep kss kl sa' (take i xs @ (key, v) # drop i xs)"
proof -
  note r = sa_repD [OF rep]
  let ?n = "length xs" and ?K = "sa_key_space sa" and ?D = "sa_data sa"
  have ikl: "i * kl \<le> ?n * kl" using i by simp
  have dlen: "?n + 1 \<le> kss"
  proof -
    have "(?n + 1) * 1 \<le> (?n + 1) * kl" using r(1) by (intro mult_le_mono2) simp
    with room show ?thesis by (simp add: algebra_simps)
  qed
  define K' where "K' = take (i * kl) ?K @ key @ take (?n * kl - i * kl) (drop (i * kl) ?K) @
                          drop (?n * kl + kl) ?K"
  define D' where "D' = take i ?D @ [v] @ take (?n - i) (drop i ?D) @ drop (?n + 1) ?D"
  have eq: "insert_key_data_at sa (int (i * kl)) (int i) key v =
      Some (sa\<lparr>sa_key_space := K', sa_data := D', sa_key_count := int (?n + 1),
               sa_used_key_space := int (?n * kl + kl)\<rparr>)"
  proof (cases "i = ?n")
    case True
    have "mem_write ?K (int (i * kl)) key = Some K'"
      using True room key r(3) by (subst mem_write_nat) (simp_all add: K'_def)
    moreover have "mem_write ?D (int i) [v] = Some D'"
      using True dlen r(4) by (subst mem_write_nat) (simp_all add: D'_def)
    ultimately show ?thesis
      using True key r(1,2,5,6)
      by (simp add: insert_key_data_at_def set_key_data_at_def set_data_def mem_read_def)
  next
    case False
    obtain MK where mk: "mem_move ?K (int (i * kl) + int kl) (int (i * kl)) (int (?n * kl) - int (i * kl)) = Some MK"
        "mem_write MK (int (i * kl)) key = Some K'"
      unfolding K'_def
      by (rule mem_open_gap [of "i * kl" "?n * kl" kl ?K key]) (use ikl room key r(3) in auto)
    obtain MD where md: "mem_move ?D (int i + int 1) (int i) (int ?n - int i) = Some MD"
        "mem_write MD (int i) [v] = Some D'"
      unfolding D'_def by (rule mem_open_gap [of i ?n 1 ?D "[v]"]) (use i dlen r(4) in auto)
    have "int (i * kl) \<noteq> sa_used_key_space sa"
      using False r(1,6) by simp
    then show ?thesis
      using key r(1,2,5,6) mk md
      by (simp add: insert_key_data_at_def set_key_data_at_def set_data_def mem_read_def
            move_keys_right_by_the_key_length_from_def move_data_right_by_one_from_def)
  qed
  note slices = sa_rep_slices [OF rep i]
  have len: "length K' = kss" "length D' = kss"
  proof -
    have "length K' = length ?K"
      unfolding K'_def by (rule length_open_gap) (use ikl room key r(3) in simp_all)
    then show "length K' = kss" by (simp add: r(3))
    have "length D' = length ?D"
      unfolding D'_def by (rule length_open_gap) (use i dlen r(4) in simp_all)
    then show "length D' = kss" by (simp add: r(4))
  qed
  have "sa_rep kss kl (sa\<lparr>sa_key_space := K', sa_data := D', sa_key_count := int (?n + 1),
          sa_used_key_space := int (?n * kl + kl)\<rparr>) (take i xs @ (key, v) # drop i xs)"
  proof (rule sa_rep_update [OF rep sorted])
    show "length (fst e) = kl" if "e \<in> set (take i xs @ (key, v) # drop i xs)" for e
      using that r(8) [of e] key by (auto dest: in_set_takeD in_set_dropD)
    show "K' = concat (map fst (take i xs @ (key, v) # drop i xs)) @ drop (?n * kl + kl) ?K"
      by (simp add: K'_def slices)
    show "D' = map snd (take i xs @ (key, v) # drop i xs) @ drop (?n + 1) ?D"
      by (simp add: D'_def slices)
  qed (use len i in \<open>auto simp: algebra_simps\<close>)
  with eq show ?thesis by blast
qed

lemma set_data_spec:
  assumes rep: "sa_rep kss kl sa xs" and i: "i < length xs"
  shows "\<exists>sa'. set_data sa (int i) v = Some sa' \<and> sa_rep kss kl sa' (xs[i := (fst (xs ! i), v)])"
proof -
  note r = sa_repD [OF rep]
  have len: "i < length (sa_data sa)" using i sa_rep_length_le [OF rep] r(4) by simp
  then have w: "mem_write (sa_data sa) (int i) [v] = Some ((sa_data sa)[i := v])"
    by (subst mem_write_nat) (simp_all add: upd_conv_take_nth_drop)
  have fst: "map fst (xs[i := (fst (xs ! i), v)]) = map fst xs"
    using i by (metis list_update_id map_update fst_conv nth_map)
  then have "fst ` set (xs[i := (fst (xs ! i), v)]) = fst ` set xs"
    by (metis list.set_map)
  moreover have "take (length xs) ((sa_data sa)[i := v]) = (map snd xs)[i := v]"
    using i r(10) by (metis take_update_swap)
  ultimately show ?thesis
    using rep fst w by (simp add: set_data_def sa_rep_def map_update)
qed

lemma remove_key_data_at_spec:
  assumes rep: "sa_rep kss kl sa xs" and i: "i < length xs"
  shows "\<exists>sa'. remove_key_data_at sa (int (i * kl)) (int i) = Some sa' \<and>
               sa_rep kss kl sa' (take i xs @ drop (Suc i) xs)"
proof -
  note r = sa_repD [OF rep]
  let ?n = "length xs" and ?K = "sa_key_space sa" and ?D = "sa_data sa"
  let ?ys = "take i xs @ drop (Suc i) xs"
  have nkl: "i * kl + kl \<le> ?n * kl" using mult_le_mono1 [of "Suc i" ?n kl] i by simp
  have n: "?n \<le> kss" by (rule sa_rep_length_le [OF rep])
  note s1 = sa_rep_slices [OF rep less_imp_le [OF i]] and s2 = sa_rep_slices [OF rep Suc_leI [OF i]]
  obtain K' D' CK CD where eq: "remove_key_data_at sa (int (i * kl)) (int i) =
      Some (sa\<lparr>sa_key_space := K', sa_data := D', sa_key_count := int ?n - 1,
               sa_used_key_space := int (?n * kl) - int kl\<rparr>)"
    and K': "K' = concat (map fst ?ys) @ CK" "length K' = kss"
    and D': "D' = map snd ?ys @ CD" "length D' = kss"
  proof (cases "Suc i = ?n")
    case True
    then have pos: "int (i * kl) + int kl = int (?n * kl)" by (metis add.commute mult_Suc of_nat_add)
    show ?thesis
    proof (rule that)
      show "remove_key_data_at sa (int (i * kl)) (int i) =
          Some (sa\<lparr>sa_key_space := ?K, sa_data := ?D, sa_key_count := int ?n - 1,
                   sa_used_key_space := int (?n * kl) - int kl\<rparr>)"
        using pos r(2-6) True by (simp add: remove_key_data_at_def)
      show "?K = concat (map fst ?ys) @ drop (i * kl) ?K" "?D = map snd ?ys @ drop i ?D"
        using True s1(1,3) by (metis append_Nil2 append_take_drop_id drop_all order_refl)+
    qed (rule r)+
  next
    case False
    have "i * kl + kl \<le> ?n * kl" "?n * kl \<le> length ?K" using nkl r(3,7) by auto
    then obtain CK where ck: "mem_move ?K (int (i * kl)) (int (i * kl) + int kl) (int (?n * kl) - (int (i * kl) + int kl)) =
        Some (take (i * kl) ?K @ take (?n * kl - (i * kl + kl)) (drop (i * kl + kl) ?K) @ CK)"
        "length CK = length ?K - (?n * kl - kl)"
      by (rule mem_close_gap)
    have "i + 1 \<le> ?n" "?n \<le> length ?D" using i n r(4) by auto
    then obtain CD where cd: "mem_move ?D (int i) (int i + int 1) (int ?n - (int i + int 1)) =
        Some (take i ?D @ take (?n - (i + 1)) (drop (i + 1) ?D) @ CD)" "length CD = length ?D - (?n - 1)"
      by (rule mem_close_gap)
    have ne: "int (i * kl) + int kl \<noteq> int (?n * kl)"
      using False r(1) by (metis mult_Suc mult_cancel2 of_nat_add of_nat_eq_iff add.commute less_numeral_extra(3))
    show ?thesis
    proof (rule that)
      show "remove_key_data_at sa (int (i * kl)) (int i) =
          Some (sa\<lparr>sa_key_space := take (i * kl) ?K @ take (?n * kl - (i * kl + kl)) (drop (i * kl + kl) ?K) @ CK,
                   sa_data := take i ?D @ take (?n - (i + 1)) (drop (i + 1) ?D) @ CD,
                   sa_key_count := int ?n - 1, sa_used_key_space := int (?n * kl) - int kl\<rparr>)"
        using ck(1) cd(1) ne r(2,5,6)
        by (simp add: remove_key_data_at_def move_keys_left_by_the_key_length_from_def
              move_data_left_by_one_from_def)
      show "take (i * kl) ?K @ take (?n * kl - (i * kl + kl)) (drop (i * kl + kl) ?K) @ CK =
          concat (map fst ?ys) @ CK"
        using s1(1) s2(2) by (simp add: add.commute)
      show "take i ?D @ take (?n - (i + 1)) (drop (i + 1) ?D) @ CD = map snd ?ys @ CD"
        using s1(3) s2(4) by simp
    qed (use ck(2) cd(2) i nkl n r(3,4,7) in auto)
  qed
  have "sa_rep kss kl (sa\<lparr>sa_key_space := K', sa_data := D', sa_key_count := int ?n - 1,
          sa_used_key_space := int (?n * kl) - int kl\<rparr>) ?ys"
  proof (rule sa_rep_update [OF rep _ _ K' D'])
    have "sorted_keys (take i xs @ xs ! i # drop (Suc i) xs)"
      using r(11) i by (simp flip: id_take_nth_drop)
    then show "sorted_keys ?ys"
      by (auto simp: sorted_wrt_append)
    show "length (fst e) = kl" if "e \<in> set ?ys" for e
      using that r(8) [of e] by (auto dest: in_set_takeD in_set_dropD)
  qed (use i nkl in \<open>auto simp: of_nat_diff algebra_simps\<close>)
  with eq show ?thesis by blast
qed


section \<open>The public operations refine sorted association lists\<close>

lemma sa_is_full_iff [sa_rules]:
  "sa_rep kss kl sa xs \<Longrightarrow> sa_is_full sa \<longleftrightarrow> kss < length xs * kl + kl"
  by (simp add: sa_is_full_def sa_key_space_size_def sa_repD(2,3,6) not_le flip: of_nat_mult of_nat_add)

lemma sa_is_empty_iff [sa_rules]: "sa_rep kss kl sa xs \<Longrightarrow> sa_is_empty sa \<longleftrightarrow> xs = []"
  by (auto simp: sa_is_empty_def sa_rep_def)

lemma sa_init_rep:
  assumes "0 < kl"
  shows "\<exists>sa. sa_init (sa_new kss) (int kl) = Some sa \<and> sa_rep kss kl sa []"
  using assms by (auto simp: sa_init_def sa_new_def sa_rep_def sa_key_space_size_def zdiv_int)

lemma ord_put_absent:
  fixes xs :: "('k::linorder \<times> 'v) list"
  assumes "sorted_keys xs" and "k \<notin> fst ` set xs"
  shows "ord_put k v xs = take (rank_le k xs) xs @ (k, v) # drop (rank_le k xs) xs"
  using filter_sorted_take [OF assms(1), of k] rank_le_absent [OF assms(2)] by (simp add: ord_put_def)

lemma rank_le_present:
  fixes xs :: "('k::linorder \<times> 'v) list"
  assumes "sorted_keys xs" and "k \<in> fst ` set xs"
  shows "rank_le k xs = Suc (rank_lt k xs)"
  using assms
proof (induction xs)
  case (Cons x xs)
  have none: "filter (\<lambda>e. fst e \<le> k) xs = []" "filter (\<lambda>e. fst e < k) xs = []" if "k \<le> fst x"
    using that Cons.prems by (auto simp: filter_empty_conv)
  then show ?case
    using Cons by (cases "k \<le> fst x") (auto simp: rank_le_def rank_lt_def)
qed simp

lemma rank_lt_key:
  fixes xs :: "('k::linorder \<times> 'v) list"
  assumes "sorted_keys xs" and "k \<in> fst ` set xs"
  shows "rank_lt k xs < length xs" "fst (xs ! rank_lt k xs) = k"
  using rank_le_present [OF assms] rank_le_last [OF assms(1), of k] rank_le_length [of k xs] assms(2)
  by simp_all

lemma ord_put_present:
  fixes xs :: "('k::linorder \<times> 'v) list"
  assumes "sorted_keys xs" and "k \<in> fst ` set xs"
  shows "ord_put k v xs = xs[rank_lt k xs := (k, v)]"
  using filter_sorted_take [OF assms(1), of k] rank_le_present [OF assms] rank_lt_key [OF assms]
  by (simp add: ord_put_def upd_conv_take_nth_drop)

lemma ord_del_present:
  fixes xs :: "('k::linorder \<times> 'v) list"
  assumes "sorted_keys xs" and "k \<in> fst ` set xs"
  shows "ord_del k xs = take (rank_lt k xs) xs @ drop (Suc (rank_lt k xs)) xs"
proof -
  have "ord_del k xs = filter (\<lambda>e. fst e < k) xs @ filter (\<lambda>e. k < fst e) xs"
    using assms(1)
  proof (induction xs)
    case (Cons x xs)
    then have "filter (\<lambda>e. fst e < k) xs = []" if "k \<le> fst x"
      using that by (auto simp: filter_empty_conv)
    then show ?case using Cons by (auto simp: ord_del_def not_less)
  qed (simp add: ord_del_def)
  then show ?thesis
    using filter_sorted_take [OF assms(1), of k] rank_le_present [OF assms] by simp
qed

lemma ord_del_absent: "k \<notin> fst ` set xs \<Longrightarrow> ord_del k xs = xs"
  by (force simp: ord_del_def filter_id_conv)

lemma map_of_rank_lt:
  fixes xs :: "('k::linorder \<times> 'v) list"
  assumes "sorted_keys xs" and "k \<in> fst ` set xs"
  shows "map_of xs k = Some (snd (xs ! rank_lt k xs))"
  using rank_lt_key [OF assms] sorted_keys_distinct [OF assms(1)]
  by (metis map_of_eq_Some_iff nth_mem prod.collapse)

lemma sa_put_spec [sa_rules]:
  assumes rep: "sa_rep kss kl sa xs" and key: "length key = kl"
    and room: "key \<in> fst ` set xs \<or> \<not> sa_is_full sa"
  shows "\<exists>sa'. sa_put sa key v = Some sa' \<and> sa_rep kss kl sa' (ord_put key v xs)"
proof (cases "key \<in> fst ` set xs")
  case True
  note s = sa_repD(11) [OF rep]
  have "int (rank_le key xs) - 1 = int (rank_lt key xs)"
    by (simp add: rank_le_present [OF s True])
  then have "sa_put sa key v = set_data sa (int (rank_lt key xs)) v"
    using True by (simp add: sa_put_def search_forward_spec [OF rep key])
  then show ?thesis
    using set_data_spec [OF rep rank_lt_key(1) [OF s True], of v]
    by (simp add: ord_put_present [OF s True] rank_lt_key(2) [OF s True])
next
  case False
  note s = sa_repD(11) [OF rep]
  have eq: "sa_put sa key v = insert_key_data_at sa (int (rank_le key xs * kl)) (int (rank_le key xs)) key v"
    using False by (simp add: sa_put_def search_forward_spec [OF rep key] sa_repD(2) [OF rep] algebra_simps)
  have "length xs * kl + kl \<le> kss"
    using False room sa_is_full_iff [OF rep] by auto
  then show ?thesis
    unfolding eq ord_put_absent [OF s False]
    using insert_key_data_at_spec [OF rep key rank_le_length, of key v] ord_put_sorted [OF s, of key v]
    by (simp add: ord_put_absent [OF s False])
qed

lemma sa_get_spec [sa_rules]:
  assumes rep: "sa_rep kss kl sa xs" and key: "length key = kl"
  shows "sa_get sa key = Some (case map_of xs key of None \<Rightarrow> (NULL, 0) | Some v \<Rightarrow> (v, int (rank_le key xs)))"
proof (cases "key \<in> fst ` set xs")
  case True
  note s = sa_repD(11) [OF rep]
  have "int (rank_le key xs) - 1 = int (rank_lt key xs)"
    by (simp add: rank_le_present [OF s True])
  then show ?thesis
    using True sa_rep_data_at [OF rep rank_lt_key(1) [OF s True]] map_of_rank_lt [OF s True]
    by (simp add: sa_get_def search_forward_spec [OF rep key])
next
  case False
  then have "map_of xs key = None" by (simp add: map_of_eq_None_iff)
  with False show ?thesis by (simp add: sa_get_def search_forward_spec [OF rep key])
qed

lemma sa_get_by_order_spec [sa_rules]:
  assumes rep: "sa_rep kss kl sa xs" and ord: "1 \<le> n" "n \<le> length xs"
  shows "sa_get_by_order sa (int n) = Some (xs ! (n - 1))"
proof -
  obtain i where n: "n = Suc i" using ord(1) by (cases n) auto
  with ord(2) have i: "i < length xs" by simp
  then show ?thesis
    using sa_rep_key_at [OF rep i] sa_rep_data_at [OF rep i]
    by (simp add: sa_get_by_order_def n sa_repD(2) [OF rep])
qed

lemma find_last_le_key_spec [sa_rules]:
  assumes rep: "sa_rep kss kl sa xs" and key: "length key = kl"
  shows "find_last_le_key sa key =
           Some (if rank_le key xs = 0 then NULL else snd (xs ! (rank_le key xs - 1)), int (rank_le key xs) - 1)"
proof (cases "rank_le key xs")
  case (Suc m)
  then have "m < length xs" using rank_le_length [of key xs] by simp
  from sa_rep_data_at [OF rep this] show ?thesis
    using Suc by (simp add: find_last_le_key_def search_forward_spec [OF rep key])
qed (simp add: find_last_le_key_def search_forward_spec [OF rep key])

lemma sa_del_spec [sa_rules]:
  assumes rep: "sa_rep kss kl sa xs" and key: "length key = kl"
  shows "\<exists>sa'. sa_del sa key = Some (case map_of xs key of None \<Rightarrow> NULL | Some v \<Rightarrow> v, sa') \<and>
               sa_rep kss kl sa' (ord_del key xs)"
proof (cases "key \<in> fst ` set xs")
  case True
  note s = sa_repD(11) [OF rep]
  have r: "int (rank_le key xs) - 1 = int (rank_lt key xs)"
    by (simp add: rank_le_present [OF s True])
  obtain sa' where "remove_key_data_at sa (int (rank_lt key xs * kl)) (int (rank_lt key xs)) = Some sa'"
      and "sa_rep kss kl sa' (ord_del key xs)"
    using remove_key_data_at_spec [OF rep rank_lt_key(1) [OF s True]] ord_del_present [OF s True] by auto
  then show ?thesis
    using True r sa_rep_data_at [OF rep rank_lt_key(1) [OF s True]] map_of_rank_lt [OF s True]
    by (simp add: sa_del_def search_forward_spec [OF rep key])
next
  case False
  then have "map_of xs key = None" by (simp add: map_of_eq_None_iff)
  with False rep show ?thesis
    by (simp add: sa_del_def search_forward_spec [OF rep key] ord_del_absent)
qed


lemma remove_max_key_spec [sa_rules]:
  assumes rep: "sa_rep kss kl sa xs" and ne: "xs \<noteq> []"
  shows "\<exists>sa'. remove_max_key sa = Some (Some (last xs), sa') \<and> sa_rep kss kl sa' (butlast xs)"
proof -
  note r = sa_repD [OF rep]
  obtain m where m: "length xs = Suc m" using ne by (cases xs) auto
  then have i: "m < length xs" by simp
  have pos: "sa_used_key_space sa - sa_key_length sa = int (m * kl)" "sa_key_count sa - 1 = int m"
    using m r(2,5,6) by (simp_all add: algebra_simps)
  have last: "xs ! m = last xs" using m ne by (simp add: last_conv_nth)
  have bl: "take m xs @ drop (Suc m) xs = butlast xs" using m by (simp add: butlast_conv_take)
  obtain sa' where "remove_key_data_at sa (int (m * kl)) (int m) = Some sa'" "sa_rep kss kl sa' (butlast xs)"
    using remove_key_data_at_spec [OF rep i] bl by auto
  moreover have "get_key sa (int (m * kl)) = Some (fst (last xs))" "get_data sa (int m) = Some (snd (last xs))"
    using sa_rep_key_at [OF rep i] sa_rep_data_at [OF rep i] last by auto
  moreover have "0 < sa_key_count sa" using m r(5) by simp
  ultimately show ?thesis
    using pos by (simp add: remove_max_key_def Let_def)
qed

lemma sa_init_with_spec:
  assumes rep: "sa_rep kss kl new []" and ys: "sorted_keys ys" "\<And>e. e \<in> set ys \<Longrightarrow> length (fst e) = kl"
    and fits: "length ys * kl \<le> kss"
  shows "\<exists>sa. sa_init_with new (int kl) (int (length ys)) (int (length ys * kl))
                 (concat (map fst ys)) (map snd ys) = Some sa \<and> sa_rep kss kl sa ys"
proof -
  note r = sa_repD [OF rep]
  let ?kb = "concat (map fst ys)" and ?db = "map snd ys"
  let ?K = "?kb @ drop (length ys * kl) (sa_key_space new)" and ?D = "?db @ drop (length ys) (sa_data new)"
  have lenk: "length ?kb = length ys * kl"
    using ys(2) length_concat_fixed [of "map fst ys" kl] by auto
  have lend: "length ys \<le> kss"
  proof -
    have "length ys \<le> length ys * kl" using r(1) by simp
    with fits show ?thesis by linarith
  qed
  have "mem_read ?kb 0 (int (length ys * kl)) = Some ?kb" "mem_read ?db 0 (int (length ys)) = Some ?db"
    using lenk mem_read_nat [of 0 "length ys * kl" ?kb] mem_read_nat [of 0 "length ys" ?db] by simp_all
  moreover have "mem_write (sa_key_space new) 0 ?kb = Some ?K" "mem_write (sa_data new) 0 ?db = Some ?D"
    using lenk lend fits r(3,4) mem_write_nat [of 0 ?kb "sa_key_space new"] mem_write_nat [of 0 ?db "sa_data new"]
    by simp_all
  moreover have "sa_key_space_size new div int kl = sa_max_key_count new"
    using rep by (simp add: sa_rep_def sa_key_space_size_def zdiv_int)
  ultimately have "sa_init_with new (int kl) (int (length ys)) (int (length ys * kl)) ?kb ?db =
      Some (new\<lparr>sa_key_space := ?K, sa_data := ?D, sa_key_count := int (length ys),
                sa_used_key_space := int (length ys * kl)\<rparr>)"
    using r(1,2) by (simp add: sa_init_with_def)
  moreover have "sa_rep kss kl (new\<lparr>sa_key_space := ?K, sa_data := ?D, sa_key_count := int (length ys),
                sa_used_key_space := int (length ys * kl)\<rparr>) ys"
    by (rule sa_rep_update [OF rep ys]) (use lenk lend fits r(3,4) in auto)
  ultimately show ?thesis by blast
qed

lemma sa_rep_shrink:
  assumes rep: "sa_rep kss kl sa xs" and m: "m \<le> length xs"
  shows "sa_rep kss kl (sa\<lparr>sa_key_count := int m, sa_used_key_space := int (m * kl)\<rparr>) (take m xs)"
proof -
  have "sa_rep kss kl (sa\<lparr>sa_key_space := sa_key_space sa, sa_data := sa_data sa,
          sa_key_count := int m, sa_used_key_space := int (m * kl)\<rparr>) (take m xs)"
  proof (rule sa_rep_update [OF rep])
    show "sorted_keys (take m xs)" using sa_repD(11) [OF rep] by (simp add: sorted_wrt_take flip: take_map)
    show "length (fst e) = kl" if "e \<in> set (take m xs)" for e
      using that sa_repD(8) [OF rep] by (blast dest: in_set_takeD)
    show "sa_key_space sa = concat (map fst (take m xs)) @ drop (m * kl) (sa_key_space sa)"
      "sa_data sa = map snd (take m xs) @ drop m (sa_data sa)"
      using sa_rep_slices(1,3) [OF rep m] by (metis append_take_drop_id)+
  qed (use m sa_repD(3,4) [OF rep] in auto)
  then show ?thesis by simp
qed

lemma sa_split_spec [sa_rules]:
  assumes rep: "sa_rep kss kl sa xs" and rep': "sa_rep kss kl new []"
  defines "m \<equiv> length xs - length xs div 2"
  shows "\<exists>sa' right. sa_split sa new = Some (sa', right) \<and>
           sa_rep kss kl sa' (take m xs) \<and> sa_rep kss kl right (drop m xs)"
proof -
  note r = sa_repD [OF rep]
  define h where "h = length xs div 2"
  have m: "m \<le> length xs" "length xs - m = h" and n: "length xs = m + h"
    by (auto simp: m_def h_def)
  have mkl: "length xs * kl - m * kl = h * kl" using m(2) by (simp flip: diff_mult_distrib)
  have fits: "m * kl + h * kl \<le> kss" using r(7) n by (simp flip: add_mult_distrib)
  note sl = sa_rep_slices [OF rep m(1)]
  have cnt: "sa_key_count sa div 2 = int h" "sa_key_count sa - int h = int m"
    using r(5) by (auto simp: zdiv_int h_def m_def)
  have used: "int h * sa_key_length sa = int (h * kl)" "sa_used_key_space sa - int (h * kl) = int (m * kl)"
    using r(2,6) n by (simp_all add: algebra_simps)
  have "mem_read (sa_key_space sa) (int (m * kl)) (int (h * kl)) = Some (concat (map fst (drop m xs)))"
    using fits r(3) sl(2) mkl by (subst mem_read_nat) auto
  moreover have "mem_read (sa_data sa) (int m) (int h) = Some (map snd (drop m xs))"
    using sa_rep_length_le [OF rep] n r(4) sl(4) m(2) by (subst mem_read_nat) auto
  moreover obtain right where "sa_init_with new (int kl) (int h) (int (h * kl))
        (concat (map fst (drop m xs))) (map snd (drop m xs)) = Some right" "sa_rep kss kl right (drop m xs)"
  proof -
    have len: "length (drop m xs) = h" using m(2) by simp
    have "sorted_keys (drop m xs)" using r(11) by (simp add: sorted_wrt_drop flip: drop_map)
    moreover have "\<And>e. e \<in> set (drop m xs) \<Longrightarrow> length (fst e) = kl"
      using r(8) by (blast dest: in_set_dropD)
    moreover have "length (drop m xs) * kl \<le> kss" using fits len by simp
    ultimately show ?thesis
      using sa_init_with_spec [OF rep', of "drop m xs"] len that by auto
  qed
  ultimately show ?thesis
    using cnt used r(2) sa_rep_shrink [OF rep m(1)] by (simp add: sa_split_def Let_def)
qed


section \<open>Iteration and the backward search\<close>

lemma nth_rank_lt:
  fixes xs :: "('k::linorder \<times> 'v) list"
  assumes "sorted_keys xs" and "j < length xs"
  shows "fst (xs ! j) < k \<longleftrightarrow> j < rank_lt k xs"
proof -
  have "xs ! j \<in> set (take (rank_lt k xs) xs)" if "j < rank_lt k xs"
    using that assms(2) by (metis in_set_conv_nth length_take min_less_iff_conj nth_take)
  moreover have "xs ! j \<in> set (drop (rank_lt k xs) xs)" if "\<not> j < rank_lt k xs"
    using that assms(2) nth_mem [of "j - rank_lt k xs" "drop (rank_lt k xs) xs"] by simp
  ultimately show ?thesis
    using filter_sorted_take(1,3) [OF assms(1), of k, symmetric] by fastforce
qed

lemma search_backward_loop_spec:
  assumes rep: "sa_rep kss kl sa xs" and key: "length key = kl"
    and i: "i \<le> length xs" "rank_lt key xs \<le> i"
  shows "search_backward_loop sa key (int (i * kl) - int kl) (int (i * kl)) (int i) pc =
           Some (int (rank_lt key xs * kl), int (rank_lt key xs),
                 if rank_lt key xs = i then pc else memcmp (fst (xs ! rank_lt key xs)) key kl)"
  using i
proof (induction i arbitrary: pc)
  case 0
  then show ?case
    using sa_repD(1) [OF rep] by (subst search_backward_loop.simps) simp
next
  case (Suc i)
  note r = sa_repD [OF rep]
  have i: "i < length xs" using Suc.prems by simp
  have len: "length (fst (xs ! i)) = kl" using r(8) i by simp
  have pos: "int (Suc i * kl) - int kl = int (i * kl)" by simp
  have cmp: "mem_read (sa_key_space sa) (int (i * kl)) (sa_key_length sa)
        \<bind> (\<lambda>k_bytes. sa_compare_keys sa k_bytes key) = Some (memcmp (fst (xs ! i)) key kl)"
    using sa_rep_key_at [OF rep i] sa_compare_keys_rep [OF rep len key] by (simp add: get_key_def)
  show ?case
  proof (cases "i < rank_lt key xs")
    case True
    then have "rank_lt key xs = Suc i" using Suc.prems by simp
    then show ?thesis
      using cmp r(1,2) memcmp_neg_iff [OF len key] nth_rank_lt [OF r(11) i, of key]
      unfolding pos by (subst search_backward_loop.simps) simp
  next
    case False
    have "search_backward_loop sa key (int (i * kl)) (int (Suc i * kl)) (int (Suc i)) pc =
        search_backward_loop sa key (int (i * kl) - int kl) (int (i * kl)) (int i) (memcmp (fst (xs ! i)) key kl)"
      using cmp r(1,2) memcmp_neg_iff [OF len key] nth_rank_lt [OF r(11) i, of key] False
      by (subst search_backward_loop.simps) simp
    then show ?thesis
      using Suc.IH [of "memcmp (fst (xs ! i)) key kl"] i False unfolding pos by auto
  qed
qed

lemma search_backward_spec [sa_rules]:
  assumes rep: "sa_rep kss kl sa xs" and key: "length key = kl"
  shows "search_backward sa key =
           Some (int (rank_lt key xs * kl), int (rank_lt key xs), key \<in> fst ` set xs)"
proof -
  note r = sa_repD [OF rep]
  let ?m = "rank_lt key xs"
  have found: "(if ?m = length xs then -1 else memcmp (fst (xs ! ?m)) key kl) = 0 \<longleftrightarrow> key \<in> fst ` set xs"
  proof (cases "?m = length xs")
    case True
    then show ?thesis using rank_lt_key(1) [OF r(11), of key] by auto
  next
    case False
    then have m: "?m < length xs" using rank_lt_length [of key xs] by simp
    then have "memcmp (fst (xs ! ?m)) key kl = 0 \<longleftrightarrow> fst (xs ! ?m) = key"
      using r(8) key by (intro memcmp_zero_iff) auto
    moreover have "fst (xs ! ?m) \<in> fst ` set xs" using m by simp
    ultimately show ?thesis using False rank_lt_key(2) [OF r(11), of key] by metis
  qed
  show ?thesis
    using search_backward_loop_spec [OF rep key order_refl rank_lt_length, of "-1"] found r(2,5,6)
    by (simp add: search_backward_def split: if_splits)
qed

text \<open>An iterator at the entry with (0-based) index \<open>i\<close>; \<open>-1\<close> and the length are the ends.\<close>

definition sa_at :: "nat \<Rightarrow> int \<Rightarrow> sa_iterator" where
  "sa_at kl i = \<lparr>it_key_pos = i * int kl, it_data_pos = i\<rparr>"

lemma sa_iter_forward_key_spec [sa_rules]:
  assumes rep: "sa_rep kss kl sa xs" and key: "length key = kl"
  shows "sa_iter_forward_key sa key = Some (sa_at kl (int (rank_lt key xs)))"
  using rank_le_present [OF sa_repD(11) [OF rep], of key] rank_le_absent [of key xs]
  by (cases "key \<in> fst ` set xs")
    (simp_all add: sa_iter_forward_key_def search_forward_spec [OF rep key] sa_at_def
      sa_repD(2) [OF rep] algebra_simps)

lemma sa_iter_backward_key_spec [sa_rules]:
  assumes rep: "sa_rep kss kl sa xs" and key: "length key = kl"
  shows "sa_iter_backward_key sa key = Some (sa_at kl (int (rank_le key xs) - 1))"
  using rank_le_present [OF sa_repD(11) [OF rep], of key] rank_le_absent [of key xs]
  by (cases "key \<in> fst ` set xs")
    (simp_all add: sa_iter_backward_key_def search_backward_spec [OF rep key] sa_at_def
      sa_repD(2) [OF rep] algebra_simps)

lemma sa_iter_order_spec [sa_rules]:
  assumes rep: "sa_rep kss kl sa xs"
  shows "sa_iter_forward_order sa n = sa_at kl (n - 1)" "sa_iter_backward_order sa n = sa_at kl (n - 1)"
    and "sa_iter_forward sa = sa_at kl 0" "sa_iter_backward sa = sa_at kl (int (length xs) - 1)"
  using sa_repD [OF rep]
  by (simp_all add: sa_iter_forward_order_def sa_iter_backward_order_def sa_iter_forward_def
        sa_iter_backward_def sa_at_def algebra_simps)

lemma iter_next_spec [sa_rules]:
  assumes rep: "sa_rep kss kl sa xs"
  shows "i < length xs \<Longrightarrow> iter_next sa (sa_at kl (int i)) = Some (Some (xs ! i), sa_at kl (int i + 1))"
    and "length xs \<le> i \<Longrightarrow> iter_next sa (sa_at kl (int i)) = Some (None, sa_at kl (int i))"
  using sa_rep_key_at [OF rep, of i] sa_rep_data_at [OF rep, of i] sa_repD(1,2,6) [OF rep]
  by (auto simp: iter_next_def sa_at_def next_key_def algebra_simps)

lemma iter_prev_spec [sa_rules]:
  assumes rep: "sa_rep kss kl sa xs"
  shows "i < length xs \<Longrightarrow> iter_prev sa (sa_at kl (int i)) = Some (Some (xs ! i), sa_at kl (int i - 1))"
    and "iter_prev sa (sa_at kl (- 1)) = Some (None, sa_at kl (- 1))"
  using sa_rep_key_at [OF rep, of i] sa_rep_data_at [OF rep, of i] sa_repD(1,2,6) [OF rep]
  by (auto simp: iter_prev_def sa_at_def prev_key_def algebra_simps)

lemma sa_min_key_spec [sa_rules]:
  assumes rep: "sa_rep kss kl sa xs"
  shows "sa_min_key sa = (if xs = [] then None else Some (fst (hd xs)))"
  using sa_rep_key_at [OF rep, of 0] sa_repD(1,6) [OF rep]
  by (auto simp: sa_min_key_def hd_conv_nth)

section \<open>The entries as a function of the object\<close>

definition sa_entries :: "sorted_array \<Rightarrow> entries" where
  "sa_entries sa =
     map (\<lambda>i. (take (nat (sa_key_length sa)) (drop (i * nat (sa_key_length sa)) (sa_key_space sa)), sa_data sa ! i))
       [0..<nat (sa_key_count sa)]"

lemma sa_rep_entries:
  assumes rep: "sa_rep kss kl sa xs"
  shows "sa_entries sa = xs"
proof (rule nth_equalityI)
  note r = sa_repD [OF rep]
  show "length (sa_entries sa) = length xs" by (simp add: sa_entries_def r(5))
  fix i assume "i < length (sa_entries sa)"
  then have i: "i < length xs" by (simp add: sa_entries_def r(5))
  then show "sa_entries sa ! i = xs ! i"
    using sa_rep_key_at [OF rep i] sa_rep_data_at [OF rep i] r(2,5)
    by (auto simp: sa_entries_def get_key_def get_data_def mem_read_Some_iff mem_get_def nat_mult_distrib
          prod_eq_iff split: if_splits)
qed

lemma sa_rep_unique: "sa_rep kss kl sa xs \<Longrightarrow> sa_rep kss kl sa ys \<Longrightarrow> xs = ys"
  using sa_rep_entries by blast

end
