(* ===== verification/Ordered_Table.thy ===== *)
theory Ordered_Table
  imports Nldb_Prelude
begin

text \<open>
  The contract shared by the two ordered containers of the program, the sorted array of a node
  (\<^verbatim>\<open>nldb_sorted_array.h\<close>) and the array tree of a table (\<^verbatim>\<open>nldb_array_tree.h\<close>): both map keys of one
  length to pointers, with \<^verbatim>\<open>put\<close>, \<^verbatim>\<open>get\<close> and \<^verbatim>\<open>del\<close>. The locale states what each operation promises
  relative to a strictly sorted association list; its lemmas are what a client may conclude
  about any sequence of operations. Both containers are interpretations.
\<close>

section \<open>Sequences of updates\<close>

datatype 'v table_op = Put key 'v | Del key

fun apply_op :: "'v table_op \<Rightarrow> (key \<times> 'v) list \<Rightarrow> (key \<times> 'v) list" where
  "apply_op (Put k v) xs = ord_put k v xs"
| "apply_op (Del k) xs = ord_del k xs"

text \<open>A client keeps to the key length, puts only while there is room, and deletes only stored keys.\<close>

fun op_ok :: "nat \<Rightarrow> nat \<Rightarrow> 'v table_op \<Rightarrow> (key \<times> 'v) list \<Rightarrow> bool" where
  "op_ok kl cap (Put k v) xs \<longleftrightarrow> length k = kl \<and> length xs < cap"
| "op_ok kl cap (Del k) xs \<longleftrightarrow> length k = kl \<and> map_of xs k \<noteq> None"

fun ops_ok :: "nat \<Rightarrow> nat \<Rightarrow> 'v table_op list \<Rightarrow> (key \<times> 'v) list \<Rightarrow> bool" where
  "ops_ok kl cap [] xs \<longleftrightarrow> True"
| "ops_ok kl cap (p # ps) xs \<longleftrightarrow> op_ok kl cap p xs \<and> ops_ok kl cap ps (apply_op p xs)"

text \<open>The content of the map after a sequence of updates: the last update of a key decides.\<close>

fun history :: "'v table_op list \<Rightarrow> (key \<rightharpoonup> 'v) \<Rightarrow> (key \<rightharpoonup> 'v)" where
  "history [] m = m"
| "history (Put k v # ps) m = history ps (m(k \<mapsto> v))"
| "history (Del k # ps) m = history ps (m(k := None))"

lemma map_of_fold_apply_op: "map_of (fold apply_op ps xs) = history ps (map_of xs)"
proof (induction ps arbitrary: xs)
  case (Cons p ps)
  then show ?case by (cases p) (simp_all add: map_of_ord_put map_of_ord_del fun_upd_def)
qed simp

fun run_ops :: "('t \<Rightarrow> key \<Rightarrow> ptr \<Rightarrow> 't option) \<Rightarrow> ('t \<Rightarrow> key \<Rightarrow> (ptr \<times> 't) option) \<Rightarrow>
    ptr table_op list \<Rightarrow> 't \<Rightarrow> 't option" where
  "run_ops put del [] t = Some t"
| "run_ops put del (Put k v # ps) t = put t k v \<bind> run_ops put del ps"
| "run_ops put del (Del k # ps) t = del t k \<bind> (\<lambda>(_, t'). run_ops put del ps t')"

section \<open>The contract\<close>

locale ordered_table =
  fixes kl cap :: nat
    and rep :: "'t \<Rightarrow> entries \<Rightarrow> bool"
    and put :: "'t \<Rightarrow> key \<Rightarrow> ptr \<Rightarrow> 't option"
    and lookup :: "'t \<Rightarrow> key \<Rightarrow> ptr option"
    and del :: "'t \<Rightarrow> key \<Rightarrow> (ptr \<times> 't) option"
  assumes rep_sorted: "rep t xs \<Longrightarrow> sorted_keys xs"
    and put_law: "rep t xs \<Longrightarrow> length k = kl \<Longrightarrow> length xs < cap \<Longrightarrow>
          \<exists>t'. put t k v = Some t' \<and> rep t' (ord_put k v xs)"
    and lookup_law: "rep t xs \<Longrightarrow> length k = kl \<Longrightarrow>
          lookup t k = Some (case map_of xs k of None \<Rightarrow> NULL | Some v \<Rightarrow> v)"
    and del_law: "rep t xs \<Longrightarrow> length k = kl \<Longrightarrow> map_of xs k = Some v \<Longrightarrow>
          \<exists>t'. del t k = Some (v, t') \<and> rep t' (ord_del k xs)"
begin

lemma run_ops_rep:
  "rep t xs \<Longrightarrow> ops_ok kl cap ps xs \<Longrightarrow>
     \<exists>t'. run_ops put del ps t = Some t' \<and> rep t' (fold apply_op ps xs)"
proof (induction ps arbitrary: t xs)
  case (Cons p ps)
  show ?case
  proof (cases p)
    case (Put k v)
    with Cons.prems obtain t' where "put t k v = Some t'" "rep t' (ord_put k v xs)"
      using put_law by fastforce
    with Cons.IH Cons.prems(2) Put show ?thesis by simp
  next
    case (Del k)
    with Cons.prems obtain v t' where "del t k = Some (v, t')" "rep t' (ord_del k xs)"
      using del_law by fastforce
    with Cons.IH Cons.prems(2) Del show ?thesis by simp
  qed
qed simp

lemma lookup_after_run:
  assumes "rep t xs" and "ops_ok kl cap ps xs"
  obtains t' where "run_ops put del ps t = Some t'"
    and "\<And>k. length k = kl \<Longrightarrow>
           lookup t' k = Some (case history ps (map_of xs) k of None \<Rightarrow> NULL | Some v \<Rightarrow> v)"
  using run_ops_rep [OF assms] lookup_law map_of_fold_apply_op by metis

lemma lookup_after_put:
  assumes "rep t xs" "length k = kl" "length j = kl" "length xs < cap" "put t k v = Some t'"
  shows "lookup t' j = (if j = k then Some v else lookup t j)"
proof -
  have "rep t' (ord_put k v xs)" using put_law [of t xs k v] assms by auto
  with assms show ?thesis by (simp add: lookup_law map_of_ord_put)
qed

end

end
