(* ===== verification/Sorted_Array_Properties.thy ===== *)
theory Sorted_Array_Properties
  imports Sorted_Array_Proofs Ordered_Table
begin

text \<open>
  What the sorted array of \<^verbatim>\<open>nldb_sorted_array.h\<close> promises: it implements the ordered table
  contract with room for \<^verbatim>\<open>key_space_size / key_length\<close> keys, splits at the middle, and its
  iterators enumerate the keys in order from any position.
\<close>

lemma ord_put_room:
  "sa_rep kss kl sa xs \<Longrightarrow> length xs < kss div kl \<Longrightarrow> \<not> sa_is_full sa"
proof -
  assume rep: "sa_rep kss kl sa xs" and "length xs < kss div kl"
  then have "Suc (length xs) \<le> kss div kl" by simp
  then have "Suc (length xs) * kl \<le> kss"
    using sa_repD(1) [OF rep] by (simp add: less_eq_div_iff_mult_less_eq)
  then show "\<not> sa_is_full sa" by (simp add: sa_is_full_iff [OF rep] not_less algebra_simps)
qed

interpretation sa: ordered_table kl "kss div kl" "sa_rep kss kl" sa_put
    "\<lambda>sa k. map_option fst (sa_get sa k)" sa_del
  for kl kss
proof unfold_locales
  fix t xs and k :: key and v
  assume rep: "sa_rep kss kl t xs"
  show "sorted_keys xs" by (rule sa_repD(11) [OF rep])
  assume len: "length k = kl"
  show "map_option fst (sa_get t k) = Some (case map_of xs k of None \<Rightarrow> NULL | Some v \<Rightarrow> v)"
    by (simp add: sa_get_spec [OF rep len] split: option.split)
  show "\<exists>t'. sa_put t k v = Some t' \<and> sa_rep kss kl t' (ord_put k v xs)" if "length xs < kss div kl"
    using sa_put_spec [OF rep len] ord_put_room [OF rep that] by blast
  show "\<exists>t'. sa_del t k = Some (v, t') \<and> sa_rep kss kl t' (ord_del k xs)" if "map_of xs k = Some v"
    using sa_del_spec [OF rep len] that by simp
qed


text \<open>The loop a caller writes around an iterator: step until \<^verbatim>\<open>*key == NULL\<close>.\<close>

partial_function (option) sa_scan_forward :: "sorted_array \<Rightarrow> sa_iterator \<Rightarrow> entries option" where
  "sa_scan_forward sa iter =
     do { (entry, iter') \<leftarrow> iter_next sa iter;
          case entry of None \<Rightarrow> Some []
          | Some e \<Rightarrow> do { es \<leftarrow> sa_scan_forward sa iter'; Some (e # es) } }"

partial_function (option) sa_scan_backward :: "sorted_array \<Rightarrow> sa_iterator \<Rightarrow> entries option" where
  "sa_scan_backward sa iter =
     do { (entry, iter') \<leftarrow> iter_prev sa iter;
          case entry of None \<Rightarrow> Some []
          | Some e \<Rightarrow> do { es \<leftarrow> sa_scan_backward sa iter'; Some (e # es) } }"

lemma sa_scan_forward_drop:
  assumes rep: "sa_rep kss kl sa xs" and "i \<le> length xs"
  shows "sa_scan_forward sa (sa_at kl (int i)) = Some (drop i xs)"
  using assms(2)
proof (induction rule: inc_induct)
  case base
  then show ?case
    by (subst sa_scan_forward.simps) (simp add: iter_next_spec(2) [OF rep])
next
  case (step i)
  then show ?case
    by (subst sa_scan_forward.simps)
      (simp add: iter_next_spec(1) [OF rep] Cons_nth_drop_Suc algebra_simps)
qed

lemma sa_scan_backward_take:
  assumes rep: "sa_rep kss kl sa xs" and "i \<le> length xs"
  shows "sa_scan_backward sa (sa_at kl (int i - 1)) = Some (rev (take i xs))"
  using assms(2)
proof (induction i)
  case 0
  then show ?case
    by (subst sa_scan_backward.simps) (simp add: iter_prev_spec(2) [OF rep])
next
  case (Suc i)
  then show ?case
    by (subst sa_scan_backward.simps) (simp add: iter_prev_spec(1) [OF rep] take_Suc_conv_app_nth)
qed

section \<open>A sample object\<close>

definition sample_array :: sorted_array where
  "sample_array =
     \<lparr>sa_key_space = [1, 0, 1, 5, 2, 0, 9, 9], sa_data = [11, 12, 13, 99, 99, 99, 99, 99],
      sa_max_key_count = 4, sa_key_count = 3, sa_used_key_space = 6, sa_key_length = 2\<rparr>"

abbreviation sample_entries :: entries where
  "sample_entries \<equiv> [([1, 0], 11), ([1, 5], 12), ([2, 0], 13)]"

lemma sample_rep: "sa_rep 8 2 sample_array sample_entries"
  by (simp add: sa_rep_def sample_array_def)

section \<open>Properties\<close>

text \<open>
  C21: while there is room or the key is stored, \<^verbatim>\<open>put\<close> returns an array that holds the old pairs with
  the new one inserted at its place or replacing the pair with the same key.
\<close>

theorem sa_put_refines_ord_put:
  assumes "sa_rep kss kl sa xs" and "length key = kl"
    and "key \<in> fst ` set xs \<or> \<not> sa_is_full sa"
  shows "\<exists>sa'. sa_put sa key v = Some sa' \<and> sa_rep kss kl sa' (ord_put key v xs)"
  using assms by (rule sa_put_spec)

theorem sa_put_refines_ord_put_witness:
  "\<exists>sa'. sa_put sample_array [1, 7] 20 = Some sa' \<and>
     sa_rep 8 2 sa' [([1, 0], 11), ([1, 5], 12), ([1, 7], 20), ([2, 0], 13)]"
  using sa_put_refines_ord_put [OF sample_rep, of "[1, 7]" 20]
  by (simp add: ord_put_def sa_is_full_def sa_key_space_size_def sample_array_def)

text \<open>
  \<^verbatim>\<open>split\<close> of an array into an empty one leaves the smaller half in place and moves the larger
  keys to the other array; no pair is lost, the order is kept, and the halves differ by at most one.
\<close>

theorem sa_split_halves:
  assumes "sa_rep kss kl sa xs" and "sa_rep kss kl new []"
  shows "\<exists>l r ls rs. sa_split sa new = Some (l, r) \<and> sa_rep kss kl l ls \<and> sa_rep kss kl r rs \<and>
           xs = ls @ rs \<and> length rs \<le> length ls \<and> length ls \<le> Suc (length rs)"
proof -
  let ?m = "length xs - length xs div 2"
  have "xs = take ?m xs @ drop ?m xs" by simp
  moreover have "length (drop ?m xs) \<le> length (take ?m xs)"
      "length (take ?m xs) \<le> Suc (length (drop ?m xs))" by simp_all
  ultimately show ?thesis using sa_split_spec [OF assms] by blast
qed

theorem sa_split_halves_witness:
  "\<exists>l r ls rs. sa_split sample_array (sample_array\<lparr>sa_key_count := 0, sa_used_key_space := 0\<rparr>) = Some (l, r) \<and>
     sa_rep 8 2 l ls \<and> sa_rep 8 2 r rs \<and> sample_entries = ls @ rs \<and>
     length rs \<le> length ls \<and> length ls \<le> Suc (length rs)"
  by (rule sa_split_halves [OF sample_rep]) (simp add: sa_rep_def sample_array_def)

text \<open>
  After any permitted sequence of \<^verbatim>\<open>put\<close> and \<^verbatim>\<open>del\<close> calls on a freshly initialised array, every
  call has returned and \<^verbatim>\<open>get\<close> finds for each key exactly the value of its last update.
\<close>

theorem sa_get_after_updates:
  assumes "0 < kl" and "ops_ok kl (kss div kl) ops []"
  shows "\<exists>sa sa'. sa_init (sa_new kss) (int kl) = Some sa \<and> run_ops sa_put sa_del ops sa = Some sa' \<and>
           (\<forall>k. length k = kl \<longrightarrow>
              map_option fst (sa_get sa' k) =
                Some (case history ops Map.empty k of None \<Rightarrow> NULL | Some v \<Rightarrow> v))"
proof -
  obtain sa where sa: "sa_init (sa_new kss) (int kl) = Some sa" "sa_rep kss kl sa []"
    using sa_init_rep [OF assms(1)] by blast
  show ?thesis
    by (rule sa.lookup_after_run [OF sa(2) assms(2)]) (use sa(1) in \<open>auto simp flip: map_of.simps(1)\<close>)
qed

theorem sa_get_after_updates_witness:
  "\<exists>sa sa'. sa_init (sa_new 8) 2 = Some sa \<and>
     run_ops sa_put sa_del [Put [3, 4] 7, Put [1, 2] 8, Put [3, 4] 9, Del [1, 2]] sa = Some sa' \<and>
     map_option fst (sa_get sa' [3, 4]) = Some 9 \<and> map_option fst (sa_get sa' [1, 2]) = Some NULL"
proof -
  let ?ops = "[Put [3, 4] 7, Put [1, 2] 8, Put [3, 4] 9, Del [1, 2]]"
  have "ops_ok 2 (8 div 2) ?ops []" by (simp add: ord_put_def ord_del_def)
  with sa_get_after_updates [of 2 8 ?ops] obtain sa sa'
    where "sa_init (sa_new 8) 2 = Some sa" "run_ops sa_put sa_del ?ops sa = Some sa'"
      and get: "\<And>k. length k = 2 \<Longrightarrow> map_option fst (sa_get sa' k) =
        Some (case history ?ops Map.empty k of None \<Rightarrow> NULL | Some v \<Rightarrow> v)"
    by auto
  moreover have "map_option fst (sa_get sa' [3, 4]) = Some 9" "map_option fst (sa_get sa' [1, 2]) = Some NULL"
    using get [of "[3, 4]"] get [of "[1, 2]"] by simp_all
  ultimately show ?thesis by blast
qed

text \<open>
  an iterator positioned by \<^verbatim>\<open>iter_forward(key)\<close> and stepped with \<^verbatim>\<open>iter_next\<close> until it reports no
  more keys yields exactly the stored pairs with a key not below \<open>key\<close>, ascending;
  \<^verbatim>\<open>iter_backward(key)\<close> and \<^verbatim>\<open>iter_prev\<close> yield those not above it, descending.
\<close>

theorem sa_iterators_enumerate:
  assumes "sa_rep kss kl sa xs" and "length key = kl"
  shows "sa_iter_forward_key sa key \<bind> sa_scan_forward sa = Some (filter (\<lambda>e. key \<le> fst e) xs) \<and>
         sa_iter_backward_key sa key \<bind> sa_scan_backward sa = Some (rev (filter (\<lambda>e. fst e \<le> key) xs))"
  using sa_scan_forward_drop [OF assms(1) rank_lt_length] sa_scan_backward_take [OF assms(1) rank_le_length]
  by (simp add: sa_iter_forward_key_spec [OF assms] sa_iter_backward_key_spec [OF assms]
        filter_sorted_take [OF sa_repD(11) [OF assms(1)]])

theorem sa_iterators_enumerate_witness:
  "sa_iter_forward_key sample_array [1, 2] \<bind> sa_scan_forward sample_array = Some [([1, 5], 12), ([2, 0], 13)] \<and>
   sa_iter_backward_key sample_array [1, 2] \<bind> sa_scan_backward sample_array = Some [([1, 0], 11)]"
  using sa_iterators_enumerate [OF sample_rep, of "[1, 2]"] by simp

text \<open>
  The outcome of \<^verbatim>\<open>get\<close> on every key: a stored key gives its value and its 1-based rank, and
  \<^verbatim>\<open>get\<close> by that rank gives the pair back; a key that is not stored gives the null pointer and order 0.
\<close>

theorem sa_get_rank_roundtrip:
  assumes "sa_rep kss kl sa xs" and "length key = kl"
  shows "case map_of xs key of
           None \<Rightarrow> sa_get sa key = Some (NULL, 0)
         | Some v \<Rightarrow> (\<exists>n. sa_get sa key = Some (v, n) \<and> sa_get_by_order sa n = Some (key, v))"
proof (cases "map_of xs key")
  case (Some v)
  note s = sa_repD(11) [OF assms(1)]
  have k: "key \<in> fst ` set xs" using Some by (metis map_of_eq_None_iff option.distinct(1))
  have n: "rank_le key xs = Suc (rank_lt key xs)" using rank_le_present [OF s k] by simp
  have "sa_get_by_order sa (int (rank_le key xs)) = Some (xs ! (rank_le key xs - 1))"
    by (rule sa_get_by_order_spec [OF assms(1)]) (use n rank_le_length [of key xs] in auto)
  moreover have "xs ! (rank_le key xs - 1) = (key, v)"
    using rank_lt_key [OF s k] map_of_rank_lt [OF s k] Some n by (simp add: prod_eq_iff)
  ultimately show ?thesis using Some by (simp add: sa_get_spec [OF assms])
qed (simp add: sa_get_spec [OF assms])

theorem sa_get_rank_roundtrip_witness:
  "\<exists>n. sa_get sample_array [1, 5] = Some (12, n) \<and> sa_get_by_order sample_array n = Some ([1, 5], 12)"
  using sa_get_rank_roundtrip [OF sample_rep, of "[1, 5]"] by simp

text \<open>
  \<^verbatim>\<open>del\<close> always returns: it hands back the value of a stored key and removes exactly that pair,
  and on a key that is not stored it hands back the null pointer and leaves the pairs as they are.
\<close>

theorem sa_del_refines_ord_del:
  assumes "sa_rep kss kl sa xs" and "length key = kl"
  shows "\<exists>sa'. sa_del sa key = Some (case map_of xs key of None \<Rightarrow> NULL | Some v \<Rightarrow> v, sa') \<and>
               sa_rep kss kl sa' (ord_del key xs)"
  using assms by (rule sa_del_spec)

theorem sa_del_refines_ord_del_witness:
  "\<exists>sa'. sa_del sample_array [1, 5] = Some (12, sa') \<and> sa_rep 8 2 sa' [([1, 0], 11), ([2, 0], 13)]"
  using sa_del_refines_ord_del [OF sample_rep, of "[1, 5]"] by (simp add: ord_del_def)

end
