(* ===== verification/Array_Tree.thy ===== *)
theory Array_Tree
  imports Sorted_Array
begin

text \<open>
  The class template \<^verbatim>\<open>nldb_array_tree\<close> of \<^verbatim>\<open>nldb_array_tree.h\<close>: a balanced tree whose nodes hold
  sorted arrays of fixed size keys, whose leaves form a doubly linked list, and whose nodes count
  the keys below them so that keys can be searched by rank. Nodes refer to each other through
  parent, child and sibling pointers, so the model is an explicit heap of nodes; each operation
  below is the member function of the same name, with the tree object passed and returned. A field
  \<^verbatim>\<open>x_\<close> of a class is the record field \<open>x\<close>, \<open>n_x\<close> or \<open>tree_x\<close>. A field that belongs to one of the two
  node classes is only reached after the check of the node's magic value, which stands for the
  C++ downcast (a wrong downcast is undefined).
\<close>

section \<open>Nodes and the heap\<close>

datatype NODE_MAGIC_VALUE = INTERNAL_NODE_MAGIC | LEAF_NODE_MAGIC

record node =
  n_key_count :: int
  n_parent :: ptr
  n_magic :: NODE_MAGIC_VALUE
  keys_with_values :: sorted_array
  n_next :: ptr
  n_prev :: ptr
  keys_with_right_children :: sorted_array
  n_left_child :: ptr

record array_tree =
  nodes :: "ptr \<Rightarrow> node option"
  next_addr :: ptr
  tree_key_space_size :: nat
  tree_initialized :: bool
  tree_key_length :: int
  root_node :: ptr

definition store :: "array_tree \<Rightarrow> ptr \<Rightarrow> node \<Rightarrow> array_tree" where
  "store t p n = t\<lparr>nodes := (nodes t)(p \<mapsto> n)\<rparr>"

definition leaf_at :: "array_tree \<Rightarrow> ptr \<Rightarrow> node option" where
  "leaf_at t p = do { n \<leftarrow> nodes t p; if n_magic n = LEAF_NODE_MAGIC then Some n else None }"

definition internal_at :: "array_tree \<Rightarrow> ptr \<Rightarrow> node option" where
  "internal_at t p = do { n \<leftarrow> nodes t p; if n_magic n = INTERNAL_NODE_MAGIC then Some n else None }"

definition node_key_count :: "array_tree \<Rightarrow> ptr \<Rightarrow> int option" where
  "node_key_count t p = map_option n_key_count (nodes t p)"

definition set_key_count :: "array_tree \<Rightarrow> ptr \<Rightarrow> int \<Rightarrow> array_tree option" where
  "set_key_count t p key_count = do { n \<leftarrow> nodes t p; Some (store t p (n\<lparr>n_key_count := key_count\<rparr>)) }"

definition node_parent :: "array_tree \<Rightarrow> ptr \<Rightarrow> ptr option" where
  "node_parent t p = map_option n_parent (nodes t p)"

definition set_parent :: "array_tree \<Rightarrow> ptr \<Rightarrow> ptr \<Rightarrow> array_tree option" where
  "set_parent t p parent = do { n \<leftarrow> nodes t p; Some (store t p (n\<lparr>n_parent := parent\<rparr>)) }"

text \<open>
  \<^verbatim>\<open>node_factory\<close> allocates with \<^verbatim>\<open>new\<close>: an address that no node has had before. The fields of the
  other node class hold an unused array.
\<close>

definition new_leaf_node :: "array_tree \<Rightarrow> int \<Rightarrow> (ptr \<times> array_tree) option" where
  "new_leaf_node t key_length =
     do { sa \<leftarrow> sa_init (sa_new (tree_key_space_size t)) key_length;
          let p = next_addr t;
          Some (p, (store t p
            \<lparr>n_key_count = 0, n_parent = NULL, n_magic = LEAF_NODE_MAGIC,
             keys_with_values = sa, n_next = NULL, n_prev = NULL,
             keys_with_right_children = sa_new 0, n_left_child = NULL\<rparr>)\<lparr>next_addr := p + 1\<rparr>) }"

definition new_internal_node :: "array_tree \<Rightarrow> int \<Rightarrow> (ptr \<times> array_tree) option" where
  "new_internal_node t key_length =
     do { sa \<leftarrow> sa_init (sa_new (tree_key_space_size t)) key_length;
          let p = next_addr t;
          Some (p, (store t p
            \<lparr>n_key_count = 0, n_parent = NULL, n_magic = INTERNAL_NODE_MAGIC,
             keys_with_values = sa_new 0, n_next = NULL, n_prev = NULL,
             keys_with_right_children = sa, n_left_child = NULL\<rparr>)\<lparr>next_addr := p + 1\<rparr>) }"

section \<open>Leaf nodes\<close>

text \<open>\<^verbatim>\<open>put\<close> also reports whether the key was replaced, by comparing the key counts.\<close>

definition leaf_put :: "array_tree \<Rightarrow> ptr \<Rightarrow> byte list \<Rightarrow> ptr \<Rightarrow> (array_tree \<times> bool) option" where
  "leaf_put t node key value =
     do { n \<leftarrow> leaf_at t node;
          let key_count_before_put = sa_key_count (keys_with_values n);
          sa \<leftarrow> sa_put (keys_with_values n) key value;
          Some (store t node (n\<lparr>keys_with_values := sa\<rparr>), key_count_before_put = sa_key_count sa) }"

definition leaf_get :: "array_tree \<Rightarrow> ptr \<Rightarrow> byte list \<Rightarrow> (ptr \<times> int) option" where
  "leaf_get t node key = do { n \<leftarrow> leaf_at t node; sa_get (keys_with_values n) key }"

definition leaf_get_by_order :: "array_tree \<Rightarrow> ptr \<Rightarrow> int \<Rightarrow> (byte list \<times> ptr) option" where
  "leaf_get_by_order t node key_order =
     do { n \<leftarrow> leaf_at t node; sa_get_by_order (keys_with_values n) key_order }"

definition leaf_del :: "array_tree \<Rightarrow> ptr \<Rightarrow> byte list \<Rightarrow> (ptr \<times> array_tree) option" where
  "leaf_del t node key =
     do { n \<leftarrow> leaf_at t node;
          (value, sa) \<leftarrow> sa_del (keys_with_values n) key;
          Some (value, store t node (n\<lparr>keys_with_values := sa\<rparr>)) }"

definition leaf_split :: "array_tree \<Rightarrow> ptr \<Rightarrow> (ptr \<times> array_tree) option" where
  "leaf_split t node =
     do { n \<leftarrow> leaf_at t node;
          (new_node, t1) \<leftarrow> new_leaf_node t (sa_key_length (keys_with_values n));
          nn \<leftarrow> leaf_at t1 new_node;
          (left, right) \<leftarrow> sa_split (keys_with_values n) (keys_with_values nn);
          let t2 = store t1 node (n\<lparr>keys_with_values := left\<rparr>);
          let t3 = store t2 new_node (nn\<lparr>keys_with_values := right, n_prev := node, n_next := n_next n\<rparr>);
          t4 \<leftarrow> (if n_next n \<noteq> NULL
                then do { nx \<leftarrow> leaf_at t3 (n_next n); Some (store t3 (n_next n) (nx\<lparr>n_prev := new_node\<rparr>)) }
                else Some t3);
          n4 \<leftarrow> leaf_at t4 node;
          let t5 = store t4 node
                (n4\<lparr>n_next := new_node, n_key_count := sa_key_count (keys_with_values n4)\<rparr>);
          nn5 \<leftarrow> leaf_at t5 new_node;
          t6 \<leftarrow> set_key_count t5 new_node (sa_key_count (keys_with_values nn5));
          Some (new_node, t6) }"

section \<open>Internal nodes\<close>

definition set_left_child :: "array_tree \<Rightarrow> ptr \<Rightarrow> ptr \<Rightarrow> array_tree option" where
  "set_left_child t node left_child =
     do { n \<leftarrow> internal_at t node;
          set_parent (store t node (n\<lparr>n_left_child := left_child\<rparr>)) left_child node }"

definition internal_put :: "array_tree \<Rightarrow> ptr \<Rightarrow> byte list \<Rightarrow> ptr \<Rightarrow> array_tree option" where
  "internal_put t node key child =
     do { n \<leftarrow> internal_at t node;
          sa \<leftarrow> sa_put (keys_with_right_children n) key child;
          set_parent (store t node (n\<lparr>keys_with_right_children := sa\<rparr>)) child node }"

text \<open>The running total of \<^verbatim>\<open>count_all_keys_before_position\<close> is an \<^verbatim>\<open>int\<close>.\<close>

function count_keys_loop :: "array_tree \<Rightarrow> sorted_array \<Rightarrow> int \<Rightarrow> int \<Rightarrow> int \<Rightarrow> int option" where
  "count_keys_loop t sa pos node_position total_count =
     (if pos < node_position then
        case get_data sa pos \<bind> node_key_count t of
          None \<Rightarrow> None
        | Some c \<Rightarrow> count_keys_loop t sa (pos + 1) node_position (to_int32 (total_count + c))
      else Some total_count)"
  by pat_completeness auto
termination
  by (relation "measure (\<lambda>(t, sa, pos, node_position, total_count). nat (node_position - pos))") auto

declare count_keys_loop.simps [simp del]

definition count_all_keys_before_position :: "array_tree \<Rightarrow> ptr \<Rightarrow> int \<Rightarrow> int option" where
  "count_all_keys_before_position t node node_position =
     do { n \<leftarrow> internal_at t node;
          total_count \<leftarrow> (if 0 \<le> node_position
                   then do { c \<leftarrow> node_key_count t (n_left_child n); Some (to_int32 c) } else Some 0);
          count_keys_loop t (keys_with_right_children n) 0 node_position total_count }"

definition count_all_keys_in_leaf_nodes :: "array_tree \<Rightarrow> ptr \<Rightarrow> int option" where
  "count_all_keys_in_leaf_nodes t node =
     do { n \<leftarrow> internal_at t node;
          count_all_keys_before_position t node (sa_key_count (keys_with_right_children n)) }"

text \<open>
  \<open>want\<close> says whether the caller passes a pointer for the key count; without it the count is not
  computed and 0 is returned in its place.
\<close>

definition find_serving_node_by_key ::
    "array_tree \<Rightarrow> ptr \<Rightarrow> byte list \<Rightarrow> bool \<Rightarrow> (ptr \<times> int) option" where
  "find_serving_node_by_key t node key want =
     do { n \<leftarrow> internal_at t node;
          (child, node_position) \<leftarrow> find_last_le_key (keys_with_right_children n) key;
          let child' = (if child = NULL then n_left_child n else child);
          count_before \<leftarrow> (if want then count_all_keys_before_position t node node_position else Some 0);
          Some (child', count_before) }"

text \<open>The loop over the right children; running off its end makes \<^verbatim>\<open>tx_assert(serving_node)\<close> fail.\<close>

function serving_node_loop :: "array_tree \<Rightarrow> sorted_array \<Rightarrow> int \<Rightarrow> int \<Rightarrow> (ptr \<times> int) option" where
  "serving_node_loop t sa node_position key_count_left =
     (if node_position < sa_key_count sa then
        case get_data sa node_position of
          None \<Rightarrow> None
        | Some child \<Rightarrow>
            (case node_key_count t child of
               None \<Rightarrow> None
             | Some c \<Rightarrow>
                 if key_count_left \<le> c then Some (child, key_count_left)
                 else serving_node_loop t sa (node_position + 1) (key_count_left - c))
      else None)"
  by pat_completeness auto
termination
  by (relation "measure (\<lambda>(t, sa, node_position, l). nat (sa_key_count sa - node_position))") auto

declare serving_node_loop.simps [simp del]

definition find_serving_node_by_order :: "array_tree \<Rightarrow> ptr \<Rightarrow> int \<Rightarrow> (ptr \<times> int) option" where
  "find_serving_node_by_order t node key_order =
     do { n \<leftarrow> internal_at t node;
          c \<leftarrow> node_key_count t (n_left_child n);
          (serving_node, key_count_left) \<leftarrow>
            (if key_order \<le> c then Some (n_left_child n, key_order)
             else serving_node_loop t (keys_with_right_children n) 0 (key_order - c));
          Some (serving_node, key_order - key_count_left) }"

definition internal_del :: "array_tree \<Rightarrow> ptr \<Rightarrow> byte list \<Rightarrow> (ptr \<times> array_tree) option" where
  "internal_del t node key =
     do { n \<leftarrow> internal_at t node;
          (child, sa) \<leftarrow> sa_del (keys_with_right_children n) key;
          let t1 = store t node (n\<lparr>keys_with_right_children := sa\<rparr>);
          t2 \<leftarrow> (if child \<noteq> NULL then set_parent t1 child NULL else Some t1);
          Some (child, t2) }"

text \<open>The loop of \<^verbatim>\<open>split\<close> that makes the new node the parent of the children that moved to it.\<close>

partial_function (option) reparent_loop ::
    "array_tree \<Rightarrow> sorted_array \<Rightarrow> sa_iterator \<Rightarrow> ptr \<Rightarrow> array_tree option" where
  "reparent_loop t sa iter new_node =
     do { (entry, iter') \<leftarrow> iter_next sa iter;
          case entry of
            None \<Rightarrow> Some t
          | Some (dummy_key, child) \<Rightarrow>
              if child = NULL then Some t
              else do { t' \<leftarrow> set_parent t child new_node; reparent_loop t' sa iter' new_node } }"

definition internal_split :: "array_tree \<Rightarrow> ptr \<Rightarrow> (ptr \<times> byte list \<times> array_tree) option" where
  "internal_split t node =
     do { n \<leftarrow> internal_at t node;
          (new_node, t1) \<leftarrow> new_internal_node t (sa_key_length (keys_with_right_children n));
          nn \<leftarrow> internal_at t1 new_node;
          (left, right) \<leftarrow> sa_split (keys_with_right_children n) (keys_with_right_children nn);
          let t2 = store (store t1 node (n\<lparr>keys_with_right_children := left\<rparr>))
                     new_node (nn\<lparr>keys_with_right_children := right\<rparr>);
          t3 \<leftarrow> reparent_loop t2 right (sa_iter_forward right) new_node;
          n3 \<leftarrow> internal_at t3 node;
          (mid, left') \<leftarrow> remove_max_key (keys_with_right_children n3);
          let t4 = store t3 node (n3\<lparr>keys_with_right_children := left'\<rparr>);
          if \<not> 0 < sa_key_count left' then None
          else do {
            (mid_key, mid_key_node) \<leftarrow> mid;
            t5 \<leftarrow> set_left_child t4 new_node mid_key_node;
            key_count \<leftarrow> count_all_keys_in_leaf_nodes t5 new_node;
            t6 \<leftarrow> set_key_count t5 new_node key_count;
            key_count' \<leftarrow> count_all_keys_in_leaf_nodes t6 node;
            t7 \<leftarrow> set_key_count t6 node key_count';
            Some (new_node, mid_key, t7) } }"


section \<open>Searching the tree\<close>

definition tree_compare_keys :: "array_tree \<Rightarrow> byte list \<Rightarrow> byte list \<Rightarrow> int option" where
  "tree_compare_keys t key1 key2 =
     (if int (length key1) < tree_key_length t \<or> int (length key2) < tree_key_length t then None
      else Some (memcmp key1 key2 (nat (tree_key_length t))))"

partial_function (option) find_leaf_loop ::
    "array_tree \<Rightarrow> byte list \<Rightarrow> bool \<Rightarrow> ptr \<Rightarrow> int \<Rightarrow> (ptr \<times> int) option" where
  "find_leaf_loop t key want n count_before =
     do { nd \<leftarrow> nodes t n;
          if n_magic nd = INTERNAL_NODE_MAGIC
          then do { (n', all_key_count_before_n) \<leftarrow> find_serving_node_by_key t n key want;
                    find_leaf_loop t key want n' (count_before + all_key_count_before_n) }
          else Some (n, count_before) }"

definition find_leaf_node :: "array_tree \<Rightarrow> byte list \<Rightarrow> bool \<Rightarrow> (ptr \<times> int) option" where
  "find_leaf_node t key want = find_leaf_loop t key want (root_node t) 0"

partial_function (option) find_leaf_by_order_loop ::
    "array_tree \<Rightarrow> int \<Rightarrow> ptr \<Rightarrow> int \<Rightarrow> (ptr \<times> int) option" where
  "find_leaf_by_order_loop t key_count_left n count_before =
     do { nd \<leftarrow> nodes t n;
          if n_magic nd = INTERNAL_NODE_MAGIC
          then do { (n', all_key_count_before_n) \<leftarrow> find_serving_node_by_order t n key_count_left;
                    find_leaf_by_order_loop t (key_count_left - all_key_count_before_n) n'
                      (count_before + all_key_count_before_n) }
          else Some (n, count_before) }"

definition find_leaf_node_by_order :: "array_tree \<Rightarrow> int \<Rightarrow> (ptr \<times> int) option" where
  "find_leaf_node_by_order t key_order = find_leaf_by_order_loop t key_order (root_node t) 0"

section \<open>Key counts on the path to the root\<close>

partial_function (option) propagate_key_count_increment ::
    "array_tree \<Rightarrow> ptr \<Rightarrow> ptr \<Rightarrow> int \<Rightarrow> array_tree option" where
  "propagate_key_count_increment t n fence_node increment =
     (if n = fence_node then Some t
      else do { c \<leftarrow> node_key_count t n;
                t' \<leftarrow> set_key_count t n (c + increment);
                p \<leftarrow> node_parent t' n;
                propagate_key_count_increment t' p fence_node increment })"

partial_function (option) propagate_key_count_decrement ::
    "array_tree \<Rightarrow> ptr \<Rightarrow> ptr \<Rightarrow> int \<Rightarrow> array_tree option" where
  "propagate_key_count_decrement t n fence_node decrement =
     (if n = fence_node then Some t
      else do { c \<leftarrow> node_key_count t n;
                t' \<leftarrow> set_key_count t n (c - decrement);
                p \<leftarrow> node_parent t' n;
                propagate_key_count_decrement t' p fence_node decrement })"

section \<open>Insertion\<close>

text \<open>
  The recursion goes up the parent pointers. The result is the tree and the top-most node that was
  not split (\<^verbatim>\<open>*o_unsplit_top_node\<close>), \<^term>\<open>NULL\<close> when the root was split. \<^verbatim>\<open>mid_key\<close> points into the
  key space of the split node, which is not written between the split and the comparison below.
\<close>

partial_function (option) put_to_internal_node ::
    "array_tree \<Rightarrow> ptr \<Rightarrow> byte list \<Rightarrow> ptr \<Rightarrow> (array_tree \<times> ptr) option" where
  "put_to_internal_node t node key key_node =
     do { n \<leftarrow> internal_at t node;
          if sa_is_full (keys_with_right_children n)
          then do {
            (right_node, mid_key, t1) \<leftarrow> internal_split t node;
            parent \<leftarrow> node_parent t1 node;
            (t2, unsplit_top_node) \<leftarrow>
              (if parent \<noteq> NULL
               then do { (t', fence) \<leftarrow> put_to_internal_node t1 parent mid_key right_node;
                         right_parent \<leftarrow> node_parent t' right_node;
                         right_count \<leftarrow> node_key_count t' right_node;
                         t'' \<leftarrow> propagate_key_count_increment t' right_parent fence right_count;
                         Some (t'', fence) }
               else do { (new_root_node, t') \<leftarrow> new_internal_node t1 (tree_key_length t1);
                         ta \<leftarrow> set_left_child t' new_root_node node;
                         tb \<leftarrow> internal_put ta new_root_node mid_key right_node;
                         node_count \<leftarrow> node_key_count tb node;
                         right_count \<leftarrow> node_key_count tb right_node;
                         tc \<leftarrow> set_key_count tb new_root_node (node_count + right_count);
                         Some (tc\<lparr>root_node := new_root_node\<rparr>, NULL) });
            cmp \<leftarrow> tree_compare_keys t2 key mid_key;
            if cmp < 0 then do { t3 \<leftarrow> internal_put t2 node key key_node; Some (t3, unsplit_top_node) }
            else if 0 < cmp
            then do { t3 \<leftarrow> internal_put t2 right_node key key_node; Some (t3, unsplit_top_node) }
            else None }
          else do { t1 \<leftarrow> internal_put t node key key_node; Some (t1, node) } }"

text \<open>
  The result is the tree, the leaf that holds the key (\<^verbatim>\<open>*o_key_existing_node\<close>) and \<^verbatim>\<open>*isReplaced\<close>.
  \<^verbatim>\<open>mid_key\<close> points to the first key of the right leaf, which is read again after the insertion.
\<close>

definition put_to_leaf_node :: "array_tree \<Rightarrow> ptr \<Rightarrow> byte list \<Rightarrow> ptr \<Rightarrow> (array_tree \<times> ptr \<times> bool) option" where
  "put_to_leaf_node t node key value =
     do { n \<leftarrow> leaf_at t node;
          if sa_is_full (keys_with_values n)
          then do {
            (right_node, t1) \<leftarrow> leaf_split t node;
            rn \<leftarrow> leaf_at t1 right_node;
            mid_key \<leftarrow> sa_min_key (keys_with_values rn);
            cmp \<leftarrow> tree_compare_keys t1 key mid_key;
            let key_existing_node = (if cmp < 0 then node else right_node);
            (t2, isReplaced) \<leftarrow> leaf_put t1 key_existing_node key value;
            parent \<leftarrow> node_parent t2 node;
            rn2 \<leftarrow> leaf_at t2 right_node;
            mid_key2 \<leftarrow> get_key (keys_with_values rn2) 0;
            (t3, unsplit_top_node) \<leftarrow> put_to_internal_node t2 parent mid_key2 right_node;
            right_parent \<leftarrow> node_parent t3 right_node;
            right_count \<leftarrow> node_key_count t3 right_node;
            t4 \<leftarrow> propagate_key_count_increment t3 right_parent unsplit_top_node right_count;
            Some (t4, key_existing_node, isReplaced) }
          else do { (t1, isReplaced) \<leftarrow> leaf_put t node key value; Some (t1, node, isReplaced) } }"

definition del_from_leaf_node :: "array_tree \<Rightarrow> ptr \<Rightarrow> byte list \<Rightarrow> (ptr \<times> array_tree) option" where
  "del_from_leaf_node t node key = leaf_del t node key"

section \<open>The public operations\<close>

record tree_iterator =
  current_node :: ptr
  key_iter :: sa_iterator

definition tree_new :: "nat \<Rightarrow> array_tree" where
  "tree_new key_space_size =
     \<lparr>nodes = Map.empty, next_addr = 1, tree_key_space_size = key_space_size,
      tree_initialized = False, tree_key_length = 0, root_node = NULL\<rparr>"

definition tree_init :: "array_tree \<Rightarrow> int \<Rightarrow> array_tree option" where
  "tree_init t key_length =
     do { (root, t1) \<leftarrow> new_internal_node (t\<lparr>tree_key_length := key_length\<rparr>) key_length;
          (leaf, t2) \<leftarrow> new_leaf_node (t1\<lparr>root_node := root\<rparr>) key_length;
          t3 \<leftarrow> set_left_child t2 root leaf;
          Some (t3\<lparr>tree_initialized := True\<rparr>) }"

definition tree_destroy :: "array_tree \<Rightarrow> array_tree" where
  "tree_destroy t = t\<lparr>tree_initialized := False\<rparr>"

definition tree_put :: "array_tree \<Rightarrow> byte list \<Rightarrow> ptr \<Rightarrow> array_tree option" where
  "tree_put t key value =
     do { (leaf, _) \<leftarrow> find_leaf_node t key False;
          (t1, key_existing_node, isReplaced) \<leftarrow> put_to_leaf_node t leaf key value;
          if \<not> isReplaced then propagate_key_count_increment t1 key_existing_node NULL 1
          else Some t1 }"

text \<open>\<^verbatim>\<open>get\<close> by key: the value (\<^term>\<open>NULL\<close> when absent) and, when wanted, the order.\<close>

definition tree_get :: "array_tree \<Rightarrow> byte list \<Rightarrow> bool \<Rightarrow> (ptr \<times> int) option" where
  "tree_get t key want_order =
     (if \<not> want_order
      then do { (leaf_node, _) \<leftarrow> find_leaf_node t key False;
                (value, _) \<leftarrow> leaf_get t leaf_node key;
                Some (value, 0) }
      else do { (leaf_node, key_count_before_leaf_node) \<leftarrow> find_leaf_node t key True;
                (value, key_order_in_the_leaf_node) \<leftarrow> leaf_get t leaf_node key;
                Some (value, key_count_before_leaf_node + key_order_in_the_leaf_node) })"

definition tree_get_by_order :: "array_tree \<Rightarrow> int \<Rightarrow> (nldb_rc_t \<times> (byte list \<times> ptr) option) option" where
  "tree_get_by_order t key_order =
     do { total_key_count \<leftarrow> node_key_count t (root_node t);
          if key_order < 1 \<or> key_order > total_key_count then Some (NLDB_ERROR_KEY_NOT_FOUND, None)
          else do { (leaf_node, key_count_before_leaf_node) \<leftarrow> find_leaf_node_by_order t key_order;
                    e \<leftarrow> leaf_get_by_order t leaf_node (key_order - key_count_before_leaf_node);
                    Some (NLDB_OK, Some e) } }"

text \<open>\<^verbatim>\<open>del\<close>: the deleted value (\<^term>\<open>NULL\<close> when the key is absent) and the tree.\<close>

definition tree_del :: "array_tree \<Rightarrow> byte list \<Rightarrow> (ptr \<times> array_tree) option" where
  "tree_del t key =
     do { (leaf_node, _) \<leftarrow> find_leaf_node t key False;
          (deleted_value, t1) \<leftarrow> del_from_leaf_node t leaf_node key;
          t2 \<leftarrow> propagate_key_count_decrement t1 leaf_node NULL 1;
          Some (deleted_value, t2) }"

definition tree_seek_forward :: "array_tree \<Rightarrow> byte list \<Rightarrow> tree_iterator option" where
  "tree_seek_forward t key =
     do { (leaf_node, _) \<leftarrow> find_leaf_node t key False;
          n \<leftarrow> leaf_at t leaf_node;
          it \<leftarrow> sa_iter_forward_key (keys_with_values n) key;
          Some \<lparr>current_node = leaf_node, key_iter = it\<rparr> }"

definition tree_seek_backward :: "array_tree \<Rightarrow> byte list \<Rightarrow> tree_iterator option" where
  "tree_seek_backward t key =
     do { (leaf_node, _) \<leftarrow> find_leaf_node t key False;
          n \<leftarrow> leaf_at t leaf_node;
          it \<leftarrow> sa_iter_backward_key (keys_with_values n) key;
          Some \<lparr>current_node = leaf_node, key_iter = it\<rparr> }"

text \<open>Seeking by order leaves the iterator as it is when the order is out of range.\<close>

definition tree_seek_forward_order ::
    "array_tree \<Rightarrow> int \<Rightarrow> tree_iterator \<Rightarrow> (nldb_rc_t \<times> tree_iterator) option" where
  "tree_seek_forward_order t key_order iter =
     do { total_key_count \<leftarrow> node_key_count t (root_node t);
          if key_order < 1 \<or> key_order > total_key_count then Some (NLDB_ERROR_KEY_NOT_FOUND, iter)
          else do { (leaf_node, key_count_before_leaf_node) \<leftarrow> find_leaf_node_by_order t key_order;
                    n \<leftarrow> leaf_at t leaf_node;
                    Some (NLDB_OK, \<lparr>current_node = leaf_node,
                      key_iter = sa_iter_forward_order (keys_with_values n)
                                   (key_order - key_count_before_leaf_node)\<rparr>) } }"

definition tree_seek_backward_order ::
    "array_tree \<Rightarrow> int \<Rightarrow> tree_iterator \<Rightarrow> (nldb_rc_t \<times> tree_iterator) option" where
  "tree_seek_backward_order t key_order iter =
     do { total_key_count \<leftarrow> node_key_count t (root_node t);
          if key_order < 1 \<or> key_order > total_key_count then Some (NLDB_ERROR_KEY_NOT_FOUND, iter)
          else do { (leaf_node, key_count_before_leaf_node) \<leftarrow> find_leaf_node_by_order t key_order;
                    n \<leftarrow> leaf_at t leaf_node;
                    Some (NLDB_OK, \<lparr>current_node = leaf_node,
                      key_iter = sa_iter_backward_order (keys_with_values n)
                                   (key_order - key_count_before_leaf_node)\<rparr>) } }"

text \<open>
  A step of an iterator: the return code, the key and value (\<^term>\<open>None\<close> for \<^verbatim>\<open>*key == NULL\<close>) and the
  moved iterator. \<^verbatim>\<open>end_of_iter\<close> is never written by the code.
\<close>

definition tree_move_forward ::
    "array_tree \<Rightarrow> tree_iterator \<Rightarrow> (nldb_rc_t \<times> (byte list \<times> ptr) option \<times> tree_iterator) option" where
  "tree_move_forward t iter =
     (if current_node iter = NULL then Some (NLDB_ERROR_END_OF_ITERATION, None, iter)
      else do {
        n \<leftarrow> leaf_at t (current_node iter);
        (entry, it) \<leftarrow> iter_next (keys_with_values n) (key_iter iter);
        case entry of
          Some e \<Rightarrow> Some (NLDB_OK, Some e, iter\<lparr>key_iter := it\<rparr>)
        | None \<Rightarrow>
            if n_next n \<noteq> NULL
            then do {
              n' \<leftarrow> leaf_at t (n_next n);
              (entry', it') \<leftarrow> iter_next (keys_with_values n') (sa_iter_forward (keys_with_values n'));
              Some (if entry' = None then NLDB_ERROR_END_OF_ITERATION else NLDB_OK, entry',
                    \<lparr>current_node = n_next n, key_iter = it'\<rparr>) }
            else Some (NLDB_ERROR_END_OF_ITERATION, None, \<lparr>current_node = NULL, key_iter = it\<rparr>) })"

definition tree_move_backward ::
    "array_tree \<Rightarrow> tree_iterator \<Rightarrow> (nldb_rc_t \<times> (byte list \<times> ptr) option \<times> tree_iterator) option" where
  "tree_move_backward t iter =
     (if current_node iter = NULL then Some (NLDB_ERROR_END_OF_ITERATION, None, iter)
      else do {
        n \<leftarrow> leaf_at t (current_node iter);
        (entry, it) \<leftarrow> iter_prev (keys_with_values n) (key_iter iter);
        case entry of
          Some e \<Rightarrow> Some (NLDB_OK, Some e, iter\<lparr>key_iter := it\<rparr>)
        | None \<Rightarrow>
            if n_prev n \<noteq> NULL
            then do {
              n' \<leftarrow> leaf_at t (n_prev n);
              (entry', it') \<leftarrow> iter_prev (keys_with_values n') (sa_iter_backward (keys_with_values n'));
              Some (if entry' = None then NLDB_ERROR_END_OF_ITERATION else NLDB_OK, entry',
                    \<lparr>current_node = n_prev n, key_iter = it'\<rparr>) }
            else Some (NLDB_ERROR_END_OF_ITERATION, None, \<lparr>current_node = NULL, key_iter = it\<rparr>) })"

definition tree_get_key_count :: "array_tree \<Rightarrow> int option" where
  "tree_get_key_count t = node_key_count t (root_node t)"

section \<open>Execution\<close>

text \<open>The loops are executable by their defining equations.\<close>

declare reparent_loop.simps [code] find_leaf_loop.simps [code] find_leaf_by_order_loop.simps [code]
  propagate_key_count_increment.simps [code] propagate_key_count_decrement.simps [code]
  put_to_internal_node.simps [code]

end
