(* ===== verification/Tree_Shape.thy ===== *)
theory Tree_Shape
  imports Array_Tree Sorted_Array_Proofs "HOL-Library.Option_ord"
begin

text \<open>
  The shape of the heap behind an array tree. A level of the tree is the list of its nodes from
  left to right, each with its separator: \<^term>\<open>None\<close> for the left-most node, otherwise the key
  under which it or its left-most ancestor was put into an internal node. Every level is the expansion of the
  level above it, so a tree is its list of levels and a search, a split or a pointer to a parent
  moves between two adjacent lists; the order on separators puts \<^term>\<open>None\<close> first. The theory
  relates levels to the heap, and shows how the propagation of key counts along parent pointers
  changes the defect between a node's count and the counts of its children.
\<close>

section \<open>Views of the heap\<close>

type_synonym level = "(key option \<times> ptr) list"

definition kcnt :: "array_tree \<Rightarrow> ptr \<Rightarrow> int" where
  "kcnt t p = (case nodes t p of None \<Rightarrow> 0 | Some n \<Rightarrow> n_key_count n)"

definition par :: "array_tree \<Rightarrow> ptr \<Rightarrow> ptr" where
  "par t p = (case nodes t p of None \<Rightarrow> 0 | Some n \<Rightarrow> n_parent n)"

definition lchild :: "array_tree \<Rightarrow> ptr \<Rightarrow> ptr" where
  "lchild t q = (case nodes t q of None \<Rightarrow> 0 | Some n \<Rightarrow> n_left_child n)"

definition seps :: "array_tree \<Rightarrow> ptr \<Rightarrow> entries" where
  "seps t q = (case nodes t q of None \<Rightarrow> [] | Some n \<Rightarrow> sa_entries (keys_with_right_children n))"

definition ents :: "array_tree \<Rightarrow> ptr \<Rightarrow> entries" where
  "ents t p = (case nodes t p of None \<Rightarrow> [] | Some n \<Rightarrow> sa_entries (keys_with_values n))"

definition lift_sep :: "entries \<Rightarrow> level" where
  "lift_sep es = map (\<lambda>e. (Some (fst e), snd e)) es"

definition expand :: "array_tree \<Rightarrow> key option \<times> ptr \<Rightarrow> level" where
  "expand t e = (fst e, lchild t (snd e)) # lift_sep (seps t (snd e))"

definition kids :: "array_tree \<Rightarrow> ptr \<Rightarrow> ptr list" where
  "kids t q = lchild t q # map snd (seps t q)"

definition kidsum :: "array_tree \<Rightarrow> ptr \<Rightarrow> int" where
  "kidsum t q = sum_list (map (kcnt t) (kids t q))"

text \<open>By how much the key count of an internal node exceeds the sum of its children's counts.\<close>

definition defect :: "array_tree \<Rightarrow> ptr \<Rightarrow> int" where
  "defect t q = kcnt t q - kidsum t q"

text \<open>What the search and the level structure read of a node.\<close>

definition core :: "node \<Rightarrow> NODE_MAGIC_VALUE \<times> sorted_array \<times> ptr" where
  "core n = (n_magic n, keys_with_right_children n, n_left_child n)"

lemma lift_sep_simps [simp]:
  "lift_sep [] = []" "lift_sep (e # es) = (Some (fst e), snd e) # lift_sep es"
  "lift_sep (es @ fs) = lift_sep es @ lift_sep fs" "map snd (lift_sep es) = map snd es"
  "map fst (lift_sep es) = map (Some \<circ> fst) es" "length (lift_sep es) = length es"
  by (auto simp: lift_sep_def)

lemma lift_sep_take [simp]: "lift_sep (take n es) = take n (lift_sep es)"
  "lift_sep (drop n es) = drop n (lift_sep es)"
  by (simp_all add: lift_sep_def take_map drop_map)

lemma map_snd_expand [simp]: "map snd (expand t e) = kids t (snd e)"
  by (simp add: expand_def kids_def)

lemma expand_fst: "expand t (s, q) = (s, lchild t q) # lift_sep (seps t q)"
  by (simp add: expand_def)

lemma ord_put_lift:
  "s < Some k \<Longrightarrow> ord_put (Some k) z ((s, l) # lift_sep es) = (s, l) # lift_sep (ord_put k z es)"
  by (auto simp: ord_put_def lift_sep_def filter_map comp_def)

text \<open>Views depend on one node only.\<close>

lemma view_cong:
  assumes "nodes t' p = nodes t p"
  shows "kcnt t' p = kcnt t p" "par t' p = par t p" "lchild t' p = lchild t p" "seps t' p = seps t p"
    "ents t' p = ents t p"
  using assms by (simp_all add: kcnt_def par_def lchild_def seps_def ents_def)

lemma core_cong:
  assumes "map_option core (nodes t' p) = map_option core (nodes t p)"
  shows "lchild t' p = lchild t p" "seps t' p = seps t p" "kids t' p = kids t p"
    "expand t' (s, p) = expand t (s, p)"
proof -
  have "lchild t' p = lchild t p \<and> seps t' p = seps t p"
    using assms by (auto simp: lchild_def seps_def core_def split: option.splits)
  then show "lchild t' p = lchild t p" "seps t' p = seps t p" "kids t' p = kids t p"
    "expand t' (s, p) = expand t (s, p)"
    by (auto simp: kids_def expand_def)
qed

lemma par_eq: "map_option n_parent (nodes t' p) = map_option n_parent (nodes t p) \<Longrightarrow> par t' p = par t p"
  by (auto simp: par_def split: option.splits)

section \<open>Levels\<close>

definition int_ok :: "nat \<Rightarrow> nat \<Rightarrow> array_tree \<Rightarrow> ptr \<Rightarrow> bool" where
  "int_ok kss kl t q \<longleftrightarrow>
     (\<exists>n. nodes t q = Some n \<and> n_magic n = INTERNAL_NODE_MAGIC \<and>
        sa_rep kss kl (keys_with_right_children n) (seps t q)) \<and>
     (\<forall>c\<in>set (kids t q). map_option n_parent (nodes t c) = Some q)"

fun upper :: "nat \<Rightarrow> nat \<Rightarrow> array_tree \<Rightarrow> level \<Rightarrow> level list \<Rightarrow> bool" where
  "upper kss kl t D [] \<longleftrightarrow>
     D = [(None, root_node t)] \<and> map_option n_parent (nodes t (root_node t)) = Some NULL"
| "upper kss kl t D (E # U) \<longleftrightarrow>
     D = concat (map (expand t) E) \<and> (\<forall>e\<in>set E. int_ok kss kl t (snd e)) \<and> upper kss kl t E U"

definition ptrs :: "level \<Rightarrow> level list \<Rightarrow> ptr list" where
  "ptrs D U = map snd D @ map snd (concat U)"

definition ups :: "level list \<Rightarrow> ptr set" where
  "ups U = snd ` set (concat U)"

lemma ptrs_simps [simp]: "ptrs D [] = map snd D" "ptrs D (E # U) = map snd D @ ptrs E U"
  by (simp_all add: ptrs_def)

lemma ups_simps [simp]: "ups [] = {}" "ups (E # U) = snd ` set E \<union> ups U"
  by (auto simp: ups_def)

lemma set_ptrs: "set (ptrs D U) = snd ` set D \<union> ups U"
  by (simp add: ptrs_def ups_def)

lemma distinct_ptrs:
  "distinct (ptrs D U) \<longleftrightarrow> distinct (map snd D) \<and> distinct (map snd (concat U)) \<and> snd ` set D \<inter> ups U = {}"
  by (simp add: ptrs_def ups_def)

definition shape :: "nat \<Rightarrow> nat \<Rightarrow> array_tree \<Rightarrow> level \<Rightarrow> level list \<Rightarrow> bool" where
  "shape kss kl t D U \<longleftrightarrow>
     upper kss kl t D U \<and> sorted_keys D \<and> distinct (ptrs D U) \<and>
     (\<forall>p\<in>set (ptrs D U). 0 < p \<and> p < next_addr t) \<and>
     tree_key_length t = int kl \<and> tree_key_space_size t = kss \<and> 0 < kl \<and> 3 * kl \<le> kss"

lemma shapeD:
  assumes "shape kss kl t D U"
  shows "upper kss kl t D U" "sorted_keys D" "distinct (ptrs D U)"
    "\<And>p. p \<in> snd ` set D \<union> ups U \<Longrightarrow> 0 < p \<and> p < next_addr t"
    "tree_key_length t = int kl" "tree_key_space_size t = kss" "0 < kl" "3 * kl \<le> kss"
    "0 \<notin> snd ` set D \<union> ups U" "distinct (map snd D)" "snd ` set D \<inter> ups U = {}"
  using assms by (auto simp: shape_def distinct_ptrs set_ptrs)

lemma shape_ins:
  assumes "shape kss kl t D U" and "upper kss kl t' D' U" and "sorted_keys D'" "distinct (map snd D')"
    and "snd ` set D' = insert z (snd ` set D)" "z \<notin> ups U" "0 < z" "z < next_addr t'"
    and "next_addr t \<le> next_addr t'" "tree_key_length t' = tree_key_length t"
      "tree_key_space_size t' = tree_key_space_size t"
  shows "shape kss kl t' D' U"
  unfolding shape_def distinct_ptrs set_ptrs
proof (intro conjI ballI)
  show "snd ` set D' \<inter> ups U = {}" using shapeD(11) [OF assms(1)] assms(5,6) by auto
  show "distinct (map snd (concat U))" using shapeD(3) [OF assms(1)] by (simp add: distinct_ptrs)
  fix p assume "p \<in> snd ` set D' \<union> ups U"
  then have "p = z \<or> 0 < p \<and> p < next_addr t" using shapeD(4) [OF assms(1), of p] assms(5) by auto
  then show "0 < p" "p < next_addr t'" using assms(7,8,9) by auto
qed (use shapeD [OF assms(1)] assms in simp_all)

lemma int_ok_cong:
  assumes "map_option core (nodes t' q) = map_option core (nodes t q)"
    and "\<And>c. c \<in> set (kids t q) \<Longrightarrow> map_option n_parent (nodes t' c) = map_option n_parent (nodes t c)"
    and "int_ok kss kl t q"
  shows "int_ok kss kl t' q"
proof -
  note c = core_cong [OF assms(1)]
  obtain n where n: "nodes t q = Some n" "n_magic n = INTERNAL_NODE_MAGIC"
      "sa_rep kss kl (keys_with_right_children n) (seps t q)"
    using assms(3) by (auto simp: int_ok_def)
  with assms(1) obtain n' where "nodes t' q = Some n'" "core n' = core n" by auto
  with n show ?thesis using assms(2,3) c by (auto simp: int_ok_def core_def)
qed

lemma kids_expand: "c \<in> set (kids t (snd e)) \<longleftrightarrow> c \<in> snd ` set (expand t e)"
  by (metis list.set_map map_snd_expand)

lemma kids_level: "e \<in> set E \<Longrightarrow> set (kids t (snd e)) \<subseteq> snd ` set (concat (map (expand t) E))"
  by (force simp: kids_expand)

lemma level_kids:
  assumes "c \<in> snd ` set (concat (map (expand t) E))"
  obtains e where "e \<in> set E" and "c \<in> set (kids t (snd e))"
  using assms by (auto simp: kids_expand)

lemma upper_cong:
  assumes "upper kss kl t D U"
    and "\<And>x. x \<in> ups U \<Longrightarrow> map_option core (nodes t' x) = map_option core (nodes t x)"
    and "\<And>x. x \<in> snd ` set D \<union> ups U \<Longrightarrow> map_option n_parent (nodes t' x) = map_option n_parent (nodes t x)"
    and "root_node t' = root_node t"
  shows "upper kss kl t' D U"
  using assms
proof (induction U arbitrary: D)
  case (Cons E U)
  have core: "map_option core (nodes t' (snd e)) = map_option core (nodes t (snd e))" if "e \<in> set E" for e
    using Cons.prems(2) that by auto
  have D: "D = concat (map (expand t) E)" using Cons.prems(1) by simp
  have exp: "expand t' e = expand t e" if "e \<in> set E" for e
    using core_cong(4) [OF core [OF that], of "fst e"] by simp
  have "int_ok kss kl t' (snd e)" if e: "e \<in> set E" for e
  proof (rule int_ok_cong [OF core [OF e]])
    show "int_ok kss kl t (snd e)" using Cons.prems(1) e by simp
    fix c assume "c \<in> set (kids t (snd e))"
    then have "c \<in> snd ` set D" using kids_level [OF e, of t] D by blast
    then show "map_option n_parent (nodes t' c) = map_option n_parent (nodes t c)"
      using Cons.prems(3) by blast
  qed
  moreover have "upper kss kl t' E U"
    by (rule Cons.IH) (use Cons.prems in \<open>auto simp del: set_concat\<close>)
  moreover have "concat (map (expand t') E) = D" using D exp by (metis map_eq_conv)
  ultimately show ?case by simp
qed simp

lemma int_ok_par: "int_ok kss kl t q \<Longrightarrow> c \<in> set (kids t q) \<Longrightarrow> par t c = q \<and> nodes t c \<noteq> None"
  by (auto simp: int_ok_def par_def)

lemma upper_exists:
  assumes "upper kss kl t D U" and "c \<in> snd ` set D"
  shows "nodes t c \<noteq> None"
proof (cases U)
  case (Cons E U')
  with assms have "c \<in> snd ` set (concat (map (expand t) E))" by simp
  then obtain e where "e \<in> set E" "c \<in> set (kids t (snd e))" by (rule level_kids)
  with Cons assms(1) show ?thesis using int_ok_par by (metis upper.simps(2))
qed (use assms in auto)

text \<open>Each node is a child of its parent, and of no other node.\<close>

lemma upper_parent:
  assumes "upper kss kl t D U" and "c \<in> snd ` set D \<union> ups U"
  shows "c = root_node t \<and> par t c = 0 \<or> par t c \<in> ups U \<and> c \<in> set (kids t (par t c))"
  using assms
proof (induction U arbitrary: D)
  case (Cons E U)
  show ?case
  proof (cases "c \<in> snd ` set D")
    case True
    with Cons.prems have "c \<in> snd ` set (concat (map (expand t) E))" by simp
    then obtain e where e: "e \<in> set E" "c \<in> set (kids t (snd e))" by (rule level_kids)
    moreover from this Cons.prems(1) have "par t c = snd e" using int_ok_par by (metis upper.simps(2))
    ultimately show ?thesis by auto
  next
    case False
    with Cons.prems have "c \<in> snd ` set E \<union> ups U" by simp
    with Cons.IH [of E] Cons.prems(1) show ?thesis by auto
  qed
qed (auto simp: par_def)

lemma upper_int_ok: "upper kss kl t D U \<Longrightarrow> q \<in> ups U \<Longrightarrow> int_ok kss kl t q"
  by (induction U arbitrary: D) auto

lemma upper_kids:
  assumes "upper kss kl t D U" and "q \<in> ups U"
  shows "set (kids t q) \<subseteq> snd ` set D \<union> ups U"
  using assms
proof (induction U arbitrary: D)
  case (Cons E U)
  show ?case
  proof (cases "q \<in> snd ` set E")
    case True
    then show ?thesis using Cons.prems(1) kids_level [of _ E t] by auto
  next
    case False
    with Cons.prems have "q \<in> ups U" by simp
    with Cons.IH [of E] Cons.prems(1) show ?thesis by auto
  qed
qed simp

lemma upper_kids_distinct:
  assumes "upper kss kl t D U" and "distinct (ptrs D U)" and "q \<in> ups U"
  shows "distinct (kids t q)"
  using assms
proof (induction U arbitrary: D)
  case (Cons E U)
  show ?case
  proof (cases "q \<in> snd ` set E")
    case True
    then obtain e where e: "e \<in> set E" "q = snd e" by auto
    have "distinct (concat (map (kids t \<circ> snd) E))"
      using Cons.prems(1,2) by (simp add: map_concat comp_def)
    with e show ?thesis by (auto simp: distinct_concat_iff)
  next
    case False
    with Cons.prems have "q \<in> ups U" by simp
    with Cons.IH [of E] Cons.prems show ?thesis by auto
  qed
qed simp


section \<open>Following parent pointers\<close>

inductive reach :: "array_tree \<Rightarrow> ptr set \<Rightarrow> ptr \<Rightarrow> ptr \<Rightarrow> bool" for t S f where
  reach_fence: "reach t S f f"
| reach_step: "x \<in> S \<Longrightarrow> nodes t x \<noteq> None \<Longrightarrow> reach t S f (par t x) \<Longrightarrow> reach t S f x"

lemma reach_cong:
  assumes "reach t S f x" and "S \<subseteq> S'"
    and "\<And>y. y \<in> S \<Longrightarrow> map_option n_parent (nodes t' y) = map_option n_parent (nodes t y)"
  shows "reach t' S' f x"
  using assms(1)
proof induction
  case (reach_step x)
  have "par t' x = par t x" "nodes t' x \<noteq> None"
    using assms(3) [OF reach_step(1)] reach_step(2) by (auto simp: par_def split: option.splits)
  with reach_step assms(2) show ?case by (metis reach.reach_step subsetD)
qed (rule reach_fence)

lemma upper_reach_root:
  assumes "upper kss kl t D U" and "c \<in> snd ` set D"
  shows "reach t (snd ` set D \<union> ups U) 0 c"
  using assms
proof (induction U arbitrary: D c)
  case Nil
  then have "reach t (snd ` set D) 0 (par t c)" by (auto simp: par_def intro: reach_fence)
  with Nil show ?case by (auto intro: reach_step)
next
  case (Cons E U)
  from upper_exists [OF Cons.prems] have ex: "nodes t c \<noteq> None" .
  have "c \<in> snd ` set (concat (map (expand t) E))" using Cons.prems by simp
  then obtain e where e: "e \<in> set E" "c \<in> set (kids t (snd e))" by (rule level_kids)
  then have "par t c = snd e" using Cons.prems(1) int_ok_par by (metis upper.simps(2))
  moreover have "reach t (snd ` set E \<union> ups U) 0 (snd e)" using Cons.IH Cons.prems(1) e(1) by auto
  then have "reach t (snd ` set D \<union> ups (E # U)) 0 (snd e)" by (rule reach_cong) auto
  ultimately show ?case using ex Cons.prems(2) by (auto intro: reach_step)
qed

text \<open>A heap in which only the key counts of the nodes in a set have changed.\<close>

definition recount :: "ptr set \<Rightarrow> array_tree \<Rightarrow> array_tree \<Rightarrow> bool" where
  "recount S t t' \<longleftrightarrow>
     (\<exists>h. t' = t\<lparr>nodes := h\<rparr> \<and> (\<forall>y. y \<notin> S \<longrightarrow> h y = nodes t y) \<and>
        (\<forall>y. map_option (n_key_count_update (\<lambda>_. 0)) (h y) =
             map_option (n_key_count_update (\<lambda>_. 0)) (nodes t y)))"

lemma recount_refl [simp]: "recount S t t"
  unfolding recount_def by (rule exI [of _ "nodes t"]) simp

lemma recount_trans: "recount S t t' \<Longrightarrow> recount S t' t'' \<Longrightarrow> recount S t t''"
  unfolding recount_def by (metis (no_types, lifting) array_tree.ext_inject array_tree.surjective array_tree.update_convs(1))

lemma recount_same:
  assumes "recount S t t'"
  shows "root_node t' = root_node t" "next_addr t' = next_addr t" "tree_key_length t' = tree_key_length t"
    "tree_key_space_size t' = tree_key_space_size t" "tree_initialized t' = tree_initialized t"
    and "y \<notin> S \<Longrightarrow> nodes t' y = nodes t y"
  using assms by (auto simp: recount_def)

lemma recount_node:
  assumes "recount S t t'"
  shows "map_option core (nodes t' y) = map_option core (nodes t y)"
    "map_option n_parent (nodes t' y) = map_option n_parent (nodes t y)"
    "map_option n_magic (nodes t' y) = map_option n_magic (nodes t y)"
    "map_option keys_with_values (nodes t' y) = map_option keys_with_values (nodes t y)"
    "map_option n_next (nodes t' y) = map_option n_next (nodes t y)"
    "map_option n_prev (nodes t' y) = map_option n_prev (nodes t y)"
proof -
  have "map_option (n_key_count_update (\<lambda>_. 0)) (nodes t' y) =
      map_option (n_key_count_update (\<lambda>_. 0)) (nodes t y)"
    using assms by (auto simp: recount_def)
  then have *: "map_option (f \<circ> n_key_count_update (\<lambda>_. 0)) (nodes t' y) =
      map_option (f \<circ> n_key_count_update (\<lambda>_. 0)) (nodes t y)" for f :: "node \<Rightarrow> 'a"
    by (metis option.map_comp)
  show "map_option core (nodes t' y) = map_option core (nodes t y)"
  proof -
    have "core \<circ> n_key_count_update (\<lambda>_. 0) = core" by (rule ext) (simp add: core_def)
    with * [of core] show ?thesis by simp
  qed
  show "map_option n_parent (nodes t' y) = map_option n_parent (nodes t y)"
    using * [of n_parent] by (simp add: comp_def)
  show "map_option n_magic (nodes t' y) = map_option n_magic (nodes t y)"
    using * [of n_magic] by (simp add: comp_def)
  show "map_option keys_with_values (nodes t' y) = map_option keys_with_values (nodes t y)"
    using * [of keys_with_values] by (simp add: comp_def)
  show "map_option n_next (nodes t' y) = map_option n_next (nodes t y)"
    using * [of n_next] by (simp add: comp_def)
  show "map_option n_prev (nodes t' y) = map_option n_prev (nodes t y)"
    using * [of n_prev] by (simp add: comp_def)
qed

lemma recount_store:
  "nodes t x = Some n \<Longrightarrow> x \<in> S \<Longrightarrow> recount S t (store t x (n\<lparr>n_key_count := c\<rparr>))"
  unfolding recount_def store_def by (rule exI [of _ "(nodes t)(x \<mapsto> n\<lparr>n_key_count := c\<rparr>)"]) auto

lemma recount_upper: "recount S t t' \<Longrightarrow> upper kss kl t D U \<Longrightarrow> upper kss kl t' D U"
  by (rule upper_cong) (auto simp: recount_node recount_same)

lemma recount_kids: "recount S t t' \<Longrightarrow> kids t' q = kids t q"
  by (rule core_cong(3)) (rule recount_node)

lemma recount_par: "recount S t t' \<Longrightarrow> par t' q = par t q"
  by (rule par_eq) (rule recount_node)

lemma recount_exists: "recount S t t' \<Longrightarrow> nodes t' q = None \<longleftrightarrow> nodes t q = None"
  using recount_node(2) [of S t t' q] by (metis option.map_disc_iff)

section \<open>Key count propagation\<close>

lemma sum_list_upd_distinct:
  "distinct xs \<Longrightarrow> sum_list (map (f(x := f x + d)) xs) = sum_list (map f xs) + (if x \<in> set xs then d else (0::int))"
  by (induction xs) (auto simp: fun_upd_def)

lemma kcnt_store:
  "nodes t x = Some n \<Longrightarrow> kcnt (store t x (n\<lparr>n_key_count := n_key_count n + d\<rparr>)) = (kcnt t)(x := kcnt t x + d)"
  by (auto simp: kcnt_def store_def)

lemma defect_store:
  assumes up: "upper kss kl t D U" "distinct (ptrs D U)" "0 \<notin> ups U"
    and x: "nodes t x = Some n" "x \<in> snd ` set D \<union> ups U" and y: "y \<in> ups U"
  shows "defect (store t x (n\<lparr>n_key_count := n_key_count n + d\<rparr>)) y =
           defect t y + (if y = x then d else 0) - (if y = par t x then d else 0)"
proof -
  let ?t = "store t x (n\<lparr>n_key_count := n_key_count n + d\<rparr>)"
  have "recount {x} t ?t" using x(1) by (simp add: recount_store)
  then have k: "kids ?t y = kids t y" by (rule recount_kids)
  have "x \<in> set (kids t y) \<longleftrightarrow> y = par t x"
    using upper_parent [OF up(1) x(2)] int_ok_par [OF upper_int_ok [OF up(1) y], of x] y up(3) by auto
  then have "kidsum ?t y = kidsum t y + (if y = par t x then d else 0)"
    using sum_list_upd_distinct [OF upper_kids_distinct [OF up(1,2) y], of "kcnt t" x d]
    by (simp add: kidsum_def k kcnt_store [OF x(1)])
  then show ?thesis by (simp add: defect_def kcnt_store [OF x(1)])
qed

text \<open>
  Adding \<open>d\<close> along the path from \<open>x\<close> to below the fence \<open>f\<close> raises the defect of \<open>x\<close> by \<open>d\<close> and lowers
  that of \<open>f\<close>; every node in between keeps its defect.
\<close>

lemma propagate_increment_spec:
  assumes up: "upper kss kl t D U" "distinct (ptrs D U)" "0 \<notin> snd ` set D \<union> ups U"
    and S: "S \<subseteq> snd ` set D \<union> ups U" and r: "reach t S f x" and t0: "recount S t t0"
  shows "\<exists>t'. propagate_key_count_increment t0 x f d = Some t' \<and> recount S t0 t' \<and>
           (\<forall>y\<in>ups U. defect t' y = defect t0 y + (if y = x then d else 0) - (if y = f then d else 0)) \<and>
           (\<forall>y. y \<notin> ups U \<longrightarrow> kcnt t' y = kcnt t0 y + (if y = x \<and> x \<noteq> f then d else 0))"
  using r t0
proof (induction arbitrary: t0)
  case reach_fence
  show ?case by (subst propagate_key_count_increment.simps) auto
next
  case (reach_step x)
  show ?case
  proof (cases "x = f")
    case True
    then show ?thesis by (subst propagate_key_count_increment.simps) auto
  next
    case False
    obtain n where n: "nodes t0 x = Some n"
      using recount_exists [OF reach_step.prems, of x] reach_step.hyps(2) by auto
    define t1 where "t1 = store t0 x (n\<lparr>n_key_count := n_key_count n + d\<rparr>)"
    have r1: "recount S t0 t1" unfolding t1_def by (rule recount_store [OF n reach_step.hyps(1)])
    have u0: "upper kss kl t0 D U" by (rule recount_upper [OF reach_step.prems up(1)])
    have x: "x \<in> snd ` set D \<union> ups U" using reach_step.hyps(1) S by blast
    have z: "0 \<notin> ups U" using up(3) by blast
    have p: "par t0 x = par t x" by (rule recount_par [OF reach_step.prems])
    have d1: "defect t1 y = defect t0 y + (if y = x then d else 0) - (if y = par t x then d else 0)"
      if "y \<in> ups U" for y
      unfolding t1_def p [symmetric] by (rule defect_store [OF u0 up(2) z n x that])
    obtain t' where t': "propagate_key_count_increment t1 (par t x) f d = Some t'" "recount S t1 t'"
      "\<And>y. y \<in> ups U \<Longrightarrow> defect t' y = defect t1 y + (if y = par t x then d else 0) - (if y = f then d else 0)"
      "\<And>y. y \<notin> ups U \<Longrightarrow> kcnt t' y = kcnt t1 y + (if y = par t x \<and> par t x \<noteq> f then d else 0)"
      using reach_step.IH [OF recount_trans [OF reach_step.prems r1]] by blast
    have "propagate_key_count_increment t0 x f d = propagate_key_count_increment t1 (par t x) f d"
      using False n p
      by (subst propagate_key_count_increment.simps)
        (simp add: node_key_count_def set_key_count_def node_parent_def t1_def store_def par_def)
    moreover have "kcnt t' y = kcnt t0 y + (if y = x then d else 0)" if y: "y \<notin> ups U" for y
    proof -
      have "f = 0" if "par t x = 0"
        using reach_step.hyps(3) that S up(3) by (auto elim: reach.cases)
      then have "\<not> (y = par t x \<and> par t x \<noteq> f)"
        using upper_parent [OF up(1) x] y by auto
      then show ?thesis using t'(4) [OF y] by (cases "y = x") (auto simp: t1_def kcnt_store [OF n])
    qed
    ultimately show ?thesis
      using t' d1 recount_trans [OF r1 t'(2)] False by auto
  qed
qed

end
