(* ===== verification/Tree_Insert.thy ===== *)
theory Tree_Insert
  imports Tree_Shape
begin

text \<open>
  Insertion of a child into the internal levels of an array tree: putting a separator into a node
  with room, splitting a full node, and the recursion of \<^verbatim>\<open>put_to_internal_node\<close> towards the root
  together with the propagation of key counts that its callers run after it.
\<close>

section \<open>The node that serves a key\<close>

lemma sorted_levels: "sorted_keys (concat (map (expand t) E)) \<Longrightarrow> sorted_keys E"
proof (induction E)
  case (Cons e E)
  have "fst e < fst x" if "x \<in> set E" for x
  proof -
    have "(fst x, lchild t (snd x)) \<in> set (concat (map (expand t) E))"
      using that by (auto simp: expand_def)
    moreover have "\<forall>y\<in>set (concat (map (expand t) E)). fst e < fst y"
      using Cons.prems by (simp add: sorted_wrt_append expand_def)
    ultimately show ?thesis by force
  qed
  with Cons show ?case by (auto simp: sorted_wrt_append)
qed simp

lemma serving_bounds:
  fixes t :: array_tree
  assumes "sorted_keys (concat (map (expand t) (A @ (s, q) # B)))"
  shows "\<forall>e\<in>set (concat (map (expand t) A)). fst e < s"
    and "\<forall>e\<in>set B. k < fst e \<Longrightarrow> \<forall>e\<in>set (concat (map (expand t) B)). k < fst e"
    and "sorted_keys (expand t (s, q))"
proof -
  show "\<forall>e\<in>set (concat (map (expand t) A)). fst e < s"
    using assms by (auto simp: sorted_wrt_append expand_def)
  show "sorted_keys (expand t (s, q))"
    using assms by (simp add: sorted_wrt_append)
  assume B: "\<forall>e\<in>set B. k < fst e"
  have sB: "sorted_keys (expand t b)" if "b \<in> set B" for b
  proof -
    from split_list [OF that] obtain B1 B2 where "B = B1 @ b # B2" by blast
    then show ?thesis using assms by (simp add: sorted_wrt_append)
  qed
  have "k < fst e" if "b \<in> set B" "e \<in> set (expand t b)" for b e
  proof -
    have "fst b \<le> fst e" using sB [OF that(1)] that(2)
      by (auto simp: expand_def lift_sep_def less_imp_le)
    with B that(1) show ?thesis by (meson less_le_trans)
  qed
  then show "\<forall>e\<in>set (concat (map (expand t) B)). k < fst e" by auto
qed

lemma ord_put_level:
  assumes sorted: "sorted_keys (concat (map (expand t) (A @ (s, q) # B)))"
    and k: "s < Some k" "\<forall>e\<in>set B. Some k < fst e"
  shows "ord_put (Some k) z (concat (map (expand t) (A @ (s, q) # B))) =
           concat (map (expand t) A) @ ((s, lchild t q) # lift_sep (ord_put k z (seps t q))) @
           concat (map (expand t) B)"
proof -
  have "\<forall>e\<in>set (concat (map (expand t) A)). fst e < Some k"
    using serving_bounds(1) [OF sorted] k(1) less_trans by blast
  from ord_put_segment [OF this serving_bounds(2) [OF sorted k(2)], of z "expand t (s, q)"]
  show ?thesis using ord_put_lift [OF k(1)] by (simp add: expand_fst)
qed

lemma sum_list_ord_put:
  fixes g :: "_ \<Rightarrow> int"
  assumes "k \<notin> fst ` set es"
  shows "sum_list (map g (ord_put k z es)) = sum_list (map g es) + g (k, z)"
proof -
  have "sum_list (map g (filter (\<lambda>e. fst e < k) es)) + sum_list (map g (filter (\<lambda>e. k < fst e) es)) =
      sum_list (map g es)"
    using assms by (induction es) (auto simp: not_less_iff_gr_or_eq)
  then show ?thesis by (simp add: ord_put_def)
qed

lemma distinct_snd_ord_put:
  assumes "distinct (map snd es)" and "z \<notin> snd ` set es"
  shows "distinct (map snd (ord_put k z es))"
proof -
  have "distinct (map snd (filter (\<lambda>e. fst e < k) es))" "distinct (map snd (filter (\<lambda>e. k < fst e) es))"
    using assms(1) by (simp_all add: distinct_map_filter)
  moreover have "snd x \<noteq> snd y" if "x \<in> set es" "y \<in> set es" "fst x < k" "k < fst y" for x y
    using assms(1) that by (metis distinct_map inj_onD less_asym)
  ultimately show ?thesis using assms(2) by (auto simp: ord_put_def)
qed

section \<open>Putting a child into a node with room\<close>

lemma internal_put_eq:
  assumes "nodes t q = Some n" "n_magic n = INTERNAL_NODE_MAGIC" "q \<noteq> z" "nodes t z = Some nz"
    and "sa_put (keys_with_right_children n) k z = Some sa"
  shows "internal_put t q k z =
     Some (t\<lparr>nodes := (nodes t)(q \<mapsto> n\<lparr>keys_with_right_children := sa\<rparr>, z \<mapsto> nz\<lparr>n_parent := q\<rparr>)\<rparr>)"
  using assms by (simp add: internal_put_def internal_at_def set_parent_def store_def)

lemma internal_put_spec:
  assumes sh: "shape kss kl t D (E # U)" and E: "E = A @ (s, q) # B"
    and k: "s < Some k" "\<forall>e\<in>set B. Some k < fst e" "length k = kl" "Some k \<notin> fst ` set D"
    and z: "nodes t z \<noteq> None" "z \<notin> set (ptrs D (E # U))" "0 < z" "z < next_addr t"
    and room: "length (seps t q) * kl + kl \<le> kss"
  shows "\<exists>h. internal_put t q k z = Some (t\<lparr>nodes := h\<rparr>) \<and>
           shape kss kl (t\<lparr>nodes := h\<rparr>) (ord_put (Some k) z D) (E # U) \<and>
           (\<forall>x. x \<noteq> q \<longrightarrow> x \<noteq> z \<longrightarrow> h x = nodes t x) \<and>
           map_option n_parent (h q) = map_option n_parent (nodes t q) \<and>
           h z = map_option (n_parent_update (\<lambda>_. q)) (nodes t z) \<and>
           kcnt (t\<lparr>nodes := h\<rparr>) = kcnt t \<and> set (kids (t\<lparr>nodes := h\<rparr>) q) = insert z (set (kids t q)) \<and>
           kidsum (t\<lparr>nodes := h\<rparr>) q = kidsum t q + kcnt t z"
proof -
  note sh' = sh [unfolded shape_def]
  have D: "D = concat (map (expand t) E)" and sD: "sorted_keys D" using sh' by auto
  have qE: "(s, q) \<in> set E" using E by simp
  then have q: "q \<in> set (ptrs D (E # U))" by (force simp: set_ptrs)
  with z(2) have qz: "q \<noteq> z" by blast
  have ok: "int_ok kss kl t q" using sh' qE by auto
  then obtain n where n: "nodes t q = Some n" "n_magic n = INTERNAL_NODE_MAGIC"
      and rep: "sa_rep kss kl (keys_with_right_children n) (seps t q)"
    by (auto simp: int_ok_def)
  obtain nz where nz: "nodes t z = Some nz" using z(1) by auto
  have "\<not> sa_is_full (keys_with_right_children n)" using room by (simp add: sa_is_full_iff [OF rep] not_less)
  then obtain sa where sa: "sa_put (keys_with_right_children n) k z = Some sa"
      "sa_rep kss kl sa (ord_put k z (seps t q))"
    using sa_put_spec [OF rep k(3)] by blast
  define h where "h = (nodes t)(q \<mapsto> n\<lparr>keys_with_right_children := sa\<rparr>, z \<mapsto> nz\<lparr>n_parent := q\<rparr>)"
  let ?t = "t\<lparr>nodes := h\<rparr>"
  have put: "internal_put t q k z = Some ?t"
    using internal_put_eq [OF n qz nz sa(1)] by (simp add: h_def)
  have core: "map_option core (nodes ?t x) = map_option core (nodes t x)" if "x \<noteq> q" for x
    using that nz qz by (simp add: h_def core_def)
  have parent: "map_option n_parent (nodes ?t x) = map_option n_parent (nodes t x)" if "x \<noteq> z" for x
    using that n by (simp add: h_def)
  have sq: "seps ?t q = ord_put k z (seps t q)" "lchild ?t q = lchild t q"
    using sa_rep_entries [OF sa(2)] qz n by (auto simp: seps_def lchild_def h_def)
  have kq: "k \<notin> fst ` set (seps t q)"
  proof
    assume "k \<in> fst ` set (seps t q)"
    then have "Some k \<in> fst ` set (expand t (s, q))" by (force simp: expand_fst lift_sep_def)
    then show False using k(4) D qE by force
  qed
  have kq': "set (kids ?t q) = insert z (set (kids t q))"
    using kq by (auto simp: kids_def sq set_ord_put)
  have cnt: "kcnt ?t = kcnt t" using n nz by (auto simp: kcnt_def h_def)
  have ks: "kidsum ?t q = kidsum t q + kcnt t z"
    using sum_list_ord_put [OF kq, of "kcnt t \<circ> snd" z] by (simp add: kidsum_def kids_def sq cnt)
  have dE: "distinct (map snd E)" using sh' by (simp add: distinct_ptrs)
  have AB: "snd e \<noteq> q" if "e \<in> set A \<union> set B" for e using dE that E by force
  have exp: "expand ?t e = expand t e" if "e \<in> set A \<union> set B" for e
    using core_cong(4) [OF core [OF AB [OF that]], of "fst e"] by simp
  have "int_ok kss kl ?t (snd e)" if e: "e \<in> set E" for e
  proof (cases "snd e = q")
    case True
    have "map_option n_parent (h c) = Some q" if "c \<in> set (kids t q)" "c \<noteq> z" for c
      using parent [OF that(2)] ok that(1) by (simp add: int_ok_def)
    moreover have "map_option n_parent (h z) = Some q" by (simp add: h_def)
    ultimately show ?thesis
      using True n sa(2) sq qz kq' by (auto simp: int_ok_def h_def)
  next
    case False
    show ?thesis
    proof (rule int_ok_cong [OF core [OF False]])
      show "int_ok kss kl t (snd e)" using sh' e by simp
      fix c assume "c \<in> set (kids t (snd e))"
      then have "c \<noteq> z" using z(2) kids_level [OF e, of t] D by (auto simp: set_ptrs)
      then show "map_option n_parent (nodes ?t c) = map_option n_parent (nodes t c)" by (rule parent)
    qed
  qed
  moreover have "upper kss kl ?t E U"
  proof (rule upper_cong)
    show "upper kss kl t E U" using sh' by simp
    have "snd ` set E \<inter> ups U = {}" using sh' by (simp add: distinct_ptrs)
    then have qU: "q \<notin> ups U" using qE by force
    show "map_option core (nodes ?t x) = map_option core (nodes t x)" if "x \<in> ups U" for x
      by (rule core) (use that qU in auto)
    show "map_option n_parent (nodes ?t x) = map_option n_parent (nodes t x)"
      if "x \<in> snd ` set E \<union> ups U" for x
      by (rule parent) (use that z(2) in \<open>auto simp: set_ptrs\<close>)
  qed simp
  moreover have "ord_put (Some k) z D = concat (map (expand ?t) E)"
  proof -
    have m: "map (expand ?t) A = map (expand t) A" "map (expand ?t) B = map (expand t) B" using exp by simp_all
    show ?thesis
      using ord_put_level [of t A s q B k z] sD k(1,2) E by (simp add: D expand_fst sq m del: map_eq_conv)
  qed
  ultimately have up: "upper kss kl ?t (ord_put (Some k) z D) (E # U)" by simp
  have set': "snd ` set (ord_put (Some k) z D) = insert z (snd ` set D)"
    using k(4) by (auto simp: set_ord_put image_iff)
  have "distinct (map snd (ord_put (Some k) z D))"
    by (rule distinct_snd_ord_put) (use shapeD(10) [OF sh] z(2) in \<open>auto simp: set_ptrs\<close>)
  then have "shape kss kl ?t (ord_put (Some k) z D) (E # U)"
    by (rule shape_ins [OF sh up ord_put_sorted [OF sD] _ set']) (use z in \<open>simp_all add: set_ptrs\<close>)
  then show ?thesis
    using put n nz qz cnt kq' ks by (auto simp: h_def)
qed

end
