(* ===== verification/Tree_Split.thy ===== *)
theory Tree_Split
  imports Tree_Insert
begin

text \<open>The split of a full internal node: what it does to the heap, and to the level the node is on.\<close>

section \<open>Counting the keys below the children\<close>

lemma take_kids: "take (Suc j) (kids t q) = lchild t q # map snd (take j (seps t q))"
  by (simp add: kids_def take_map)

lemma count_keys_loop_spec:
  assumes rep: "sa_rep kss kl sa es" and ex: "\<forall>c\<in>snd ` set es. nodes t c \<noteq> None \<and> 0 \<le> kcnt t c"
    and "i \<le> j" "j \<le> length es"
    and "0 \<le> acc" "acc + sum_list (map (kcnt t \<circ> snd) (take (j - i) (drop i es))) < 2 ^ 31"
  shows "count_keys_loop t sa (int i) (int j) acc =
           Some (acc + sum_list (map (kcnt t \<circ> snd) (take (j - i) (drop i es))))"
  using assms(3-)
proof (induction i arbitrary: acc rule: inc_induct)
  case base
  then show ?case by (simp add: count_keys_loop.simps)
next
  case (step i)
  from step have i: "i < length es" by simp
  let ?c = "snd (es ! i)"
  have "?c \<in> snd ` set es" using i by simp
  with ex have c: "node_key_count t ?c = Some (kcnt t ?c)" "0 \<le> kcnt t ?c"
    by (auto simp: node_key_count_def kcnt_def)
  have nn: "0 \<le> sum_list (map (kcnt t \<circ> snd) (take n (drop m es)))" for n m
    using ex by (intro sum_list_nonneg) (auto dest!: in_set_takeD in_set_dropD)
  have split: "take (j - i) (drop i es) = es ! i # take (j - Suc i) (drop (Suc i) es)"
    using i step.hyps by (metis Cons_nth_drop_Suc Suc_diff_Suc take_Suc_Cons)
  have "acc + kcnt t ?c < 2 ^ 31" using step.prems nn [of "j - Suc i" "Suc i"] by (simp add: split comp_def)
  then have "to_int32 (acc + kcnt t ?c) = acc + kcnt t ?c"
    using c(2) step.prems(2) by (intro to_int32_id) auto
  moreover have "count_keys_loop t sa (int (Suc i)) (int j) (acc + kcnt t ?c) =
      Some (acc + kcnt t ?c + sum_list (map (kcnt t \<circ> snd) (take (j - Suc i) (drop (Suc i) es))))"
    by (rule step.IH) (use step.prems c(2) in \<open>auto simp: split\<close>)
  ultimately show ?case
    using step.hyps sa_rep_data_at [OF rep i] c(1)
    by (subst count_keys_loop.simps) (simp add: split algebra_simps)
qed

definition int_sa :: "nat \<Rightarrow> nat \<Rightarrow> array_tree \<Rightarrow> ptr \<Rightarrow> bool" where
  "int_sa kss kl t q \<longleftrightarrow>
     (\<exists>n. nodes t q = Some n \<and> n_magic n = INTERNAL_NODE_MAGIC \<and>
        sa_rep kss kl (keys_with_right_children n) (seps t q)) \<and>
     (\<forall>c\<in>set (kids t q). nodes t c \<noteq> None)"

lemma int_ok_sa: "int_ok kss kl t q \<Longrightarrow> int_sa kss kl t q"
  using int_ok_par by (fastforce simp: int_ok_def int_sa_def)

lemma count_all_keys_before_position_spec:
  assumes ok: "int_sa kss kl t q" and nn: "\<forall>c\<in>set (kids t q). 0 \<le> kcnt t c" and "kidsum t q < 2 ^ 31"
    and r: "r \<le> Suc (length (seps t q))"
  shows "count_all_keys_before_position t q (int r - 1) = Some (sum_list (map (kcnt t) (take r (kids t q))))"
proof -
  obtain n where n: "internal_at t q = Some n" "sa_rep kss kl (keys_with_right_children n) (seps t q)"
      "n_left_child n = lchild t q"
    using ok by (auto simp: int_sa_def internal_at_def lchild_def)
  have ex: "nodes t c \<noteq> None" if "c \<in> set (kids t q)" for c using ok that by (simp add: int_sa_def)
  have le: "sum_list (map (kcnt t) (take m (kids t q))) \<le> kidsum t q" for m
  proof -
    have "0 \<le> sum_list (map (kcnt t) (drop m (kids t q)))"
      using nn by (intro sum_list_nonneg) (auto dest: in_set_dropD)
    then show ?thesis
      unfolding kidsum_def by (metis append_take_drop_id le_add_same_cancel1 map_append sum_list.append)
  qed
  show ?thesis
  proof (cases r)
    case 0
    then show ?thesis using n(1) by (simp add: count_all_keys_before_position_def count_keys_loop.simps)
  next
    case (Suc j)
    have l: "node_key_count t (lchild t q) = Some (kcnt t (lchild t q))" "0 \<le> kcnt t (lchild t q)"
      using ex [of "lchild t q"] nn by (auto simp: node_key_count_def kcnt_def kids_def)
    have "kcnt t (lchild t q) < 2 ^ 31" using le [of 1] assms(3) by (simp add: kids_def)
    then have "to_int32 (kcnt t (lchild t q)) = kcnt t (lchild t q)" using l(2) by (intro to_int32_id)
    moreover have "count_keys_loop t (keys_with_right_children n) (int 0) (int j) (kcnt t (lchild t q)) =
        Some (kcnt t (lchild t q) + sum_list (map (kcnt t \<circ> snd) (take (j - 0) (drop 0 (seps t q)))))"
      by (rule count_keys_loop_spec [OF n(2)])
        (use ex nn r Suc l(2) le [of r] assms(3) in \<open>auto simp: kids_def take_map\<close>)
    ultimately show ?thesis
      using n(1,3) l(1) Suc by (simp add: count_all_keys_before_position_def take_kids)
  qed
qed

lemma count_all_keys_in_leaf_nodes_spec:
  assumes ok: "int_sa kss kl t q" and nn: "\<forall>c\<in>set (kids t q). 0 \<le> kcnt t c" and lim: "kidsum t q < 2 ^ 31"
  shows "count_all_keys_in_leaf_nodes t q = Some (kidsum t q)"
proof -
  obtain n where n: "internal_at t q = Some n" "sa_rep kss kl (keys_with_right_children n) (seps t q)"
    using ok by (auto simp: int_sa_def internal_at_def)
  have "sa_key_count (keys_with_right_children n) = int (Suc (length (seps t q))) - 1"
    using sa_repD(5) [OF n(2)] by simp
  moreover have "take (Suc (length (seps t q))) (kids t q) = kids t q" by (simp add: kids_def)
  ultimately show ?thesis
    using count_all_keys_before_position_spec [OF ok nn lim order_refl] n(1)
    by (simp add: count_all_keys_in_leaf_nodes_def kidsum_def)
qed

section \<open>Moving children to the new node\<close>

definition reparent :: "ptr set \<Rightarrow> ptr \<Rightarrow> array_tree \<Rightarrow> array_tree" where
  "reparent C p t =
     t\<lparr>nodes := \<lambda>x. if x \<in> C then map_option (n_parent_update (\<lambda>_. p)) (nodes t x) else nodes t x\<rparr>"

lemma set_parent_reparent:
  "nodes t c \<noteq> None \<Longrightarrow> set_parent t c p = Some (reparent {c} p t)"
  by (auto simp: set_parent_def reparent_def store_def fun_eq_iff)

lemma reparent_reparent: "reparent C p (reparent C' p t) = reparent (C \<union> C') p t"
  by (auto simp: reparent_def fun_eq_iff option.map_comp comp_def)

lemma reparent_loop_spec:
  assumes rep: "sa_rep kss kl sa es" and ex: "\<forall>c\<in>snd ` set es. c \<noteq> 0 \<and> nodes t c \<noteq> None"
    and "i \<le> length es"
  shows "reparent_loop t sa (sa_at kl (int i)) p = Some (reparent (snd ` set (drop i es)) p t)"
  using assms(3,2)
proof (induction i arbitrary: t rule: inc_induct)
  case base
  then show ?case
    by (subst reparent_loop.simps) (simp add: iter_next_spec(2) [OF rep] reparent_def)
next
  case (step i)
  let ?c = "snd (es ! i)" and ?t = "reparent {snd (es ! i)} p t"
  have "?c \<in> snd ` set es" using step.hyps by simp
  then have c: "?c \<noteq> 0" "nodes t ?c \<noteq> None" using step.prems by auto
  have IH: "reparent_loop ?t sa (sa_at kl (int (Suc i))) p = Some (reparent (snd ` set (drop (Suc i) es)) p ?t)"
    by (rule step.IH) (use step.prems in \<open>auto simp: reparent_def\<close>)
  have "snd ` set (drop i es) = snd ` set (drop (Suc i) es) \<union> {?c}"
    using step.hyps by (simp flip: Cons_nth_drop_Suc)
  then have "reparent (snd ` set (drop (Suc i) es)) p ?t = reparent (snd ` set (drop i es)) p t"
    by (simp only: reparent_reparent)
  with IH c show ?case
    using iter_next_spec(1) [OF rep, of i] step.hyps set_parent_reparent [OF c(2)]
    by (subst reparent_loop.simps) (simp add: split_beta algebra_simps)
qed


section \<open>Splitting an internal node\<close>

text \<open>
  The heap after a split of \<open>q\<close> whose array was divided into \<open>left\<close> (less its last pair, whose child is
  \<open>m\<close>) and \<open>right\<close>, with the children in \<open>C\<close> moved to the new node and the two key counts set.
\<close>

definition split_nodes ::
    "array_tree \<Rightarrow> ptr \<Rightarrow> node \<Rightarrow> sorted_array \<Rightarrow> sorted_array \<Rightarrow> ptr \<Rightarrow> ptr set \<Rightarrow> int \<Rightarrow> int \<Rightarrow> ptr \<Rightarrow> node option" where
  "split_nodes t q n left right m C cl cr =
     (nodes (reparent C (next_addr t) t))
       (q \<mapsto> n\<lparr>keys_with_right_children := left, n_key_count := cl\<rparr>,
        next_addr t \<mapsto> \<lparr>n_key_count = cr, n_parent = NULL, n_magic = INTERNAL_NODE_MAGIC,
             keys_with_values = sa_new 0, n_next = NULL, n_prev = NULL,
             keys_with_right_children = right, n_left_child = m\<rparr>)"

abbreviation split_heap where
  "split_heap t q n left right m C cl cr \<equiv>
     t\<lparr>nodes := split_nodes t q n left right m C cl cr, next_addr := Suc (next_addr t)\<rparr>"

lemma split_heap_views:
  assumes "nodes t q = Some n" and "q \<noteq> next_addr t" "q \<notin> C"
  shows "lchild (split_heap t q n left right m C cl cr) q = lchild t q"
    "seps (split_heap t q n left right m C cl cr) q = sa_entries left"
    "lchild (split_heap t q n left right m C cl cr) (next_addr t) = m"
    "seps (split_heap t q n left right m C cl cr) (next_addr t) = sa_entries right"
    "kcnt (split_heap t q n left right m C cl cr) = (kcnt t)(q := cl, next_addr t := cr)"
    "x \<noteq> q \<Longrightarrow> x \<noteq> next_addr t \<Longrightarrow> x \<in> C \<Longrightarrow> split_nodes t q n left right m C cl cr x =
       map_option (n_parent_update (\<lambda>_. next_addr t)) (nodes t x)"
    "x \<noteq> q \<Longrightarrow> x \<noteq> next_addr t \<Longrightarrow> x \<notin> C \<Longrightarrow> split_nodes t q n left right m C cl cr x = nodes t x"
    "map_option n_parent (split_nodes t q n left right m C cl cr q) = map_option n_parent (nodes t q)"
    "map_option n_parent (split_nodes t q n left right m C cl cr (next_addr t)) = Some NULL"
  using assms
  by (auto simp: split_nodes_def reparent_def lchild_def seps_def kcnt_def fun_eq_iff split: option.split)

lemma split_set_key_count:
  "set_key_count (split_heap t q n left right m C cl cr) (next_addr t) c = Some (split_heap t q n left right m C cl c)"
  "q \<noteq> next_addr t \<Longrightarrow>
    set_key_count (split_heap t q n left right m C cl cr) q c = Some (split_heap t q n left right m C c cr)"
  by (simp_all add: set_key_count_def split_nodes_def store_def fun_upd_twist)

lemma split_count_right:
  assumes n: "nodes t q = Some n" "q \<noteq> next_addr t" "q \<notin> C" and rep: "sa_rep kss kl right rs"
    and ex: "\<forall>c\<in>insert m (snd ` set rs). nodes t c \<noteq> None \<and> c \<noteq> q \<and> c \<noteq> next_addr t \<and> 0 \<le> kcnt t c"
    and lim: "kcnt t m + sum_list (map (kcnt t \<circ> snd) rs) < 2 ^ 31"
  shows "count_all_keys_in_leaf_nodes (split_heap t q n left right m C cl cr) (next_addr t) =
           Some (kcnt t m + sum_list (map (kcnt t \<circ> snd) rs))"
proof -
  let ?t = "split_heap t q n left right m C cl cr"
  note v = split_heap_views [OF n, where left = left and right = right and m = m and cl = cl and cr = cr]
  have kids: "kids ?t (next_addr t) = m # map snd rs" using v(3,4) sa_rep_entries [OF rep] by (simp add: kids_def)
  have cnt: "kcnt ?t c = kcnt t c" if "c \<in> insert m (snd ` set rs)" for c using ex that v(5) by auto
  have sum: "kidsum ?t (next_addr t) = kcnt t m + sum_list (map (kcnt t \<circ> snd) rs)"
    using cnt by (simp add: kidsum_def kids cong: map_cong)
  have "split_nodes t q n left right m C cl cr c \<noteq> None" if "c \<in> insert m (snd ` set rs)" for c
    using ex that v(6,7) [of c] by (cases "c \<in> C") auto
  moreover have "\<exists>n'. split_nodes t q n left right m C cl cr (next_addr t) = Some n' \<and>
      n_magic n' = INTERNAL_NODE_MAGIC \<and> keys_with_right_children n' = right"
    by (simp add: split_nodes_def)
  moreover have "seps ?t (next_addr t) = rs" using v(4) sa_rep_entries [OF rep] by simp
  ultimately have "int_sa kss kl ?t (next_addr t)"
    using rep by (auto simp: int_sa_def kids)
  from count_all_keys_in_leaf_nodes_spec [OF this] show ?thesis using kids cnt ex lim sum by auto
qed

lemma split_count_left:
  assumes n: "nodes t q = Some n" "q \<noteq> next_addr t" "q \<notin> C" "n_magic n = INTERNAL_NODE_MAGIC"
    and rep: "sa_rep kss kl left ls"
    and ex: "\<forall>c\<in>insert (n_left_child n) (snd ` set ls). nodes t c \<noteq> None \<and> c \<noteq> q \<and> c \<noteq> next_addr t \<and> 0 \<le> kcnt t c"
    and lim: "kcnt t (n_left_child n) + sum_list (map (kcnt t \<circ> snd) ls) < 2 ^ 31"
  shows "count_all_keys_in_leaf_nodes (split_heap t q n left right m C cl cr) q =
           Some (kcnt t (n_left_child n) + sum_list (map (kcnt t \<circ> snd) ls))"
proof -
  let ?t = "split_heap t q n left right m C cl cr" and ?l = "n_left_child n"
  note v = split_heap_views [OF n(1-3), where left = left and right = right and m = m and cl = cl and cr = cr]
  have "lchild t q = ?l" using n(1) by (simp add: lchild_def)
  then have kids: "kids ?t q = ?l # map snd ls" using v(1,2) sa_rep_entries [OF rep] by (simp add: kids_def)
  have cnt: "kcnt ?t c = kcnt t c" if "c \<in> insert ?l (snd ` set ls)" for c using ex that v(5) by auto
  have sum: "kidsum ?t q = kcnt t ?l + sum_list (map (kcnt t \<circ> snd) ls)"
    using cnt by (simp add: kidsum_def kids cong: map_cong)
  have "split_nodes t q n left right m C cl cr c \<noteq> None" if "c \<in> insert ?l (snd ` set ls)" for c
    using ex that v(6,7) [of c] by (cases "c \<in> C") auto
  moreover have "\<exists>n'. split_nodes t q n left right m C cl cr q = Some n' \<and>
      n_magic n' = INTERNAL_NODE_MAGIC \<and> keys_with_right_children n' = left"
    using n by (simp add: split_nodes_def)
  moreover have "seps ?t q = ls" using v(2) sa_rep_entries [OF rep] by simp
  ultimately have "int_sa kss kl ?t q"
    using rep by (auto simp: int_sa_def kids)
  from count_all_keys_in_leaf_nodes_spec [OF this] show ?thesis using kids cnt ex lim sum by auto
qed

text \<open>The first part of \<^verbatim>\<open>split\<close>, up to the recount.\<close>

lemma internal_split_eval:
  assumes n: "nodes t q = Some n" "n_magic n = INTERNAL_NODE_MAGIC" "q < next_addr t"
    and rep: "sa_rep kss kl (keys_with_right_children n) es" "3 \<le> length es" "tree_key_space_size t = kss"
    and ok: "\<forall>c\<in>insert (n_left_child n) (snd ` set es).
              c \<noteq> 0 \<and> nodes t c \<noteq> None \<and> c \<noteq> q \<and> c < next_addr t \<and> 0 \<le> kcnt t c"
    and lim: "kcnt t (n_left_child n) + sum_list (map (kcnt t \<circ> snd) es) < 2 ^ 31"
    and es: "es = ls @ (mk, m) # rs" "length rs = length es div 2"
  shows "\<exists>left right. sa_rep kss kl left ls \<and> sa_rep kss kl right rs \<and>
     internal_split t q =
       Some (next_addr t, mk,
         split_heap t q n left right m (insert m (snd ` set rs))
           (kcnt t (n_left_child n) + sum_list (map (kcnt t \<circ> snd) ls))
           (kcnt t m + sum_list (map (kcnt t \<circ> snd) rs)))"
proof -
  let ?p = "next_addr t" and ?C = "insert m (snd ` set rs)"
  let ?N = "\<lambda>sa l. \<lparr>n_key_count = 0, n_parent = NULL, n_magic = INTERNAL_NODE_MAGIC,
             keys_with_values = sa_new 0, n_next = NULL, n_prev = NULL,
             keys_with_right_children = sa, n_left_child = l\<rparr>"
  have kl: "0 < kl" "sa_key_length (keys_with_right_children n) = int kl" using sa_repD [OF rep(1)] by auto
  obtain sa0 where sa0: "sa_init (sa_new kss) (int kl) = Some sa0" "sa_rep kss kl sa0 []"
    using sa_init_rep [OF kl(1)] by blast
  have h: "take (length es - length es div 2) es = ls @ [(mk, m)]" "drop (length es - length es div 2) es = rs"
    using es by auto
  obtain left0 right where sp: "sa_split (keys_with_right_children n) sa0 = Some (left0, right)"
      "sa_rep kss kl left0 (ls @ [(mk, m)])" "sa_rep kss kl right rs"
    using sa_split_spec [OF rep(1) sa0(2)] h by auto
  obtain left where rm: "remove_max_key left0 = Some (Some (mk, m), left)" "sa_rep kss kl left ls"
    using remove_max_key_spec [OF sp(2)] by auto
  have qp: "q \<noteq> ?p" using n(3) by simp
  have C: "c \<noteq> 0" "nodes t c \<noteq> None" "c \<noteq> q" "c \<noteq> ?p" "0 \<le> kcnt t c" if "c \<in> ?C" for c
    using ok that es(1) by force+
  have ex: "\<forall>c\<in>?C. nodes t c \<noteq> None \<and> c \<noteq> q \<and> c \<noteq> ?p \<and> 0 \<le> kcnt t c" using C by simp
  have exl: "\<forall>c\<in>insert (n_left_child n) (snd ` set ls). nodes t c \<noteq> None \<and> c \<noteq> q \<and> c \<noteq> ?p \<and> 0 \<le> kcnt t c"
    using ok es(1) by force
  have qC: "q \<notin> ?C" "?p \<notin> ?C" using C by blast+
  have pos: "0 \<le> sum_list (map (kcnt t \<circ> snd) rs)" "0 \<le> sum_list (map (kcnt t \<circ> snd) ls)"
    using ex exl by (auto intro!: sum_list_nonneg)
  have lims: "kcnt t m + sum_list (map (kcnt t \<circ> snd) rs) < 2 ^ 31"
      "kcnt t (n_left_child n) + sum_list (map (kcnt t \<circ> snd) ls) < 2 ^ 31"
    using lim pos ex exl es(1) by auto
  define t1 where "t1 = t\<lparr>nodes := (nodes t)(?p \<mapsto> ?N sa0 0), next_addr := Suc ?p\<rparr>"
  define t2 where "t2 = t\<lparr>nodes := (nodes t)(?p \<mapsto> ?N right 0, q \<mapsto> n\<lparr>keys_with_right_children := left0\<rparr>),
      next_addr := Suc ?p\<rparr>"
  define t3 where "t3 = reparent (snd ` set rs) ?p t2"
  define t4 where "t4 = store t3 q (n\<lparr>keys_with_right_children := left\<rparr>)"
  have s1: "new_internal_node t (int kl) = Some (?p, t1)" "internal_at t1 ?p = Some (?N sa0 0)"
    using sa0(1) rep(3) by (simp_all add: new_internal_node_def t1_def store_def internal_at_def Let_def)
  have s2: "store (store t1 q (n\<lparr>keys_with_right_children := left0\<rparr>)) ?p (?N right 0) = t2"
    using qp by (simp add: t1_def t2_def store_def fun_upd_twist)
  have "reparent_loop t2 right (sa_at kl (int 0)) ?p = Some (reparent (snd ` set (drop 0 rs)) ?p t2)"
    by (rule reparent_loop_spec [OF sp(3)]) (use C in \<open>auto simp: t2_def\<close>)
  then have s3: "reparent_loop t2 right (sa_iter_forward right) ?p = Some t3"
    by (simp add: sa_iter_order_spec(3) [OF sp(3)] t3_def)
  have s4: "internal_at t3 q = Some (n\<lparr>keys_with_right_children := left0\<rparr>)"
    using n(1,2) qC by (simp add: internal_at_def t3_def reparent_def t2_def)
  have at4: "internal_at t4 ?p = Some (?N right 0)"
    using qC qp by (simp add: internal_at_def t4_def t3_def reparent_def t2_def store_def)
  have "set_left_child t4 ?p m = Some (reparent {m} ?p (store t4 ?p (?N right m)))"
    using C [of m] by (simp add: set_left_child_def at4)
      (subst set_parent_reparent, auto simp: t4_def t3_def t2_def reparent_def store_def)
  also have "reparent {m} ?p (store t4 ?p (?N right m)) = split_heap t q n left right m ?C (n_key_count n) 0"
    using qC qp C(4)
    by (auto simp: t4_def t3_def t2_def reparent_def store_def split_nodes_def fun_eq_iff option.map_comp comp_def)
  finally have s5: "set_left_child t4 ?p m = Some (split_heap t q n left right m ?C (n_key_count n) 0)" .
  have cnt: "0 < sa_key_count left" using sa_repD(5) [OF rm(2)] es rep(2) by auto
  note r = split_count_right [OF n(1) qp qC(1) sp(3) ex lims(1)]
  note l = split_count_left [OF n(1) qp qC(1) n(2) rm(2) exl lims(2)]
  have "internal_split t q = Some (?p, mk, split_heap t q n left right m ?C
      (kcnt t (n_left_child n) + sum_list (map (kcnt t \<circ> snd) ls))
      (kcnt t m + sum_list (map (kcnt t \<circ> snd) rs)))"
    using n(1,2) kl(2) s1 sp(1) s2 s3 s4 rm(1) cnt s5 [unfolded t4_def] qp
    by (simp add: internal_split_def internal_at_def [of t q] split_set_key_count r l Let_def)
  then show ?thesis using rm(2) sp(3) by blast
qed

section \<open>The split seen on levels\<close>


lemma full_length:
  assumes "kss < n * kl + kl" and "3 * kl \<le> (kss :: nat)"
  shows "3 \<le> n"
proof -
  have "(n + 1) * kl = n * kl + kl" by simp
  then have "3 * kl < (n + 1) * kl" using assms by linarith
  then have "3 < n + 1" by (simp only: mult_less_cancel2)
  then show ?thesis by simp
qed

lemma split_middle:
  assumes "3 \<le> length (es :: entries)"
  obtains ls mk m rs where "es = ls @ (mk, m) # rs" "length rs = length es div 2"
proof -
  let ?h = "length es - length es div 2"
  have h: "?h - 1 < length es" "Suc (?h - 1) = ?h" using assms by auto
  have "es = take (?h - 1) es @ es ! (?h - 1) # drop (Suc (?h - 1)) es" using h(1) by (rule id_take_nth_drop)
  moreover have "length (drop (Suc (?h - 1)) es) = length es div 2" using h(2) by auto
  ultimately show ?thesis using that by (metis prod.collapse)
qed

lemma level_sum:
  "sum_list (map (kcnt t \<circ> snd) (concat (map (expand t) E))) = sum_list (map (kidsum t \<circ> snd) E)"
proof (induction E)
  case (Cons e E)
  have "sum_list (map (kcnt t \<circ> snd) (expand t e)) = kidsum t (snd e)"
    by (metis kidsum_def map_map map_snd_expand)
  with Cons show ?case by (simp add: comp_def)
qed simp

lemma level_kidsum:
  assumes "\<forall>c\<in>snd ` set (concat (map (expand t) E)). 0 \<le> kcnt t c" and "e \<in> set E"
  shows "kidsum t (snd e) \<le> sum_list (map (kcnt t \<circ> snd) (concat (map (expand t) E)))"
    and "0 \<le> kidsum t (snd e)"
proof -
  have nn: "0 \<le> kidsum t (snd x)" if "x \<in> set E" for x
    unfolding kidsum_def using kids_level [OF that, of t] assms(1) by (intro sum_list_nonneg) auto
  show "0 \<le> kidsum t (snd e)" using nn assms(2) .
  have "kidsum t (snd e) \<le> sum_list (map (kidsum t \<circ> snd) E)"
    by (rule member_le_sum_list) (use nn assms(2) in auto)
  then show "kidsum t (snd e) \<le> sum_list (map (kcnt t \<circ> snd) (concat (map (expand t) E)))"
    by (simp only: level_sum)
qed

text \<open>The level of a split node, seen from the level below and from the levels above.\<close>

definition split_result ::
    "nat \<Rightarrow> nat \<Rightarrow> array_tree \<Rightarrow> level \<Rightarrow> level \<Rightarrow> level list \<Rightarrow> ptr \<Rightarrow> key \<Rightarrow> array_tree \<Rightarrow> level \<Rightarrow> bool" where
  "split_result kss kl t D E U q m t1 E1 \<longleftrightarrow>
     D = concat (map (expand t1) E1) \<and> (\<forall>e\<in>set E1. int_ok kss kl t1 (snd e)) \<and> shape kss kl t1 E U \<and>
     sorted_keys E1 \<and> length m = kl \<and> Some m \<in> fst ` set D \<and>
     length (seps t1 q) * kl + kl \<le> kss \<and> length (seps t1 (next_addr t)) * kl + kl \<le> kss \<and>
     next_addr t1 = Suc (next_addr t) \<and> root_node t1 = root_node t \<and> tree_initialized t1 = tree_initialized t \<and>
     (\<forall>x. x \<notin> snd ` set D \<longrightarrow> x \<noteq> q \<longrightarrow> x \<noteq> next_addr t \<longrightarrow> nodes t1 x = nodes t x) \<and>
     (\<forall>x\<in>snd ` set D. \<exists>p. nodes t1 x = map_option (n_parent_update (\<lambda>_. p)) (nodes t x)) \<and>
     nodes t1 (next_addr t) \<noteq> None \<and>
     (\<forall>x. x \<noteq> q \<longrightarrow> x \<noteq> next_addr t \<longrightarrow> kcnt t1 x = kcnt t x) \<and>
     defect t1 q = 0 \<and> defect t1 (next_addr t) = 0 \<and> kcnt t1 q + kcnt t1 (next_addr t) = kidsum t q \<and>
     (\<forall>x\<in>ups U. defect t1 x = defect t x + (if x = par t q then kcnt t q - kcnt t1 q else 0)) \<and>
     set (kids t1 q) \<union> set (kids t1 (next_addr t)) = set (kids t q)"

text \<open>The same facts for the heap after the split, one group at a time.\<close>

lemma split_heap_level:
  assumes n: "nodes t q = Some n" "n_magic n = INTERNAL_NODE_MAGIC" "q \<noteq> next_addr t" "q \<notin> C"
    and ok: "\<forall>c\<in>set (kids t q). map_option n_parent (nodes t c) = Some q \<and> c \<noteq> q \<and> c \<noteq> next_addr t"
    and es: "seps t q = ls @ (mk, m) # rs" "distinct (kids t q)" "C = insert m (snd ` set rs)"
    and rep: "sa_rep kss kl left ls" "sa_rep kss kl right rs"
    and t1: "t1 = split_heap t q n left right m C cl cr"
  shows "expand t (s, q) = expand t1 (s, q) @ expand t1 (Some mk, next_addr t)"
    and "int_ok kss kl t1 q" and "int_ok kss kl t1 (next_addr t)"
    and "seps t1 q = ls" "seps t1 (next_addr t) = rs"
    and "kids t q = kids t1 q @ kids t1 (next_addr t)"
proof -
  note v = split_heap_views [OF n(1,3,4), where left = left and right = right and m = m and cl = cl and cr = cr,
      folded t1]
  show s: "seps t1 q = ls" "seps t1 (next_addr t) = rs"
    using v(2,4) rep by (auto simp: sa_rep_entries)
  show "expand t (s, q) = expand t1 (s, q) @ expand t1 (Some mk, next_addr t)"
    by (simp add: expand_fst s v es(1))
  show k: "kids t q = kids t1 q @ kids t1 (next_addr t)"
    by (simp add: kids_def s v es(1))
  have kids': "set (kids t1 (next_addr t)) = C" by (simp add: kids_def s v es(3))
  have disj: "set (kids t1 q) \<inter> C = {}" using es(2) kids' by (simp add: k)
  have "map_option n_parent (nodes t1 c) = Some q" if c: "c \<in> set (kids t1 q)" for c
  proof -
    have "c \<notin> C" "c \<in> set (kids t q)" using disj c k by auto
    with ok v(7) [of c] show ?thesis by (simp add: t1)
  qed
  moreover have "map_option n_parent (nodes t1 c) = Some (next_addr t)" if c: "c \<in> C" for c
  proof -
    have "c \<in> set (kids t q)" using kids' c k by simp
    with ok v(6) [of c] c show ?thesis by (auto simp: t1)
  qed
  ultimately show "int_ok kss kl t1 q" "int_ok kss kl t1 (next_addr t)"
    using rep n by (auto simp: int_ok_def kids' s) (auto simp: t1 split_nodes_def)
qed


lemma shape_tail:
  assumes "shape kss kl t D (E # U)"
  shows "shape kss kl t E U"
proof -
  have "sorted_keys E" using shapeD(1,2) [OF assms] sorted_levels by auto
  then show ?thesis using assms by (simp add: shape_def)
qed

lemma shape_upd:
  assumes "shape kss kl t D U" and "upper kss kl t' D U" and "next_addr t \<le> next_addr t'"
    and "tree_key_length t' = tree_key_length t" "tree_key_space_size t' = tree_key_space_size t"
  shows "shape kss kl t' D U"
  unfolding shape_def set_ptrs
proof (intro conjI ballI)
  fix p assume "p \<in> snd ` set D \<union> ups U"
  from shapeD(4) [OF assms(1) this] assms(3) show "0 < p" "p < next_addr t'" by auto
qed (use shapeD [OF assms(1)] assms in simp_all)

lemma split_defect:
  assumes up: "upper kss kl t E U" "distinct (ptrs E U)" "0 \<notin> ups U" and x: "x \<in> ups U"
    and q: "q \<in> snd ` set E" "q' \<notin> snd ` set E \<union> ups U"
    and cnt: "kcnt t1 = (kcnt t)(q := c, q' := d)" and kids: "kids t1 x = kids t x"
  shows "defect t1 x = defect t x + (if x = par t q then kcnt t q - c else 0)"
proof -
  have k: "q' \<notin> set (kids t x)" using upper_kids [OF up(1) x] q(2) by blast
  have "q \<in> set (kids t x) \<longleftrightarrow> x = par t q"
    using upper_parent [OF up(1), of q] int_ok_par [OF upper_int_ok [OF up(1) x], of q] x up(3) q(1) by auto
  then have "kidsum t1 x = kidsum t x + (if x = par t q then c - kcnt t q else 0)"
    using sum_list_upd_distinct [OF upper_kids_distinct [OF up(1,2) x], of "kcnt t" q "c - kcnt t q"] k
    by (simp add: kidsum_def kids cnt map_fun_upd)
  moreover have "kcnt t1 x = kcnt t x" using cnt x q up(2) by (auto simp: distinct_ptrs)
  ultimately show ?thesis by (simp add: defect_def)
qed

lemma internal_split_spec:
  assumes sh: "shape kss kl t D (E # U)" and E: "E = A @ (s, q) # B"
    and full: "kss < length (seps t q) * kl + kl"
    and nn: "\<forall>c\<in>snd ` set D. 0 \<le> kcnt t c" and lim: "sum_list (map (kcnt t \<circ> snd) D) < 2 ^ 31"
  shows "\<exists>m t1. internal_split t q = Some (next_addr t, m, t1) \<and>
           split_result kss kl t D E U q m t1 (A @ (s, q) # (Some m, next_addr t) # B)"
proof -
  let ?q = "next_addr t"
  note sd = shapeD [OF sh]
  have D: "D = concat (map (expand t) E)" and up: "upper kss kl t E U" using sd(1) by auto
  have qE: "(s, q) \<in> set E" using E by simp
  have ok: "int_ok kss kl t q" using sd(1) qE by auto
  then obtain n where n: "nodes t q = Some n" "n_magic n = INTERNAL_NODE_MAGIC"
      and rep: "sa_rep kss kl (keys_with_right_children n) (seps t q)"
    by (auto simp: int_ok_def)
  have l: "n_left_child n = lchild t q" using n(1) by (simp add: lchild_def)
  have kD: "set (kids t q) \<subseteq> snd ` set D" using kids_level [OF qE, of t] D by simp
  have qD: "q \<notin> snd ` set D" "q < ?q" "q \<notin> ups U"
  proof -
    have "q \<in> snd ` set E" using qE by force
    then show "q \<notin> snd ` set D" "q < ?q" "q \<notin> ups U"
      using sd(11) sd(4) [of q] sd(3) by (auto simp: distinct_ptrs)
  qed
  have kids: "set (kids t q) = insert (n_left_child n) (snd ` set (seps t q))" by (simp add: kids_def l)
  have kid: "c \<noteq> 0 \<and> nodes t c \<noteq> None \<and> c \<noteq> q \<and> c < ?q \<and> 0 \<le> kcnt t c" if "c \<in> set (kids t q)" for c
    using that kD int_ok_par [OF ok that] sd(4) [of c] qD(1) nn by auto
  obtain ls mk m rs where es: "seps t q = ls @ (mk, m) # rs" "length rs = length (seps t q) div 2"
    using split_middle [OF full_length [OF full sd(8)]] .
  have ks: "kcnt t (n_left_child n) + sum_list (map (kcnt t \<circ> snd) (seps t q)) = kidsum t q"
    by (simp add: kidsum_def kids_def l)
  have "kidsum t q < 2 ^ 31" using level_kidsum(1) [of t E "(s, q)"] nn lim qE D by fastforce
  then obtain left right where reps: "sa_rep kss kl left ls" "sa_rep kss kl right rs"
    and split: "internal_split t q = Some (?q, mk,
         split_heap t q n left right m (insert m (snd ` set rs))
           (kcnt t (n_left_child n) + sum_list (map (kcnt t \<circ> snd) ls))
           (kcnt t m + sum_list (map (kcnt t \<circ> snd) rs)))"
    using internal_split_eval [OF n qD(2) rep full_length [OF full sd(8)] sd(6) _ _ es] kid ks kids by auto
  define C where "C = insert m (snd ` set rs)"
  define cl where "cl = kcnt t (n_left_child n) + sum_list (map (kcnt t \<circ> snd) ls)"
  define cr where "cr = kcnt t m + sum_list (map (kcnt t \<circ> snd) rs)"
  define t1 where "t1 = split_heap t q n left right m C cl cr"
  have C: "C \<subseteq> set (kids t q)" using es(1) by (auto simp: C_def kids)
  have qC: "q \<notin> C" using C kid by blast
  have dk: "distinct (kids t q)" by (rule upper_kids_distinct [OF sd(1,3)]) (use qE in force)
  note v = split_heap_views [OF n(1) less_imp_neq [OF qD(2)] qC, where left = left and right = right
      and m = m and cl = cl and cr = cr, folded t1_def]
  have "\<forall>c\<in>set (kids t q). map_option n_parent (nodes t c) = Some q \<and> c \<noteq> q \<and> c \<noteq> ?q"
    using ok kid by (auto simp: int_ok_def)
  note lv = split_heap_level [OF n less_imp_neq [OF qD(2)] qC this es(1) dk C_def reps t1_def]
  let ?E1 = "A @ (s, q) # (Some mk, ?q) # B"
  have t1: "nodes t1 = split_nodes t q n left right m C cl cr" "next_addr t1 = Suc ?q"
    "root_node t1 = root_node t" "tree_initialized t1 = tree_initialized t" "tree_key_length t1 = tree_key_length t"
    "tree_key_space_size t1 = tree_key_space_size t"
    by (simp_all add: t1_def)
  have core: "map_option core (nodes t1 x) = map_option core (nodes t x)" if "x \<noteq> q" "x \<noteq> ?q" for x
    using v(6,7) [OF that] t1(1) by (cases "x \<in> C") (auto simp: option.map_comp comp_def core_def cong: option.map_cong)
  have parent: "map_option n_parent (nodes t1 x) = map_option n_parent (nodes t x)" if "x \<noteq> ?q" "x \<notin> C" for x
    using v(7) [of x] v(8) t1(1) that by (cases "x = q") auto
  have new: "?q \<notin> snd ` set E \<union> ups U" "?q \<notin> snd ` set D" using sd(4) [of ?q] by auto
  have AB: "snd e \<noteq> q" "snd e \<noteq> ?q" "e \<in> set E" if "e \<in> set A \<union> set B" for e
  proof -
    have "distinct (map snd E)" using sd(3) by (simp add: distinct_ptrs)
    with that E show "snd e \<noteq> q" "e \<in> set E" by force+
    then show "snd e \<noteq> ?q" using new(1) by force
  qed
  have exp: "expand t1 e = expand t e" if "e \<in> set A \<union> set B" for e
    using core_cong(4) [OF core, of "snd e" "fst e"] AB [OF that] by simp
  have "int_ok kss kl t1 (snd e)" if e: "e \<in> set A \<union> set B" for e
  proof (rule int_ok_cong [OF core])
    show ok': "int_ok kss kl t (snd e)" using sd(1) AB(3) [OF e] by simp
    fix c assume c: "c \<in> set (kids t (snd e))"
    have "c \<notin> C" using int_ok_par [OF ok' c] int_ok_par [OF ok, of c] C AB(1) [OF e] by auto
    moreover have "c \<noteq> ?q" using c kids_level [OF AB(3) [OF e], of t] D new(2) by auto
    ultimately show "map_option n_parent (nodes t1 c) = map_option n_parent (nodes t c)" using parent by simp
  qed (use AB [OF e] in auto)
  then have oks: "\<forall>e\<in>set ?E1. int_ok kss kl t1 (snd e)" using lv(2,3) by auto
  have D1: "D = concat (map (expand t1) ?E1)"
  proof -
    have "map (expand t1) A = map (expand t) A" "map (expand t1) B = map (expand t) B" using exp by simp_all
    then show ?thesis using lv(1) [of s] by (simp add: D E del: map_eq_conv)
  qed
  have CE: "x \<notin> C" if "x \<in> snd ` set E \<union> ups U" for x using that C kD sd(11) by auto
  have "upper kss kl t1 E U"
  proof (rule upper_cong [OF up])
    show "map_option core (nodes t1 x) = map_option core (nodes t x)" if "x \<in> ups U" for x
      by (rule core) (use that qD(3) new(1) in auto)
    show "map_option n_parent (nodes t1 x) = map_option n_parent (nodes t x)" if "x \<in> snd ` set E \<union> ups U" for x
      by (rule parent) (use that CE new(1) in auto)
  qed (rule t1)
  then have sh1: "shape kss kl t1 E U" by (rule shape_upd [OF shape_tail [OF sh]]) (simp_all add: t1)
  have mkD: "(mk, m) \<in> set (seps t q)" by (simp add: es(1))
  then have "(Some mk, m) \<in> set (expand t (s, q))" by (force simp: expand_fst lift_sep_def)
  then have mk: "length mk = kl" "Some mk \<in> fst ` set D"
    using sa_repD(8) [OF rep mkD] D qE by force+
  have room: "length ls * kl + kl \<le> kss" "length rs * kl + kl \<le> kss"
    using sa_repD(7) [OF rep] by (simp_all add: es(1) algebra_simps)
  have cnt: "kcnt t1 c = kcnt t c" if "c \<in> set (kids t q)" for c using kid [OF that] v(5) by simp
  then have cnt': "map (kcnt t1) (kids t1 q) = map (kcnt t) (kids t1 q)"
      "map (kcnt t1) (kids t1 ?q) = map (kcnt t) (kids t1 ?q)"
    by (simp_all add: lv(6))
  have kids1: "kids t1 q = n_left_child n # map snd ls" "kids t1 ?q = m # map snd rs"
    by (simp_all add: kids_def lv v l)
  have sum1: "kcnt t1 q = kidsum t1 q" "kcnt t1 ?q = kidsum t1 ?q"
    using qD(2) by (simp_all add: kidsum_def cnt', simp_all add: kids1 v(5) cl_def cr_def comp_def)
  have sum: "kcnt t1 q + kcnt t1 ?q = kidsum t q" "defect t1 q = 0" "defect t1 ?q = 0"
    by (simp_all add: sum1 defect_def) (simp add: kidsum_def cnt' lv(6))
  have dU: "defect t1 x = defect t x + (if x = par t q then kcnt t q - kcnt t1 q else 0)" if x: "x \<in> ups U" for x
  proof -
    have "kids t1 x = kids t x" by (rule core_cong(3) [OF core]) (use x qD(3) new(1) in auto)
    moreover have "q \<in> snd ` set E" using qE by force
    moreover have "distinct (ptrs E U)" "0 \<notin> ups U" using sd(3,9) by simp_all
    moreover have "kcnt t1 q = cl" using v(5) qD(2) by simp
    ultimately show ?thesis using split_defect [OF up _ _ x _ new(1) v(5)] by simp
  qed
  have "\<exists>p. nodes t1 x = map_option (n_parent_update (\<lambda>_. p)) (nodes t x)" if x: "x \<in> snd ` set D" for x
  proof (cases "x \<in> C")
    case True
    then show ?thesis using v(6) [of x] x qD(1) new(2) t1(1) by metis
  next
    case False
    have "map_option (n_parent_update (\<lambda>_. par t x)) (nodes t x) = nodes t x"
      by (cases "nodes t x") (simp_all add: par_def)
    then show ?thesis using False v(7) [of x] x qD(1) new(2) t1(1) by metis
  qed
  moreover have "nodes t1 x = nodes t x" if "x \<notin> snd ` set D" "x \<noteq> q" "x \<noteq> ?q" for x
    using that v(7) [of x] C kD t1(1) by auto
  moreover have "sorted_keys ?E1" using sd(2) D1 sorted_levels by metis
  moreover have "nodes t1 ?q \<noteq> None" using oks by (auto simp: int_ok_def)
  moreover have "kcnt t1 x = kcnt t x" if "x \<noteq> q" "x \<noteq> ?q" for x using that v(5) by simp
  moreover have "set (kids t1 q) \<union> set (kids t1 ?q) = set (kids t q)" by (simp add: lv(6))
  ultimately have "split_result kss kl t D E U q mk t1 ?E1"
    using D1 oks sh1 mk room sum dU t1(2-4) lv(4,5) unfolding split_result_def by blast
  then show ?thesis using split unfolding t1_def C_def cl_def cr_def by blast
qed

end
