(* ===== verification/Tree_Climb.thy ===== *)
theory Tree_Climb
  imports Tree_Split
begin

text \<open>
  The recursion of \<^verbatim>\<open>put_to_internal_node\<close> up the parent pointers, with the propagation of key counts
  that both of its callers run after it.
\<close>

definition insert_child :: "array_tree \<Rightarrow> ptr \<Rightarrow> key \<Rightarrow> ptr \<Rightarrow> (array_tree \<times> ptr) option" where
  "insert_child t q k z =
     do { (t', fence) \<leftarrow> put_to_internal_node t q k z;
          right_parent \<leftarrow> node_parent t' z;
          right_count \<leftarrow> node_key_count t' z;
          t'' \<leftarrow> propagate_key_count_increment t' right_parent fence right_count;
          Some (t'', fence) }"

text \<open>
  What holds after \<open>z\<close> has been put under the key \<open>k\<close> into the level above \<open>D\<close>: the levels are well formed, only the
  nodes in \<open>V\<close> and new nodes were changed (apart from parent pointers in \<open>D\<close>), the children in \<open>K\<close> and
  \<open>z\<close> are below the fence, and only the fence has a defect.
\<close>

definition climbed where
  "climbed kss kl t D V K k z \<mu> t' fence U' \<longleftrightarrow>
     shape kss kl t' (ord_put (Some k) z D) U' \<and> U' \<noteq> [] \<and> next_addr t \<le> next_addr t' \<and>
     ups U' \<subseteq> V \<union> {next_addr t..<next_addr t'} \<and> tree_initialized t' = tree_initialized t \<and>
     fence \<in> insert 0 (ups U') \<and>
     (\<forall>x\<in>ups U'. defect t' x = (if x = fence then \<mu> else 0)) \<and>
     (\<forall>c\<in>insert z K. reach t' (ups U') fence (par t' c)) \<and>
     (\<forall>x. x \<notin> V \<longrightarrow> x < next_addr t \<longrightarrow> x \<notin> snd ` set D \<longrightarrow> x \<noteq> z \<longrightarrow> nodes t' x = nodes t x) \<and>
     (\<forall>x\<in>insert z (snd ` set D). \<exists>p. nodes t' x = map_option (n_parent_update (\<lambda>_. p)) (nodes t x))"

lemma climbedD:
  assumes "climbed kss kl t D V K k z \<mu> t' fence U'"
  shows "shape kss kl t' (ord_put (Some k) z D) U'" "U' \<noteq> []" "next_addr t \<le> next_addr t'"
    "ups U' \<subseteq> V \<union> {next_addr t..<next_addr t'}" "tree_initialized t' = tree_initialized t"
    "fence \<in> insert 0 (ups U')" "\<And>x. x \<in> ups U' \<Longrightarrow> defect t' x = (if x = fence then \<mu> else 0)"
    "\<And>c. c \<in> insert z K \<Longrightarrow> reach t' (ups U') fence (par t' c)"
    "\<And>x. x \<notin> V \<Longrightarrow> x < next_addr t \<Longrightarrow> x \<notin> snd ` set D \<Longrightarrow> x \<noteq> z \<Longrightarrow> nodes t' x = nodes t x"
    "\<And>x. x \<in> insert z (snd ` set D) \<Longrightarrow> \<exists>p. nodes t' x = map_option (n_parent_update (\<lambda>_. p)) (nodes t x)"
  using assms unfolding climbed_def by auto

lemma split_resultD:
  assumes "split_result kss kl t D E U q m t1 E1"
  shows "D = concat (map (expand t1) E1)" "\<And>e. e \<in> set E1 \<Longrightarrow> int_ok kss kl t1 (snd e)"
    "shape kss kl t1 E U" "sorted_keys E1" "length m = kl" "Some m \<in> fst ` set D"
    "length (seps t1 q) * kl + kl \<le> kss" "length (seps t1 (next_addr t)) * kl + kl \<le> kss"
    "next_addr t1 = Suc (next_addr t)" "root_node t1 = root_node t" "tree_initialized t1 = tree_initialized t"
    "\<And>x. x \<notin> snd ` set D \<Longrightarrow> x \<noteq> q \<Longrightarrow> x \<noteq> next_addr t \<Longrightarrow> nodes t1 x = nodes t x"
    "\<And>x. x \<in> snd ` set D \<Longrightarrow> \<exists>p. nodes t1 x = map_option (n_parent_update (\<lambda>_. p)) (nodes t x)"
    "nodes t1 (next_addr t) \<noteq> None" "\<And>x. x \<noteq> q \<Longrightarrow> x \<noteq> next_addr t \<Longrightarrow> kcnt t1 x = kcnt t x"
    "defect t1 q = 0" "defect t1 (next_addr t) = 0" "kcnt t1 q + kcnt t1 (next_addr t) = kidsum t q"
    "\<And>x. x \<in> ups U \<Longrightarrow> defect t1 x = defect t x + (if x = par t q then kcnt t q - kcnt t1 q else 0)"
    "set (kids t1 q) \<union> set (kids t1 (next_addr t)) = set (kids t q)"
  using assms unfolding split_result_def by blast+

lemma reparented_node:
  assumes "nodes t' x = map_option (n_parent_update (\<lambda>_. p)) (nodes t x)"
  shows "map_option core (nodes t' x) = map_option core (nodes t x)" "kcnt t' x = kcnt t x"
    "nodes t' x = None \<longleftrightarrow> nodes t x = None"
  using assms by (auto simp: option.map_comp comp_def core_def kcnt_def cong: option.map_cong split: option.splits)

text \<open>Where a separator that a split produced is put: directly after the node that was split.\<close>

lemma ord_put_after:
  fixes A B :: "('k::linorder \<times> 'v) list"
  assumes "sorted_keys (A @ (s, q) # (m, r) # B)"
  shows "ord_put m r (A @ (s, q) # B) = A @ (s, q) # (m, r) # B"
proof -
  have "filter (\<lambda>e. fst e < m) A = A" "filter (\<lambda>e. m < fst e) A = []" "s < m"
    "filter (\<lambda>e. fst e < m) B = []" "filter (\<lambda>e. m < fst e) B = B"
    using assms by (auto simp: sorted_wrt_append filter_empty_conv filter_id_conv)
  then show ?thesis by (simp add: ord_put_def less_imp_not_less)
qed

lemma kidsum_cong:
  assumes "kids t' x = kids t x" and "\<And>c. c \<in> set (kids t x) \<Longrightarrow> kcnt t' c = kcnt t c"
  shows "kidsum t' x = kidsum t x"
  unfolding kidsum_def using assms by (simp cong: map_cong)

text \<open>After the levels above a split node have taken in its right half, the level of the split node is in place.\<close>

lemma relevel:
  assumes sh: "shape kss kl t D (E # U)" and E: "E = A @ (s, q) # B" and E1: "E1 = A @ (s, q) # (Some m, next_addr t) # B"
    and sp: "split_result kss kl t D E U q m t1 E1"
    and cl: "climbed kss kl t1 E (ups U) K m (next_addr t) \<mu> t2 fence U'"
  shows "shape kss kl t2 D (E1 # U')"
    and "\<And>x. x \<in> snd ` set E1 \<Longrightarrow> kids t2 x = kids t1 x \<and> seps t2 x = seps t1 x \<and> defect t2 x = defect t1 x \<and> kcnt t2 x = kcnt t1 x"
    and "\<And>x. x \<in> snd ` set D \<Longrightarrow> nodes t2 x = nodes t1 x"
proof -
  note sd = shapeD [OF sh] and spd = split_resultD [OF sp] and cld = climbedD [OF cl]
  have sE1: "snd ` set E1 = insert (next_addr t) (snd ` set E)" by (auto simp: E E1)
  have E1': "ord_put (Some m) (next_addr t) E = E1"
    using ord_put_after [of A s q "Some m" "next_addr t" B] spd(4) by (simp add: E E1)
  have "\<exists>p. nodes t2 x = map_option (n_parent_update (\<lambda>_. p)) (nodes t1 x)" if "x \<in> snd ` set E1" for x
    using cld(10) that sE1 by blast
  then have E1n: "map_option core (nodes t2 x) = map_option core (nodes t1 x)" "kcnt t2 x = kcnt t1 x"
    if "x \<in> snd ` set E1" for x using that reparented_node by metis+
  show Dn: "nodes t2 x = nodes t1 x" if "x \<in> snd ` set D" for x
  proof (rule cld(9))
    show "x \<notin> ups U" "x \<notin> snd ` set E" using sd(11) that by auto
    show "x < next_addr t1" "x \<noteq> next_addr t" using sd(4) [of x] that spd(9) by auto
  qed
  have kids: "set (kids t1 (snd e)) \<subseteq> snd ` set D" if "e \<in> set E1" for e
    using kids_level [OF that, of t1] spd(1) by simp
  have ok: "int_ok kss kl t2 (snd e)" if e: "e \<in> set E1" for e
  proof (rule int_ok_cong [OF E1n(1) _ spd(2) [OF e]])
    show "snd e \<in> snd ` set E1" using e by simp
    fix c assume "c \<in> set (kids t1 (snd e))"
    then have "nodes t2 c = nodes t1 c" using kids [OF e] by (intro Dn) blast
    then show "map_option n_parent (nodes t2 c) = map_option n_parent (nodes t1 c)" by simp
  qed
  have "expand t2 e = expand t1 e" if "e \<in> set E1" for e
    using core_cong(4) [OF E1n(1), of "snd e" "fst e"] that by simp
  then have "D = concat (map (expand t2) E1)" using spd(1) by (metis map_eq_conv)
  with ok cld(1) E1' have up: "upper kss kl t2 D (E1 # U')" by (auto dest: shapeD(1))
  have new: "x \<notin> ups U'" if "x \<in> snd ` set D" for x
  proof -
    have "x \<notin> ups U" "x < next_addr t" using sd(11) sd(4) [of x] that by auto
    then show ?thesis using cld(4) spd(9) by auto
  qed
  have "shape kss kl t2 D (E1 # U')"
    unfolding shape_def set_ptrs distinct_ptrs
  proof (intro conjI ballI)
    show "distinct (map snd (concat (E1 # U')))"
      using shapeD(3) [OF cld(1)] E1' by (simp add: distinct_ptrs ups_def)
    have "x \<notin> ups (E1 # U')" if x: "x \<in> snd ` set D" for x
    proof -
      have "x \<notin> snd ` set E" "x < next_addr t" using sd(11) sd(4) [of x] x by auto
      then show ?thesis using new [OF x] sE1 by simp
    qed
    then show "snd ` set D \<inter> ups (E1 # U') = {}" by blast
    fix p assume "p \<in> snd ` set D \<union> ups (E1 # U')"
    then have "p \<in> snd ` set D \<or> p \<in> snd ` set (ord_put (Some m) (next_addr t) E) \<union> ups U'" using E1' by auto
    then have "0 < p \<and> p < next_addr t2"
    proof
      assume "p \<in> snd ` set D"
      then have "0 < p \<and> p < next_addr t" by (intro sd(4) UnI1)
      then show ?thesis using cld(3) spd(9) by simp
    qed (rule shapeD(4) [OF cld(1)])
    then show "0 < p" "p < next_addr t2" by simp_all
  qed (use up sd(2,7,8,10) shapeD(5,6) [OF cld(1)] in \<open>simp_all only:\<close>)
  then show "shape kss kl t2 D (E1 # U')" .
  fix x assume x: "x \<in> snd ` set E1"
  note c = core_cong [OF E1n(1) [OF x]]
  have "kcnt t2 c = kcnt t1 c" if "c \<in> set (kids t1 x)" for c
  proof -
    obtain e where "e \<in> set E1" "x = snd e" using x by auto
    then have "c \<in> snd ` set D" using kids that by blast
    then show ?thesis by (rule view_cong(1) [OF Dn])
  qed
  then have "kidsum t2 x = kidsum t1 x" by (rule kidsum_cong [OF c(3)])
  then show "kids t2 x = kids t1 x \<and> seps t2 x = seps t1 x \<and> defect t2 x = defect t1 x \<and> kcnt t2 x = kcnt t1 x"
    using c(2,3) E1n(2) [OF x] by (simp add: defect_def)
qed


text \<open>The rest of \<^verbatim>\<open>put_to_internal_node\<close> after a split, for the half \<open>x\<close> that serves the key.\<close>

lemma split_defects:
  assumes sh: "shape kss kl t D (E # U)" and E: "E = A @ (s, q) # B" and E1: "E1 = A @ (s, q) # (Some m, next_addr t) # B"
    and df: "\<And>x. x \<in> snd ` set E \<Longrightarrow> x \<noteq> q \<Longrightarrow> defect t x = 0"
    and sp: "split_result kss kl t D E U q m t1 E1" and y: "y \<in> snd ` set E1"
  shows "defect t1 y = 0"
proof (cases "y = q \<or> y = next_addr t")
  case True
  then show ?thesis using split_resultD(16,17) [OF sp] by auto
next
  case False
  note sd = shapeD [OF sh] and spd = split_resultD [OF sp]
  have yE: "y \<in> snd ` set E" using y False by (auto simp: E E1)
  have n: "nodes t1 y = nodes t y" by (rule spd(12)) (use False yE sd(11) in auto)
  have kids: "kids t1 y = kids t y" by (simp add: kids_def view_cong(3,4) [OF n])
  have "kcnt t1 c = kcnt t c" if "c \<in> set (kids t y)" for c
  proof (rule spd(15))
    obtain e where e: "e \<in> set E" "y = snd e" using yE by auto
    have "D = concat (map (expand t) E)" using sd(1) by simp
    then have "c \<in> snd ` set D" using kids_level [OF e(1), of t] that e(2) by blast
    moreover have "q \<in> snd ` set E" using E by simp
    ultimately show "c \<noteq> q" "c \<noteq> next_addr t" using sd(11) sd(4) [of c] by auto
  qed
  then have "kidsum t1 y = kidsum t y" by (rule kidsum_cong [OF kids])
  then show ?thesis using df [OF yE] False view_cong(1) [OF n] by (simp add: defect_def)
qed

lemma climb_finish:
  assumes sh: "shape kss kl t D (E # U)" and E: "E = A @ (s, q) # B" and E1: "E1 = A @ (s, q) # (Some m, next_addr t) # B"
    and k: "length k = kl" "Some k \<notin> fst ` set D"
    and z: "nodes t z \<noteq> None" "z \<notin> set (ptrs D (E # U))" "0 < z" "z < next_addr t"
    and df: "\<And>x. x \<in> snd ` set E \<Longrightarrow> x \<noteq> q \<Longrightarrow> defect t x = 0"
    and sp: "split_result kss kl t D E U q m t1 E1"
    and cl: "climbed kss kl t1 E (ups U) K m (next_addr t) (kcnt t z + \<mu>) t2 fence U'" and K: "q \<in> K"
    and x: "x = q \<or> x = next_addr t" and srv: "E1 = A' @ (s', x) # B'" "s' < Some k" "\<forall>e\<in>set B'. Some k < fst e"
  shows "\<exists>t3 t'. internal_put t2 x k z = Some t3 \<and> node_parent t3 z = Some x \<and> node_key_count t3 z = Some (kcnt t z) \<and>
           propagate_key_count_increment t3 x fence (kcnt t z) = Some t' \<and>
           climbed kss kl t D (ups (E # U)) (set (kids t q)) k z \<mu> t' fence (E1 # U')"
proof -
  let ?q = "next_addr t"
  note sd = shapeD [OF sh] and spd = split_resultD [OF sp] and cld = climbedD [OF cl]
  note rl = relevel [OF sh E E1 sp cl]
  have zn: "z \<notin> snd ` set D" "z \<notin> snd ` set E" "z \<notin> ups U" "z \<noteq> q" "z \<noteq> ?q"
    using z(2,4) E by (auto simp: set_ptrs)
  have "nodes t1 z = nodes t z" by (rule spd(12)) (use zn in auto)
  moreover have "nodes t2 z = nodes t1 z" by (rule cld(9)) (use zn z(4) spd(9) in auto)
  ultimately have nz: "nodes t2 z = nodes t z" by simp
  have sE1: "snd ` set E1 = insert ?q (snd ` set E)" by (auto simp: E E1)
  have zU: "z \<notin> ups U'" using cld(4) zn z(4) spd(9) by auto
  have xE1: "x \<in> snd ` set E1" using x E1 by auto
  have room: "length (seps t2 x) * kl + kl \<le> kss" using rl(2) [OF xE1] x spd(7,8) by auto
  have "\<exists>h. internal_put t2 x k z = Some (t2\<lparr>nodes := h\<rparr>) \<and>
           shape kss kl (t2\<lparr>nodes := h\<rparr>) (ord_put (Some k) z D) (E1 # U') \<and>
           (\<forall>y. y \<noteq> x \<longrightarrow> y \<noteq> z \<longrightarrow> h y = nodes t2 y) \<and>
           map_option n_parent (h x) = map_option n_parent (nodes t2 x) \<and>
           h z = map_option (n_parent_update (\<lambda>_. x)) (nodes t2 z) \<and>
           kcnt (t2\<lparr>nodes := h\<rparr>) = kcnt t2 \<and> set (kids (t2\<lparr>nodes := h\<rparr>) x) = insert z (set (kids t2 x)) \<and>
           kidsum (t2\<lparr>nodes := h\<rparr>) x = kidsum t2 x + kcnt t2 z"
    by (rule internal_put_spec [OF rl(1) srv k _ _ z(3) _ room])
      (use z nz zn zU sE1 cld(3) spd(9) in \<open>auto simp: set_ptrs\<close>)
  then obtain t3 where put: "internal_put t2 x k z = Some t3"
    and sh3: "shape kss kl t3 (ord_put (Some k) z D) (E1 # U')"
    and n3: "\<And>y. y \<noteq> x \<Longrightarrow> y \<noteq> z \<Longrightarrow> nodes t3 y = nodes t2 y"
      "map_option n_parent (nodes t3 x) = map_option n_parent (nodes t2 x)"
      "nodes t3 z = map_option (n_parent_update (\<lambda>_. x)) (nodes t z)"
    and cnt3: "kcnt t3 = kcnt t2" and kids3: "set (kids t3 x) = insert z (set (kids t2 x))"
      "kidsum t3 x = kidsum t2 x + kcnt t z"
    and same3: "next_addr t3 = next_addr t2" "tree_initialized t3 = tree_initialized t2"
    using view_cong(1) [OF nz] nz by auto
  have zU3: "z \<notin> ups (E1 # U')" using zU zn sE1 by simp
  have xU: "x \<notin> ups U'" "x \<noteq> fence"
    using shapeD(3,9) [OF rl(1)] xE1 cld(6) by (auto simp: distinct_ptrs)
  have par3: "map_option n_parent (nodes t3 y) = map_option n_parent (nodes t2 y)" if "y \<noteq> z" for y
    using n3(1) [of y] n3(2) that by (cases "y = x") auto
  have reach3: "reach t3 (ups (E1 # U')) fence y" if "y = q \<or> y = ?q" for y
  proof -
    have "reach t2 (ups U') fence (par t2 y)" using cld(8) K that by blast
    then have "reach t2 (ups (E1 # U')) fence (par t2 y)" by (rule reach_cong) auto
    moreover have yE1: "y \<in> ups (E1 # U')" using that E1 by auto
    moreover have "nodes t2 y \<noteq> None" using upper_int_ok [OF shapeD(1) [OF rl(1)] yE1] by (auto simp: int_ok_def)
    ultimately have "reach t2 (ups (E1 # U')) fence y" by (blast intro: reach_step)
    then show ?thesis
    proof (rule reach_cong)
      fix x
      assume "x \<in> ups (E1 # U')"
      then show "map_option n_parent (nodes t3 x) = map_option n_parent (nodes t2 x)" using zU3 by (intro par3) auto
    qed simp
  qed
  have "reach t3 (ups (E1 # U')) fence x" by (rule reach3 [OF x])
  from propagate_increment_spec [OF shapeD(1,3,9) [OF sh3] _ this recount_refl, of "kcnt t z"]
  obtain t' where pr: "propagate_key_count_increment t3 x fence (kcnt t z) = Some t'"
    and rc: "recount (ups (E1 # U')) t3 t'"
    and df': "\<And>y. y \<in> ups (E1 # U') \<Longrightarrow>
       defect t' y = defect t3 y + (if y = x then kcnt t z else 0) - (if y = fence then kcnt t z else 0)"
    by auto
  have df3: "defect t3 y = (if y = x then - kcnt t z else if y = fence then kcnt t z + \<mu> else 0)"
    if y: "y \<in> ups (E1 # U')" for y
  proof (cases "y = x")
    case True
    have "defect t2 x = 0" using rl(2) [OF xE1] split_defects [OF sh E E1 df sp xE1] by simp
    then show ?thesis using True kids3(2) cnt3 by (simp add: defect_def)
  next
    case False
    have n: "nodes t3 y = nodes t2 y" by (rule n3(1)) (use False y zU3 in auto)
    have "kids t3 y = kids t2 y" by (simp add: kids_def view_cong(3,4) [OF n])
    then have "kidsum t3 y = kidsum t2 y" by (rule kidsum_cong) (simp add: cnt3)
    then have d: "defect t3 y = defect t2 y" by (simp add: defect_def cnt3)
    show ?thesis
    proof (cases "y \<in> ups U'")
      case True
      then show ?thesis using d False cld(7) by simp
    next
      case nU: False
      then have yE1: "y \<in> snd ` set E1" using y by simp
      moreover have "y \<noteq> fence" using cld(6) nU shapeD(9) [OF rl(1)] yE1 by auto
      ultimately show ?thesis using d False rl(2) split_defects [OF sh E E1 df sp] by simp
    qed
  qed
  have nodes': "nodes t' y = nodes t1 y" if "y \<notin> ups (E1 # U')" "y \<noteq> z" "y \<in> snd ` set D \<or> y \<notin> ups U \<and> y < next_addr t" for y
  proof -
    have "y \<noteq> x" using xE1 that(1) by auto
    then have "nodes t' y = nodes t2 y" using recount_same(6) [OF rc that(1)] n3(1) that(2) by simp
    also have "\<dots> = nodes t1 y"
    proof (cases "y \<in> snd ` set D")
      case False
      then show ?thesis using that sE1 spd(9) by (intro cld(9)) auto
    qed (rule rl(3))
    finally show ?thesis .
  qed
  have climbed: "climbed kss kl t D (ups (E # U)) (set (kids t q)) k z \<mu> t' fence (E1 # U')"
    unfolding climbed_def
  proof (intro conjI allI ballI impI)
    show "shape kss kl t' (ord_put (Some k) z D) (E1 # U')"
      by (rule shape_upd [OF sh3 recount_upper [OF rc shapeD(1) [OF sh3]]]) (simp_all add: recount_same [OF rc])
    show "next_addr t \<le> next_addr t'" "ups (E1 # U') \<subseteq> ups (E # U) \<union> {next_addr t..<next_addr t'}"
      "tree_initialized t' = tree_initialized t"
      using recount_same [OF rc] same3 cld(3-5) spd(9,11) sE1 by auto
    show "fence \<in> insert 0 (ups (E1 # U'))" using cld(6) by auto
    show "defect t' y = (if y = fence then \<mu> else 0)" if "y \<in> ups (E1 # U')" for y
      using df' [OF that] df3 [OF that] xU(2) by auto
    show "reach t' (ups (E1 # U')) fence (par t' c)" if c: "c \<in> insert z (set (kids t q))" for c
    proof -
      have p: "par t' y = par t3 y" for y by (rule recount_par [OF rc])
      have "par t' c = q \<or> par t' c = ?q"
      proof (cases "c = z")
        case True
        obtain n where "nodes t z = Some n" using z(1) by auto
        then have "par t3 z = x" by (simp add: par_def n3(3))
        then show ?thesis using True x p by simp
      next
        case False
        then have "c \<in> set (kids t1 q) \<union> set (kids t1 ?q)" using c spd(20) by blast
        moreover have "int_ok kss kl t1 q" "int_ok kss kl t1 ?q" using spd(2) [of "(s, q)"] spd(2) [of "(Some m, ?q)"] E1 by auto
        ultimately have p1: "par t1 c = q \<or> par t1 c = ?q" using int_ok_par by blast
        have "c \<in> snd ` set D"
        proof -
          have "D = concat (map (expand t) E)" "(s, q) \<in> set E" using sd(1) E by auto
          then show ?thesis using kids_level [of "(s, q)" E t] c False by auto
        qed
        then have "nodes t2 c = nodes t1 c" by (rule rl(3))
        moreover have "par t3 c = par t2 c" by (rule par_eq [OF par3 [OF False]])
        ultimately show ?thesis using p1 p view_cong(2) [of t2 c t1] by simp
      qed
      then have "reach t3 (ups (E1 # U')) fence (par t' c)" by (rule reach3)
      then show ?thesis by (rule reach_cong) (simp_all add: recount_node [OF rc])
    qed
    show "nodes t' y = nodes t y" if y: "y \<notin> ups (E # U)" "y < next_addr t" "y \<notin> snd ` set D" "y \<noteq> z" for y
    proof -
      have "y \<notin> ups (E1 # U')" using y sE1 cld(4) spd(9) by auto
      then have "nodes t' y = nodes t1 y" using y by (intro nodes') auto
      also have "\<dots> = nodes t y" using y E by (intro spd(12)) auto
      finally show ?thesis .
    qed
    show "\<exists>p. nodes t' y = map_option (n_parent_update (\<lambda>_. p)) (nodes t y)" if y: "y \<in> insert z (snd ` set D)" for y
    proof (cases "y = z")
      case True
      then show ?thesis using recount_same(6) [OF rc zU3] n3(3) by auto
    next
      case False
      then have yD: "y \<in> snd ` set D" using y by simp
      moreover from this have "y \<notin> ups (E1 # U')" using shapeD(11) [OF rl(1)] by blast
      ultimately have "nodes t' y = nodes t1 y" using False by (intro nodes') auto
      then show ?thesis using spd(13) [OF yD] by simp
    qed
  qed simp
  show ?thesis using put pr climbed nz n3(3) z(1) cnt3 view_cong(1) [OF nz]
    by (intro exI [of _ t3] exI [of _ t']) (auto simp: node_parent_def node_key_count_def kcnt_def)
qed

end
