(* ===== verification/Tree_Raise.thy ===== *)
theory Tree_Raise
  imports Tree_Climb
begin

text \<open>
  The three ways \<^verbatim>\<open>put_to_internal_node\<close> ends at a node (room, a split below another node, a split of the
  root) and the induction over the levels that joins them: putting a child into the tree always
  returns, and leaves well formed levels whose key counts are right but for the announced defect.
\<close>

section \<open>A node with room\<close>

lemma put_to_internal_node_room:
  assumes "int_ok kss kl t q" and "length (seps t q) * kl + kl \<le> kss"
  shows "put_to_internal_node t q k z = internal_put t q k z \<bind> (\<lambda>t1. Some (t1, q))"
proof -
  obtain n where n: "internal_at t q = Some n" "sa_rep kss kl (keys_with_right_children n) (seps t q)"
    using assms(1) by (auto simp: int_ok_def internal_at_def)
  have "\<not> sa_is_full (keys_with_right_children n)"
    using assms(2) by (simp add: sa_is_full_iff [OF n(2)] not_less)
  then show ?thesis using n(1) by (subst put_to_internal_node.simps) simp
qed

lemma climb_room:
  assumes sh: "shape kss kl t D (E # U)" and E: "E = A @ (s, q) # B"
    and k: "s < Some k" "\<forall>e\<in>set B. Some k < fst e" "length k = kl" "Some k \<notin> fst ` set D"
    and z: "nodes t z \<noteq> None" "z \<notin> set (ptrs D (E # U))" "0 < z" "z < next_addr t"
    and df: "\<And>x. x \<in> ups (E # U) \<Longrightarrow> defect t x = (if x = q then kcnt t z + \<mu> else 0)"
    and room: "length (seps t q) * kl + kl \<le> kss"
  shows "\<exists>t' fence U'. insert_child t q k z = Some (t', fence) \<and>
           climbed kss kl t D (ups (E # U)) (set (kids t q)) k z \<mu> t' fence U'"
proof -
  have qE: "q \<in> snd ` set E" and "(s, q) \<in> set E" using E by auto
  then have ok: "int_ok kss kl t q" using shapeD(1) [OF sh] by auto
  obtain h where put: "internal_put t q k z = Some (t\<lparr>nodes := h\<rparr>)"
    and sh': "shape kss kl (t\<lparr>nodes := h\<rparr>) (ord_put (Some k) z D) (E # U)"
    and h: "\<And>x. x \<noteq> q \<Longrightarrow> x \<noteq> z \<Longrightarrow> h x = nodes t x" "h z = map_option (n_parent_update (\<lambda>_. q)) (nodes t z)"
    and cnt: "kcnt (t\<lparr>nodes := h\<rparr>) = kcnt t" and kids: "set (kids (t\<lparr>nodes := h\<rparr>) q) = insert z (set (kids t q))"
    and sum: "kidsum (t\<lparr>nodes := h\<rparr>) q = kidsum t q + kcnt t z"
    using internal_put_spec [OF sh E k z room] by blast
  let ?t = "t\<lparr>nodes := h\<rparr>"
  obtain n where n: "nodes t z = Some n" using z(1) by auto
  have "propagate_key_count_increment ?t q q c = Some ?t" for c
    by (subst propagate_key_count_increment.simps) simp
  then have ins: "insert_child t q k z = Some (?t, q)"
    using put h(2) n put_to_internal_node_room [OF ok room]
    by (simp add: insert_child_def node_parent_def node_key_count_def)
  have qz: "q \<noteq> z" using qE z(2) by (auto simp: set_ptrs)
  have "int_ok kss kl ?t q" by (rule upper_int_ok [OF shapeD(1) [OF sh']]) (use qE in simp)
  then have par: "par ?t c = q" if "c \<in> insert z (set (kids t q))" for c using int_ok_par kids that by metis
  have def': "defect ?t x = (if x = q then \<mu> else 0)" if x: "x \<in> ups (E # U)" for x
  proof (cases "x = q")
    case True
    then show ?thesis using df [OF x] sum cnt by (simp add: defect_def)
  next
    case False
    have n: "nodes ?t x = nodes t x" using h(1) False x z(2) by (auto simp: set_ptrs)
    have "kids ?t x = kids t x" by (simp only: kids_def view_cong(3,4) [OF n])
    then have "kidsum ?t x = kidsum t x" by (rule kidsum_cong) (simp add: cnt)
    then show ?thesis using False df [OF x] by (simp add: defect_def cnt)
  qed
  have "climbed kss kl t D (ups (E # U)) (set (kids t q)) k z \<mu> ?t q (E # U)"
    unfolding climbed_def
  proof (intro conjI allI ballI impI)
    show "reach ?t (ups (E # U)) q (par ?t c)" if "c \<in> insert z (set (kids t q))" for c
      using par [OF that] reach_fence by simp
    show "nodes ?t x = nodes t x" if "x \<notin> ups (E # U)" "x \<noteq> z" for x
      using h(1) that qE by auto
    show "\<exists>p. nodes ?t x = map_option (n_parent_update (\<lambda>_. p)) (nodes t x)" if x: "x \<in> insert z (snd ` set D)" for x
    proof (cases "x = z")
      case False
      have "x \<noteq> q" using shapeD(11) [OF sh] qE x False by auto
      with False have "nodes ?t x = nodes t x" using h(1) by simp
      moreover have "map_option (n_parent_update (\<lambda>_. par t x)) (nodes t x) = nodes t x"
        by (cases "nodes t x") (simp_all add: par_def)
      ultimately show ?thesis by metis
    qed (use h(2) in auto)
  qed (use sh' def' qE in auto)
  with ins show ?thesis by blast
qed

section \<open>A new root\<close>

definition new_root :: "array_tree \<Rightarrow> ptr \<Rightarrow> key \<Rightarrow> ptr \<Rightarrow> (array_tree \<times> ptr) option" where
  "new_root t1 node mid_key right_node =
     do { (new_root_node, t') \<leftarrow> new_internal_node t1 (tree_key_length t1);
          ta \<leftarrow> set_left_child t' new_root_node node;
          tb \<leftarrow> internal_put ta new_root_node mid_key right_node;
          node_count \<leftarrow> node_key_count tb node;
          right_count \<leftarrow> node_key_count tb right_node;
          tc \<leftarrow> set_key_count tb new_root_node (node_count + right_count);
          Some (tc\<lparr>root_node := new_root_node\<rparr>, NULL) }"

lemma new_root_eval:
  assumes q: "nodes t1 q = Some n" "nodes t1 q' = Some n'" "q \<noteq> q'" "q < next_addr t1" "q' < next_addr t1"
    and t1: "tree_key_length t1 = int kl" "tree_key_space_size t1 = kss" "0 < kl" "3 * kl \<le> kss" "length m = kl"
  shows "\<exists>sa. sa_rep kss kl sa [(m, q')] \<and> new_root t1 q m q' = Some
     (t1\<lparr>nodes := (nodes t1)
        (next_addr t1 \<mapsto> \<lparr>n_key_count = n_key_count n + n_key_count n', n_parent = NULL, n_magic = INTERNAL_NODE_MAGIC,
             keys_with_values = sa_new 0, n_next = NULL, n_prev = NULL,
             keys_with_right_children = sa, n_left_child = q\<rparr>,
         q \<mapsto> n\<lparr>n_parent := next_addr t1\<rparr>, q' \<mapsto> n'\<lparr>n_parent := next_addr t1\<rparr>),
       next_addr := Suc (next_addr t1), root_node := next_addr t1\<rparr>, NULL)"
proof -
  obtain sa0 where sa0: "sa_init (sa_new kss) (int kl) = Some sa0" "sa_rep kss kl sa0 []"
    using sa_init_rep [OF t1(3)] by blast
  have "\<not> sa_is_full sa0" using sa_is_full_iff [OF sa0(2)] t1(3,4) by simp
  then obtain sa where sa: "sa_put sa0 m q' = Some sa" "sa_rep kss kl sa [(m, q')]"
    using sa_put_spec [OF sa0(2) t1(5), of q'] by (auto simp: ord_put_def)
  have "next_addr t1 \<noteq> q" "next_addr t1 \<noteq> q'" using q by auto
  then show ?thesis
    using q t1(1,2) sa0(1) sa
    by (intro exI [of _ sa] conjI) (simp_all add: new_root_def new_internal_node_def set_left_child_def internal_put_def internal_at_def
        set_parent_def node_key_count_def set_key_count_def store_def Let_def fun_upd_twist)
qed


lemma new_root_spec:
  assumes sh: "shape kss kl t D (E # [])" and E: "E = [(s, q)]" and E1: "E1 = [(s, q), (Some m, next_addr t)]"
    and sp: "split_result kss kl t D E [] q m t1 E1"
  shows "\<exists>t2 U'. new_root t1 q m (next_addr t) = Some (t2, 0) \<and>
           climbed kss kl t1 E {} {q} m (next_addr t) \<mu> t2 0 U'"
proof -
  let ?q = "next_addr t" and ?r = "next_addr t1"
  note sd = shapeD [OF sh] and spd = split_resultD [OF sp]
  have q: "q < ?q" "0 < q" using sd(4) [of q] E by auto
  have s: "s = None" "root_node t1 = q" "map_option n_parent (nodes t1 q) = Some 0" using shapeD(1) [OF spd(3)] E by auto
  then obtain n where n: "nodes t1 q = Some n" by auto
  obtain n' where n': "nodes t1 ?q = Some n'" using spd(14) by auto
  obtain sa where sa: "sa_rep kss kl sa [(m, ?q)]"
    and root: "new_root t1 q m ?q = Some
     (t1\<lparr>nodes := (nodes t1)
        (?r \<mapsto> \<lparr>n_key_count = n_key_count n + n_key_count n', n_parent = NULL, n_magic = INTERNAL_NODE_MAGIC,
             keys_with_values = sa_new 0, n_next = NULL, n_prev = NULL,
             keys_with_right_children = sa, n_left_child = q\<rparr>,
         q \<mapsto> n\<lparr>n_parent := ?r\<rparr>, ?q \<mapsto> n'\<lparr>n_parent := ?r\<rparr>),
       next_addr := Suc ?r, root_node := ?r\<rparr>, NULL)"
    using new_root_eval [OF n n' _ _ _ shapeD(5-8) [OF spd(3)] spd(5)] q spd(9) by auto
  define t2 where "t2 = t1\<lparr>nodes := (nodes t1)
        (?r \<mapsto> \<lparr>n_key_count = n_key_count n + n_key_count n', n_parent = NULL, n_magic = INTERNAL_NODE_MAGIC,
             keys_with_values = sa_new 0, n_next = NULL, n_prev = NULL,
             keys_with_right_children = sa, n_left_child = q\<rparr>,
         q \<mapsto> n\<lparr>n_parent := ?r\<rparr>, ?q \<mapsto> n'\<lparr>n_parent := ?r\<rparr>),
       next_addr := Suc ?r, root_node := ?r\<rparr>"
  have r: "?r = Suc ?q" by (rule spd(9))
  have E1': "ord_put (Some m) ?q E = E1" by (simp add: E E1 s ord_put_def)
  have v: "seps t2 ?r = [(m, ?q)]" "lchild t2 ?r = q" "kids t2 ?r = [q, ?q]"
    using sa_rep_entries [OF sa] q r by (auto simp: seps_def lchild_def kids_def t2_def)
  have "\<exists>n. nodes t2 ?r = Some n \<and> n_magic n = INTERNAL_NODE_MAGIC \<and> keys_with_right_children n = sa"
    "map_option n_parent (nodes t2 q) = Some ?r" "map_option n_parent (nodes t2 ?q) = Some ?r"
    using q r by (simp_all add: t2_def)
  then have ok: "int_ok kss kl t2 ?r" using sa by (auto simp: int_ok_def v)
  have t2: "root_node t2 = ?r" "map_option n_parent (nodes t2 ?r) = Some 0" "next_addr t2 = Suc ?r"
    "tree_key_length t2 = tree_key_length t1" "tree_key_space_size t2 = tree_key_space_size t1"
    using q r by (simp_all add: t2_def)
  have up: "upper kss kl t2 E1 [[(None, ?r)]]"
    using ok by (simp add: expand_fst v E1 s t2)
  have "shape kss kl t2 E1 [[(None, ?r)]]"
    unfolding shape_def
  proof (intro conjI)
    show "sorted_keys E1" "distinct (ptrs E1 [[(None, ?r)]])" "\<forall>p\<in>set (ptrs E1 [[(None, ?r)]]). 0 < p \<and> p < next_addr t2"
      using q r t2(3) by (auto simp: E1 s)
  qed (use up shapeD(5-8) [OF spd(3)] t2 in simp_all)
  moreover have "defect t2 ?r = 0"
  proof -
    have "kcnt t2 ?r = n_key_count n + n_key_count n'" "kcnt t2 q = n_key_count n" "kcnt t2 ?q = n_key_count n'"
      using q r by (simp_all add: kcnt_def t2_def)
    then show ?thesis by (simp add: defect_def kidsum_def v)
  qed
  moreover have "reach t2 {?r} 0 ?r"
    by (rule reach_step) (use q r in \<open>simp_all add: t2_def par_def reach_fence\<close>)
  moreover have "par t2 q = ?r" "par t2 ?q = ?r" using q by (auto simp: par_def t2_def)
  moreover have "nodes t2 q = map_option (n_parent_update (\<lambda>_. ?r)) (nodes t1 q)"
    "nodes t2 ?q = map_option (n_parent_update (\<lambda>_. ?r)) (nodes t1 ?q)"
    using q n n' by (simp_all add: t2_def)
  moreover have "nodes t2 x = nodes t1 x" if "x < ?r" "x \<noteq> q" "x \<noteq> ?q" for x
    using that by (simp add: t2_def)
  moreover have "next_addr t2 = Suc ?r" "tree_initialized t2 = tree_initialized t1" by (simp_all add: t2_def)
  ultimately have "climbed kss kl t1 E {} {q} m ?q \<mu> t2 0 [[(None, ?r)]]"
    using E1' r unfolding climbed_def by (auto simp: E)
  then show ?thesis using root t2_def by blast
qed


section \<open>The recursion\<close>

lemma put_to_internal_node_unfold:
  "put_to_internal_node t node key key_node =
     do { n \<leftarrow> internal_at t node;
          if sa_is_full (keys_with_right_children n)
          then do {
            (right_node, mid_key, t1) \<leftarrow> internal_split t node;
            parent \<leftarrow> node_parent t1 node;
            (t2, unsplit_top_node) \<leftarrow>
              (if parent \<noteq> NULL then insert_child t1 parent mid_key right_node
               else new_root t1 node mid_key right_node);
            cmp \<leftarrow> tree_compare_keys t2 key mid_key;
            if cmp < 0 then do { t3 \<leftarrow> internal_put t2 node key key_node; Some (t3, unsplit_top_node) }
            else if 0 < cmp
            then do { t3 \<leftarrow> internal_put t2 right_node key key_node; Some (t3, unsplit_top_node) }
            else None }
          else do { t1 \<leftarrow> internal_put t node key key_node; Some (t1, node) } }"
  by (subst put_to_internal_node.simps) (simp only: insert_child_def new_root_def)

lemma put_to_internal_node_full:
  assumes "int_ok kss kl t q" and "kss < length (seps t q) * kl + kl"
    and "internal_split t q = Some (r, m, t1)" and "node_parent t1 q = Some p"
    and "(if p \<noteq> NULL then insert_child t1 p m r else new_root t1 q m r) = Some (t2, fence)"
    and "tree_compare_keys t2 k m = Some cmp" "cmp \<noteq> 0" and "internal_put t2 (if cmp < 0 then q else r) k z = Some t3"
  shows "put_to_internal_node t q k z = Some (t3, fence)"
proof -
  obtain n where n: "internal_at t q = Some n" "sa_rep kss kl (keys_with_right_children n) (seps t q)"
    using assms(1) by (auto simp: int_ok_def internal_at_def)
  have "sa_is_full (keys_with_right_children n)"
    using assms(2) by (simp add: sa_is_full_iff [OF n(2)])
  then show ?thesis using n(1) assms(3-)
    by (subst put_to_internal_node_unfold) (cases "p = NULL"; cases "cmp < 0"; simp)
qed

lemma tree_compare_keys_iff:
  assumes "tree_key_length t = int kl" "length k = kl" "length m = kl"
  obtains cmp where "tree_compare_keys t k m = Some cmp" "cmp < 0 \<longleftrightarrow> k < m" "cmp = 0 \<longleftrightarrow> k = m"
  using assms memcmp_iffs [of k kl m] by (simp add: tree_compare_keys_def)

text \<open>The parent of a node serves the separators next to it.\<close>

lemma serving_parent:
  assumes E: "A @ (s, q) # B = concat (map (expand t) F)" and sorted: "sorted_keys (A @ (s, q) # (m, r) # B)"
    and ok: "\<And>e. e \<in> set F \<Longrightarrow> int_ok kss kl t (snd e)"
  obtains A' s' p B' where "F = A' @ (s', p) # B'" "par t q = p" "q \<in> set (kids t p)" "s' < m" "\<forall>e\<in>set B'. m < fst e"
proof -
  have "(s, q) \<in> set (concat (map (expand t) F))" using E by (metis in_set_conv_decomp)
  then obtain e where e: "e \<in> set F" "(s, q) \<in> set (expand t e)" by auto
  obtain A' B' where F: "F = A' @ e # B'" using split_list [OF e(1)] by blast
  have sE: "sorted_keys (A @ (s, q) # B)" using sorted by (auto simp: sorted_wrt_append)
  then have sF: "sorted_keys (concat (map (expand t) (A' @ (fst e, snd e) # B')))" using E F by simp
  note b = serving_bounds [OF sF]
  have qk: "q \<in> set (kids t (snd e))" using e(2) by (force simp: kids_expand)
  have "fst e \<le> s" using b(3) e(2) by (auto simp: expand_def lift_sep_def less_imp_le)
  moreover have "s < m" using sorted by (simp add: sorted_wrt_append)
  ultimately have lt: "fst e < m" by (rule le_less_trans)
  define X Y Z where "X = concat (map (expand t) A')" and "Y = expand t e" and "Z = concat (map (expand t) B')"
  have eq: "A @ (s, q) # B = X @ Y @ Z" using E F by (simp add: X_def Y_def Z_def)
  have "m < fst e'" if "e' \<in> set B'" for e'
  proof -
    let ?w = "(fst e', lchild t (snd e'))"
    have w: "?w \<in> set Z" using that by (auto simp: expand_def Z_def)
    have "sorted_keys (X @ Y @ Z)" using sE eq by simp
    then have "s < fst e'" using e(2) w by (fastforce simp: sorted_wrt_append Y_def [symmetric])
    moreover have "?w \<in> set (A @ (s, q) # B)" using eq w by simp
    ultimately have "?w \<in> set B" using sE by (auto simp: sorted_wrt_append)
    then show ?thesis using sorted by (auto simp: sorted_wrt_append)
  qed
  then show ?thesis using that [of A' "fst e" "snd e" B'] F qk lt int_ok_par [OF ok [OF e(1)] qk] by simp
qed


text \<open>The counts of a split level sum up to those of the level below, so they stay in the range of an \<^verbatim>\<open>int\<close>.\<close>

lemma split_counts:
  assumes sh: "shape kss kl t D (E # U)" and E: "E = A @ (s, q) # B" and E1: "E1 = A @ (s, q) # (Some m, next_addr t) # B"
    and df: "\<And>x. x \<in> snd ` set E \<Longrightarrow> x \<noteq> q \<Longrightarrow> defect t x = 0"
    and sp: "split_result kss kl t D E U q m t1 E1"
    and nn: "\<forall>c\<in>snd ` set D. 0 \<le> kcnt t c" and lim: "sum_list (map (kcnt t \<circ> snd) D) < 2 ^ 31"
  shows "\<forall>c\<in>snd ` set E. 0 \<le> kcnt t1 c" and "sum_list (map (kcnt t1 \<circ> snd) E) < 2 ^ 31"
proof -
  note spd = split_resultD [OF sp] and sd = shapeD [OF sh]
  have c: "kcnt t1 c = kcnt t c" if "c \<in> snd ` set D" for c
  proof (rule spd(15))
    have "q \<in> snd ` set E" using E by simp
    then show "c \<noteq> q" "c \<noteq> next_addr t" using sd(11) sd(4) [of c] that by auto
  qed
  then have sumD: "map (kcnt t1 \<circ> snd) D = map (kcnt t \<circ> snd) D" by simp
  have nn1: "\<forall>c\<in>snd ` set (concat (map (expand t1) E1)). 0 \<le> kcnt t1 c"
    using nn c spd(1) by (metis (no_types, lifting))
  have k: "kcnt t1 (snd e) = kidsum t1 (snd e)" "0 \<le> kidsum t1 (snd e)" if "e \<in> set E1" for e
    using split_defects [OF sh E E1 df sp, of "snd e"] level_kidsum(2) [OF nn1 that] that by (simp_all add: defect_def)
  have sub: "set E \<subseteq> set E1" by (auto simp: E E1)
  with k show "\<forall>c\<in>snd ` set E. 0 \<le> kcnt t1 c" by force
  have "sum_list (map (kcnt t1 \<circ> snd) E1) = sum_list (map (kidsum t1 \<circ> snd) E1)" using k by (simp cong: map_cong)
  also have "\<dots> = sum_list (map (kcnt t1 \<circ> snd) D)" using level_sum [of t1 E1] spd(1) by simp
  also have "\<dots> < 2 ^ 31" using lim by (simp only: sumD)
  finally have "sum_list (map (kcnt t1 \<circ> snd) E1) < 2 ^ 31" .
  moreover have "sum_list (map (kcnt t1 \<circ> snd) E1) = sum_list (map (kcnt t1 \<circ> snd) E) + kcnt t1 (next_addr t)"
    by (simp add: E E1)
  moreover have "0 \<le> kcnt t1 (next_addr t)" using k [of "(Some m, next_addr t)"] E1 by simp
  ultimately show "sum_list (map (kcnt t1 \<circ> snd) E) < 2 ^ 31" by linarith
qed

lemma climb_full:
  assumes sh: "shape kss kl t D (E # U)" and E: "E = A @ (s, q) # B" and E1: "E1 = A @ (s, q) # (Some m, next_addr t) # B"
    and k: "s < Some k" "\<forall>e\<in>set B. Some k < fst e" "length k = kl" "Some k \<notin> fst ` set D"
    and z: "nodes t z \<noteq> None" "z \<notin> set (ptrs D (E # U))" "0 < z" "z < next_addr t"
    and df: "\<And>x. x \<in> snd ` set E \<Longrightarrow> x \<noteq> q \<Longrightarrow> defect t x = 0"
    and full: "kss < length (seps t q) * kl + kl"
    and split: "internal_split t q = Some (next_addr t, m, t1)" and sp: "split_result kss kl t D E U q m t1 E1"
    and raise: "node_parent t1 q = Some p"
      "(if p \<noteq> NULL then insert_child t1 p m (next_addr t) else new_root t1 q m (next_addr t)) = Some (t2, fence)"
    and cl: "climbed kss kl t1 E (ups U) K m (next_addr t) (kcnt t z + \<mu>) t2 fence U'" and K: "q \<in> K"
  shows "\<exists>t' fence U'. insert_child t q k z = Some (t', fence) \<and>
           climbed kss kl t D (ups (E # U)) (set (kids t q)) k z \<mu> t' fence U'"
proof -
  note spd = split_resultD [OF sp] and cld = climbedD [OF cl]
  have km: "k \<noteq> m" using spd(6) k(4) by blast
  obtain cmp where cmp: "tree_compare_keys t2 k m = Some cmp" "cmp < 0 \<longleftrightarrow> k < m" "cmp = 0 \<longleftrightarrow> k = m"
    using tree_compare_keys_iff [OF shapeD(5) [OF cld(1)] k(3) spd(5)] .
  let ?x = "if cmp < 0 then q else next_addr t"
  obtain A' s' B' where srv: "E1 = A' @ (s', ?x) # B'" "s' < Some k" "\<forall>e\<in>set B'. Some k < fst e"
  proof (cases "k < m")
    case True
    show ?thesis
      by (rule that [of A s "(Some m, next_addr t) # B"]) (use True k cmp(2) E1 in auto)
  next
    case False
    then have "m < k" using km by simp
    then show ?thesis
      by (intro that [of "A @ [(s, q)]" "Some m" B]) (use False k cmp(2) E1 in auto)
  qed
  have x: "?x = q \<or> ?x = next_addr t" by simp
  obtain t3 t' where fin: "internal_put t2 ?x k z = Some t3" "node_parent t3 z = Some ?x"
      "node_key_count t3 z = Some (kcnt t z)" "propagate_key_count_increment t3 ?x fence (kcnt t z) = Some t'"
    and res: "climbed kss kl t D (ups (E # U)) (set (kids t q)) k z \<mu> t' fence (E1 # U')"
    using climb_finish [OF sh E E1 k(3,4) z df sp cl K x srv] by blast
  have "(s, q) \<in> set E" using E by simp
  then have "int_ok kss kl t q" using shapeD(1) [OF sh] by auto
  then have "put_to_internal_node t q k z = Some (t3, fence)"
    by (rule put_to_internal_node_full [OF _ full split raise cmp(1) _ fin(1)]) (use km cmp(3) in simp)
  then show ?thesis using fin(2-4) res by (auto simp: insert_child_def)
qed

lemma insert_child_spec:
  assumes "shape kss kl t D (E # U)" and "E = A @ (s, q) # B"
    and "s < Some k" "\<forall>e\<in>set B. Some k < fst e" "length k = kl" "Some k \<notin> fst ` set D"
    and "nodes t z \<noteq> None" "z \<notin> set (ptrs D (E # U))" "0 < z" "z < next_addr t"
    and "\<And>x. x \<in> ups (E # U) \<Longrightarrow> defect t x = (if x = q then kcnt t z + \<mu> else 0)"
    and "\<forall>c\<in>snd ` set D. 0 \<le> kcnt t c" "sum_list (map (kcnt t \<circ> snd) D) < 2 ^ 31"
  shows "\<exists>t' fence U'. insert_child t q k z = Some (t', fence) \<and>
           climbed kss kl t D (ups (E # U)) (set (kids t q)) k z \<mu> t' fence U'"
  using assms
proof (induction U arbitrary: t D E A s q B k z \<mu>)
  case Nil
  note sh = Nil.prems(1) and E = Nil.prems(2) and k = Nil.prems(3-6) and z = Nil.prems(7-10)
  show ?case
  proof (cases "length (seps t q) * kl + kl \<le> kss")
    case True
    show ?thesis by (rule climb_room [OF sh E k z Nil.prems(11) True])
  next
    case False
    then have full: "kss < length (seps t q) * kl + kl" by simp
    have df: "defect t x = 0" if "x \<in> snd ` set E" "x \<noteq> q" for x using Nil.prems(11) that by auto
    obtain m t1 where split: "internal_split t q = Some (next_addr t, m, t1)"
      and sp: "split_result kss kl t D E [] q m t1 (A @ (s, q) # (Some m, next_addr t) # B)"
      using internal_split_spec [OF sh E full Nil.prems(12,13)] by blast
    have "A @ (s, q) # B = [(None, root_node t1)]" and r: "map_option n_parent (nodes t1 (root_node t1)) = Some NULL"
      using shapeD(1) [OF split_resultD(3) [OF sp]] E by auto
    then have "A = []" "B = []" "s = None" and q: "q = root_node t1" by (auto simp: append_eq_Cons_conv)
    moreover have par: "node_parent t1 q = Some NULL" using r q by (simp add: node_parent_def)
    ultimately obtain t2 U' where "new_root t1 q m (next_addr t) = Some (t2, 0)"
        "climbed kss kl t1 E (ups []) {q} m (next_addr t) (kcnt t z + \<mu>) t2 0 U'"
      using new_root_spec [OF sh, of s q "A @ (s, q) # (Some m, next_addr t) # B" m t1 "kcnt t z + \<mu>"] sp E by auto
    then show ?thesis
      using climb_full [OF sh E refl k z df full split sp par] by simp
  qed
next
  case (Cons F U)
  note sh = Cons.prems(1) and E = Cons.prems(2) and k = Cons.prems(3-6) and z = Cons.prems(7-10)
  show ?case
  proof (cases "length (seps t q) * kl + kl \<le> kss")
    case True
    show ?thesis by (rule climb_room [OF sh E k z Cons.prems(11) True])
  next
    case False
    then have full: "kss < length (seps t q) * kl + kl" by simp
    have df: "defect t x = 0" if "x \<in> snd ` set E" "x \<noteq> q" for x using Cons.prems(11) that by auto
    obtain m t1 where split: "internal_split t q = Some (next_addr t, m, t1)"
      and sp: "split_result kss kl t D E (F # U) q m t1 (A @ (s, q) # (Some m, next_addr t) # B)"
      using internal_split_spec [OF sh E full Cons.prems(12,13)] by blast
    note spd = split_resultD [OF sp]
    have up1: "E = concat (map (expand t1) F)" "\<And>e. e \<in> set F \<Longrightarrow> int_ok kss kl t1 (snd e)"
      using shapeD(1) [OF spd(3)] by auto
    obtain A' s' p B' where srv: "F = A' @ (s', p) # B'" "par t1 q = p" "q \<in> set (kids t1 p)"
        "s' < Some m" "\<forall>e\<in>set B'. Some m < fst e"
      using serving_parent [of A s q B t1 F "Some m" "next_addr t" kss kl] up1 E spd(4) by metis
    have "\<exists>t2 fence U'. insert_child t1 p m (next_addr t) = Some (t2, fence) \<and>
        climbed kss kl t1 E (ups (F # U)) (set (kids t1 p)) m (next_addr t) (kcnt t z + \<mu>) t2 fence U'"
    proof (rule Cons.IH [OF spd(3) srv(1,4,5) spd(5) _ spd(14)])
      show "Some m \<notin> fst ` set E" using spd(4) E by (auto simp: sorted_wrt_append)
      show "next_addr t \<notin> set (ptrs E (F # U))" "0 < next_addr t" "next_addr t < next_addr t1"
        using shapeD(4) [OF sh, of "next_addr t"] z(4) spd(9) by (auto simp: set_ptrs)
      show "\<forall>c\<in>snd ` set E. 0 \<le> kcnt t1 c" "sum_list (map (kcnt t1 \<circ> snd) E) < 2 ^ 31"
        using split_counts [OF sh E refl df sp Cons.prems(12,13)] by blast+
      have par: "par t q = par t1 q"
      proof -
        have pF: "p \<in> ups (F # U)" "q \<in> snd ` set E" using srv(1) E by auto
        have "nodes t1 p = nodes t p"
        proof (rule spd(12))
          show "p \<noteq> q" using shapeD(11) [OF shape_tail [OF sh]] pF by blast
          have "p \<in> ups (E # F # U)" using pF(1) by simp
          then show "p \<notin> snd ` set D" "p \<noteq> next_addr t" using shapeD(11) [OF sh] shapeD(4) [OF sh, of p] by blast+
        qed
        then have "q \<in> set (kids t p)" using srv(3) view_cong(3,4) [of t1 p t] by (simp add: kids_def)
        moreover have "int_ok kss kl t p" by (rule upper_int_ok [OF shapeD(1) [OF sh]]) (use pF in simp)
        ultimately show ?thesis using int_ok_par srv(2) by simp
      qed
      fix x assume x: "x \<in> ups (F # U)"
      have "q \<in> snd ` set E" using E by simp
      then have xq: "x \<noteq> q" using shapeD(11) [OF shape_tail [OF sh]] x by blast
      have "kcnt t q = kidsum t q + kcnt t z + \<mu>" using Cons.prems(11) [of q] E by (simp add: defect_def)
      then have "kcnt t q - kcnt t1 q = kcnt t1 (next_addr t) + (kcnt t z + \<mu>)" using spd(18) by simp
      moreover have "defect t x = 0" using Cons.prems(11) [of x] x xq by auto
      ultimately show "defect t1 x = (if x = p then kcnt t1 (next_addr t) + (kcnt t z + \<mu>) else 0)"
        using spd(19) [OF x] par srv(2) by simp
    qed
    then obtain t2 fence U' where r: "insert_child t1 p m (next_addr t) = Some (t2, fence)"
        "climbed kss kl t1 E (ups (F # U)) (set (kids t1 p)) m (next_addr t) (kcnt t z + \<mu>) t2 fence U'" by blast
    have "p \<noteq> 0" using shapeD(9) [OF spd(3)] srv(1) by auto
    moreover have "node_parent t1 q = Some p"
      using upper_exists [OF shapeD(1) [OF spd(3)], of q] E srv(2) by (auto simp: node_parent_def par_def)
    ultimately show ?thesis
      using climb_full [OF sh E refl k z df full split sp _ _ r(2) srv(3)] r(1) by simp
  qed
qed

end
