(* ===== verification/Tree_Search.thy ===== *)
theory Tree_Search
  imports Tree_Raise
begin

text \<open>
  The invariant of an array tree and what it represents, and the two searches from the root: by key
  and by rank.
\<close>

section \<open>The invariant\<close>

definition leaf_ok :: "nat \<Rightarrow> nat \<Rightarrow> array_tree \<Rightarrow> ptr \<Rightarrow> bool" where
  "leaf_ok kss kl t p \<longleftrightarrow>
     (\<exists>n. nodes t p = Some n \<and> n_magic n = LEAF_NODE_MAGIC \<and> sa_rep kss kl (keys_with_values n) (ents t p))"

definition ranged :: "array_tree \<Rightarrow> level \<Rightarrow> bool" where
  "ranged t D \<longleftrightarrow>
     (\<forall>e\<in>set D. \<forall>x\<in>set (ents t (snd e)).
        fst e \<le> Some (fst x) \<and> (\<forall>e'\<in>set D. fst e < fst e' \<longrightarrow> Some (fst x) < fst e'))"

lemma rangedD:
  assumes "ranged t D" "e \<in> set D" "x \<in> set (ents t (snd e))"
  shows "fst e \<le> Some (fst x)" and "e' \<in> set D \<Longrightarrow> fst e < fst e' \<Longrightarrow> Some (fst x) < fst e'"
  using assms unfolding ranged_def by blast+

text \<open>The doubly linked list of the leaves between a predecessor and a successor.\<close>

fun chain :: "array_tree \<Rightarrow> ptr \<Rightarrow> ptr list \<Rightarrow> ptr \<Rightarrow> bool" where
  "chain t prv [] nxt \<longleftrightarrow> True"
| "chain t prv (p # ps) nxt \<longleftrightarrow>
     map_option n_prev (nodes t p) = Some prv \<and>
     map_option n_next (nodes t p) = Some (hd (ps @ [nxt])) \<and> chain t p ps nxt"

definition content :: "array_tree \<Rightarrow> level \<Rightarrow> entries" where
  "content t D = concat (map (ents t \<circ> snd) D)"

text \<open>
  The invariant but for the key count of one leaf, which lacks \<open>\<delta>\<close>: the state in which
  \<^verbatim>\<open>propagate_key_count_increment\<close> is called.
\<close>

definition tree_pre :: "nat \<Rightarrow> nat \<Rightarrow> array_tree \<Rightarrow> level \<Rightarrow> level list \<Rightarrow> ptr \<Rightarrow> int \<Rightarrow> bool" where
  "tree_pre kss kl t D U x \<delta> \<longleftrightarrow>
     shape kss kl t D U \<and> U \<noteq> [] \<and> (\<forall>e\<in>set D. leaf_ok kss kl t (snd e)) \<and> ranged t D \<and>
     chain t NULL (map snd D) NULL \<and> (\<forall>y\<in>ups U. defect t y = 0) \<and>
     (\<forall>p\<in>snd ` set D. kcnt t p = int (length (ents t p)) - (if p = x then \<delta> else 0)) \<and> tree_initialized t \<and>
     length (content t D) < 2 ^ 31"

definition tree_inv :: "nat \<Rightarrow> nat \<Rightarrow> array_tree \<Rightarrow> level \<Rightarrow> level list \<Rightarrow> bool" where
  "tree_inv kss kl t D U \<longleftrightarrow> tree_pre kss kl t D U NULL 0"

text \<open>
  No leaf is empty, but for a tree that consists of one leaf. Deletions do not keep this: \<^verbatim>\<open>del\<close> leaves
  an empty leaf in place.
\<close>

definition filled :: "array_tree \<Rightarrow> level \<Rightarrow> bool" where
  "filled t D \<longleftrightarrow> length D = 1 \<or> (\<forall>e\<in>set D. ents t (snd e) \<noteq> [])"

definition tree_rep :: "nat \<Rightarrow> nat \<Rightarrow> array_tree \<Rightarrow> entries \<Rightarrow> bool" where
  "tree_rep kss kl t xs \<longleftrightarrow> (\<exists>D U. tree_inv kss kl t D U \<and> xs = content t D)"

lemma tree_invD:
  assumes "tree_inv kss kl t D U"
  shows "shape kss kl t D U" "U \<noteq> []" "\<And>e. e \<in> set D \<Longrightarrow> leaf_ok kss kl t (snd e)" "ranged t D"
    "chain t NULL (map snd D) NULL" "\<And>x. x \<in> ups U \<Longrightarrow> defect t x = 0"
    "\<And>p. p \<in> snd ` set D \<Longrightarrow> kcnt t p = int (length (ents t p))" "tree_initialized t"
    "length (content t D) < 2 ^ 31"
  using assms unfolding tree_inv_def tree_pre_def by auto

lemma content_simps [simp]:
  "content t [] = []" "content t (e # D) = ents t (snd e) @ content t D"
  "content t (D @ D') = content t D @ content t D'"
  by (simp_all add: content_def)

lemma set_content: "set (content t D) = (\<Union>e\<in>set D. set (ents t (snd e)))"
  by (auto simp: content_def)

lemma upper_head: "upper kss kl t D U \<Longrightarrow> \<exists>p D'. D = (None, p) # D'"
proof (induction U arbitrary: D)
  case (Cons E U)
  then have "upper kss kl t E U" by simp
  from Cons.IH [OF this] obtain p E' where "E = (None, p) # E'" by blast
  with Cons.prems show ?case by (auto simp: expand_fst)
qed simp

text \<open>A leaf that serves a key separates the keys of the leaves on either side.\<close>

lemma serving_content:
  assumes "sorted_keys D" "ranged t D" and D: "D = A @ (s, p) # B"
    and k: "s \<le> Some k" "\<forall>e\<in>set B. Some k < fst e"
  shows "\<forall>x\<in>set (content t A). fst x < k" and "\<forall>x\<in>set (content t B). k < fst x"
proof -
  show "\<forall>x\<in>set (content t A). fst x < k"
  proof
    fix x assume "x \<in> set (content t A)"
    then obtain e where e: "e \<in> set A" "x \<in> set (ents t (snd e))" by (auto simp: set_content)
    have "fst e < s" using assms(1) e(1) by (auto simp: D sorted_wrt_append)
    then have "Some (fst x) < s" using rangedD(2) [OF assms(2) _ e(2), of "(s, p)"] e(1) D by simp
    then have "Some (fst x) < Some k" using k(1) by (rule less_le_trans)
    then show "fst x < k" by simp
  qed
  show "\<forall>x\<in>set (content t B). k < fst x"
  proof
    fix x assume "x \<in> set (content t B)"
    then obtain e where e: "e \<in> set B" "x \<in> set (ents t (snd e))" by (auto simp: set_content)
    have "fst e \<le> Some (fst x)" using rangedD(1) [OF assms(2) _ e(2)] e(1) D by simp
    moreover have "Some k < fst e" using k(2) e(1) by blast
    ultimately have "Some k < Some (fst x)" by (rule less_le_trans [rotated])
    then show "k < fst x" by simp
  qed
qed

lemma content_sorted:
  assumes "tree_inv kss kl t D U"
  shows "sorted_keys (content t D)"
proof -
  have "sorted_keys (content t D')" if "D = A @ D'" for A D'
    using that
  proof (induction D' arbitrary: A)
    case (Cons e D')
    then have "sorted_keys (content t D')" using Cons.IH [of "A @ [e]"] by simp
    moreover have "sorted_keys (ents t (snd e))"
      using tree_invD(3) [OF assms, of e] Cons.prems sa_repD(11) by (auto simp: leaf_ok_def)
    moreover have "fst x < fst y" if x: "x \<in> set (ents t (snd e))" and y: "y \<in> set (content t D')" for x y
    proof -
      obtain e' where e': "e' \<in> set D'" "y \<in> set (ents t (snd e'))" using y by (auto simp: set_content)
      have "fst e < fst e'" using shapeD(2) [OF tree_invD(1) [OF assms]] Cons.prems e'(1) by (auto simp: sorted_wrt_append)
      then have "Some (fst x) < fst e'" using rangedD(2) [OF tree_invD(4) [OF assms] _ x] e'(1) Cons.prems by simp
      moreover have "fst e' \<le> Some (fst y)" using rangedD(1) [OF tree_invD(4) [OF assms] _ e'(2)] e'(1) Cons.prems by simp
      ultimately have "Some (fst x) < Some (fst y)" by (rule less_le_trans)
      then show ?thesis by simp
    qed
    ultimately show ?case by (auto simp: sorted_wrt_append)
  qed simp
  then show ?thesis by force
qed

lemma content_length:
  assumes "\<And>p. p \<in> snd ` set D \<Longrightarrow> kcnt t p = int (length (ents t p))"
  shows "sum_list (map (kcnt t \<circ> snd) D) = int (length (content t D))"
  using assms by (induction D) auto


section \<open>Search by key\<close>

lemma find_serving_node_by_key_spec:
  assumes ok: "int_ok kss kl t q" and nz: "0 \<notin> set (kids t q)" and k: "length k = kl"
    and nn: "\<forall>c\<in>set (kids t q). 0 \<le> kcnt t c" and lim: "kidsum t q < 2 ^ 31"
  shows "find_serving_node_by_key t q k want =
           Some (kids t q ! rank_le k (seps t q),
                 if want then sum_list (map (kcnt t) (take (rank_le k (seps t q)) (kids t q))) else 0)"
proof -
  obtain n where n: "internal_at t q = Some n" "sa_rep kss kl (keys_with_right_children n) (seps t q)" "n_left_child n = lchild t q"
    using ok by (auto simp: int_ok_def internal_at_def lchild_def)
  let ?r = "rank_le k (seps t q)"
  have r: "?r \<le> length (seps t q)" by (rule rank_le_length)
  then have "?r \<le> Suc (length (seps t q))" by simp
  note c = count_all_keys_before_position_spec [OF int_ok_sa [OF ok] nn lim this]
  have child: "snd (seps t q ! (?r - 1)) = kids t q ! ?r" "snd (seps t q ! (?r - 1)) \<noteq> 0" if "?r \<noteq> 0"
  proof -
    from that obtain j where j: "?r = Suc j" by (cases ?r) auto
    then have "j < length (seps t q)" using r by simp
    then have "snd (seps t q ! j) \<in> set (kids t q)" by (simp add: kids_def)
    then show "snd (seps t q ! (?r - 1)) \<noteq> 0" using nz j by (metis diff_Suc_1)
    show "snd (seps t q ! (?r - 1)) = kids t q ! ?r" using j r by (simp add: kids_def)
  qed
  have "kids t q ! 0 = lchild t q" by (simp add: kids_def)
  then show ?thesis
    using n(1,3) c child
    by (cases "?r = 0") (simp_all add: find_serving_node_by_key_def find_last_le_key_spec [OF n(2) k] Let_def)
qed

lemma expand_at_rank:
  assumes "sorted_keys (seps t q)" and "s \<le> Some k"
  defines "r \<equiv> rank_le k (seps t q)"
  shows "fst (expand t (s, q) ! r) \<le> Some k" and "\<forall>e\<in>set (drop (Suc r) (expand t (s, q))). Some k < fst e"
    and "r < length (expand t (s, q))" and "snd (expand t (s, q) ! r) = kids t q ! r"
    and "map snd (take r (expand t (s, q))) = take r (kids t q)"
proof -
  have r: "r \<le> length (seps t q)" unfolding r_def by (rule rank_le_length)
  then show rl: "r < length (expand t (s, q))" by (simp add: expand_fst)
  then show "snd (expand t (s, q) ! r) = kids t q ! r" by (metis map_snd_expand nth_map snd_conv)
  show "map snd (take r (expand t (s, q))) = take r (kids t q)" by (metis map_snd_expand snd_conv take_map)
  have "set (drop r (seps t q)) = {e \<in> set (seps t q). k < fst e}"
    unfolding r_def by (simp flip: filter_sorted_take(4) [OF assms(1)])
  then show "\<forall>e\<in>set (drop (Suc r) (expand t (s, q))). Some k < fst e"
    by (auto simp: expand_fst lift_sep_def drop_map)
  show "fst (expand t (s, q) ! r) \<le> Some k"
  proof (cases r)
    case (Suc j)
    have "set (take r (seps t q)) = {e \<in> set (seps t q). fst e \<le> k}"
      unfolding r_def by (simp flip: filter_sorted_take(2) [OF assms(1)])
    moreover have "seps t q ! j \<in> set (take r (seps t q))"
      using Suc r by (metis Suc_le_eq in_set_conv_nth length_take lessI min.absorb2 nth_take)
    ultimately show ?thesis using Suc r by (simp add: expand_fst lift_sep_def)
  qed (simp add: expand_fst assms(2))
qed

lemma insert_segment: "x = a @ e # b \<Longrightarrow> ys = p @ x @ q \<Longrightarrow> ys = (p @ a) @ e # (b @ q)"
  by simp

lemma find_leaf_loop_level:
  assumes up: "upper kss kl t D U" "sorted_keys D" "0 \<notin> snd ` set D \<union> ups U" and k: "length k = kl"
    and nn: "\<forall>c\<in>snd ` set D. 0 \<le> kcnt t c" "sum_list (map (kcnt t \<circ> snd) D) < 2 ^ 31"
    and df: "\<forall>x\<in>ups U. defect t x = 0"
  shows "\<exists>A s p B. D = A @ (s, p) # B \<and> s \<le> Some k \<and> (\<forall>e\<in>set B. Some k < fst e) \<and>
           find_leaf_loop t k want (root_node t) 0 =
             find_leaf_loop t k want p (if want then sum_list (map (kcnt t \<circ> snd) A) else 0)"
  using assms
proof (induction U arbitrary: D)
  case Nil
  then have D: "D = [] @ (None, root_node t) # []" by simp
  show ?case by (intro exI conjI, rule D) auto
next
  case (Cons E U)
  have D: "D = concat (map (expand t) E)" and up: "upper kss kl t E U"
    and ok: "\<And>e. e \<in> set E \<Longrightarrow> int_ok kss kl t (snd e)" using Cons.prems(1) by auto
  have cnt: "kcnt t (snd e) = kidsum t (snd e)" "0 \<le> kidsum t (snd e)" "kidsum t (snd e) < 2 ^ 31" if "e \<in> set E" for e
  proof -
    have "\<forall>c\<in>snd ` set (concat (map (expand t) E)). 0 \<le> kcnt t c" using Cons.prems(5) D by simp
    note l = level_kidsum [OF this that]
    show "0 \<le> kidsum t (snd e)" "kidsum t (snd e) < 2 ^ 31"
      using l(2) le_less_trans [OF l(1) Cons.prems(6) [unfolded D]] by simp_all
    show "kcnt t (snd e) = kidsum t (snd e)" using Cons.prems(7) that by (auto simp: defect_def)
  qed
  have sumE: "sum_list (map (kcnt t \<circ> snd) F) = sum_list (map (kcnt t \<circ> snd) (concat (map (expand t) F)))"
    if "set F \<subseteq> set E" for F
    using that cnt(1) unfolding level_sum by (induction F) auto
  obtain A s q B where E: "E = A @ (s, q) # B" "s \<le> Some k" "\<forall>e\<in>set B. Some k < fst e"
    and IH: "find_leaf_loop t k want (root_node t) 0 =
        find_leaf_loop t k want q (if want then sum_list (map (kcnt t \<circ> snd) A) else 0)"
  proof -
    have sE: "sorted_keys E" using Cons.prems(2) D sorted_levels by metis
    have nnE: "\<forall>c\<in>snd ` set E. 0 \<le> kcnt t c" using cnt by auto
    have limE: "sum_list (map (kcnt t \<circ> snd) E) < 2 ^ 31" using Cons.prems(6) sumE [OF order_refl] by (simp only: D)
    have "0 \<notin> snd ` set E \<union> ups U" "\<forall>x\<in>ups U. defect t x = 0" using Cons.prems(3,7) by auto
    from Cons.IH [OF up sE this(1) k nnE limE this(2)] show ?thesis using that by blast
  qed
  have qE: "(s, q) \<in> set E" using E(1) by simp
  have sD: "sorted_keys (concat (map (expand t) (A @ (s, q) # B)))" using Cons.prems(2) D E(1) by simp
  have okq: "int_ok kss kl t q" using ok [OF qE] by simp
  have kD: "set (kids t q) \<subseteq> snd ` set D" using kids_level [OF qE, of t] D by simp
  let ?r = "rank_le k (seps t q)" and ?X = "expand t (s, q)"
  obtain n where n: "nodes t q = Some n" "n_magic n = INTERNAL_NODE_MAGIC"
      "sa_rep kss kl (keys_with_right_children n) (seps t q)" using okq by (auto simp: int_ok_def)
  note x = expand_at_rank [OF sa_repD(11) [OF n(3)] E(2)]
  have serve: "find_serving_node_by_key t q k want =
      Some (kids t q ! ?r, if want then sum_list (map (kcnt t) (take ?r (kids t q))) else 0)"
    by (rule find_serving_node_by_key_spec [OF okq _ k]) (use kD Cons.prems(3,5) cnt(3) [OF qE] in auto)
  let ?A = "concat (map (expand t) A) @ take ?r ?X" and ?B = "drop (Suc ?r) ?X @ concat (map (expand t) B)"
  have "D = ?A @ (fst (?X ! ?r), kids t q ! ?r) # ?B"
  proof -
    have "?X = take ?r ?X @ ?X ! ?r # drop (Suc ?r) ?X" using x(3) by (rule id_take_nth_drop)
    moreover have "?X ! ?r = (fst (?X ! ?r), kids t q ! ?r)" using x(4) by (simp add: prod_eq_iff)
    ultimately have "?X = take ?r ?X @ (fst (?X ! ?r), kids t q ! ?r) # drop (Suc ?r) ?X" by simp
    moreover have "D = concat (map (expand t) A) @ ?X @ concat (map (expand t) B)" using D E(1) by simp
    ultimately show ?thesis by (rule insert_segment)
  qed
  moreover have "\<forall>e\<in>set ?B. Some k < fst e" using x(2) serving_bounds(2) [OF sD E(3)] by auto
  moreover have "find_leaf_loop t k want q (if want then sum_list (map (kcnt t \<circ> snd) A) else 0) =
      find_leaf_loop t k want (kids t q ! ?r) (if want then sum_list (map (kcnt t \<circ> snd) ?A) else 0)"
  proof -
    have "map (kcnt t \<circ> snd) (take ?r ?X) = map (kcnt t) (take ?r (kids t q))" using x(5) by (metis map_map)
    moreover have "set A \<subseteq> set E" using E(1) by auto
    ultimately have "sum_list (map (kcnt t \<circ> snd) ?A) =
        sum_list (map (kcnt t \<circ> snd) A) + sum_list (map (kcnt t) (take ?r (kids t q)))"
      using sumE by (simp only: map_append sum_list.append)
    then show ?thesis using n(1,2) serve by (subst find_leaf_loop.simps) simp
  qed
  ultimately show ?case using x(1) IH by (metis (no_types, lifting))
qed


lemma tree_counts:
  assumes "tree_inv kss kl t D U"
  shows "\<forall>c\<in>snd ` set D. 0 \<le> kcnt t c" and "sum_list (map (kcnt t \<circ> snd) D) < 2 ^ 31"
proof -
  show "\<forall>c\<in>snd ` set D. 0 \<le> kcnt t c" using tree_invD(7) [OF assms] by simp
  show "sum_list (map (kcnt t \<circ> snd) D) < 2 ^ 31"
    using content_length [OF tree_invD(7) [OF assms]] tree_invD(9) [OF assms] by simp
qed

lemma find_leaf_node_spec:
  assumes inv: "tree_inv kss kl t D U" and k: "length k = kl"
  obtains A s p B where "D = A @ (s, p) # B" "s \<le> Some k" "\<forall>e\<in>set B. Some k < fst e"
    "\<forall>want. find_leaf_node t k want = Some (p, if want then int (length (content t A)) else 0)"
proof -
  note sd = shapeD [OF tree_invD(1) [OF inv]] and inv' = tree_invD [OF inv]
  have ex: "\<exists>A s p B. D = A @ (s, p) # B \<and> s \<le> Some k \<and> (\<forall>e\<in>set B. Some k < fst e) \<and>
      find_leaf_node t k want = Some (p, if want then int (length (content t A)) else 0)" for want
  proof -
    obtain A s p B where D: "D = A @ (s, p) # B" "s \<le> Some k" "\<forall>e\<in>set B. Some k < fst e"
      and l: "find_leaf_loop t k want (root_node t) 0 =
          find_leaf_loop t k want p (if want then sum_list (map (kcnt t \<circ> snd) A) else 0)"
      using find_leaf_loop_level [OF sd(1,2,9) k tree_counts [OF inv]] inv'(6) by blast
    have "leaf_ok kss kl t p" using inv'(3) [of "(s, p)"] D(1) by simp
    then have "find_leaf_loop t k want p c = Some (p, c)" for c
      by (subst find_leaf_loop.simps) (auto simp: leaf_ok_def)
    moreover have "sum_list (map (kcnt t \<circ> snd) A) = int (length (content t A))"
      by (rule content_length) (use inv'(7) D(1) in auto)
    ultimately have "find_leaf_node t k want = Some (p, if want then int (length (content t A)) else 0)"
      using l by (simp add: find_leaf_node_def)
    with D show ?thesis by blast
  qed
  have uniq: "A = A' \<and> s = s' \<and> p = p' \<and> B = B'"
    if 1: "D = A @ (s, p) # B" "s \<le> Some k" "\<forall>e\<in>set B. Some k < fst e"
      and 2: "D = A' @ (s', p') # B'" "s' \<le> Some k" "\<forall>e\<in>set B'. Some k < fst e" for A s p B A' s' p' B'
  proof -
    have "length A = length (filter (\<lambda>e. fst e \<le> Some k) D) - 1"
      if D: "D = A @ (s, p) # B" "s \<le> Some k" "\<forall>e\<in>set B. Some k < fst e" for A s p B
    proof -
      have "\<forall>e\<in>set A. fst e \<le> Some k" using sd(2) D(1,2) by (auto simp: sorted_wrt_append less_imp_le intro: order_trans)
      then have "filter (\<lambda>e. fst e \<le> Some k) A = A" "filter (\<lambda>e. fst e \<le> Some k) B = []"
        using D(3) by (auto simp: filter_empty_conv filter_id_conv not_le)
      then show ?thesis using D by simp
    qed
    then have "length A = length A'" using 1 2 by metis
    then show ?thesis using 1(1) 2(1) by simp
  qed
  obtain A s p B where 1: "D = A @ (s, p) # B" "s \<le> Some k" "\<forall>e\<in>set B. Some k < fst e"
    using ex by blast
  show ?thesis
  proof (rule that [OF 1], rule allI)
    fix want
    show "find_leaf_node t k want = Some (p, if want then int (length (content t A)) else 0)"
      using ex [of want] uniq [OF 1] by blast
  qed
qed

section \<open>Search by rank\<close>

lemma node_key_count_eq: "nodes t c \<noteq> None \<Longrightarrow> node_key_count t c = Some (kcnt t c)"
  by (auto simp: node_key_count_def kcnt_def)

lemma serving_node_loop_spec:
  assumes rep: "sa_rep kss kl sa es" and ex: "\<forall>c\<in>snd ` set es. nodes t c \<noteq> None \<and> 0 \<le> kcnt t c"
    and "i \<le> j" "j < length es"
    and "sum_list (map (kcnt t \<circ> snd) (take (j - i) (drop i es))) < l"
      "l \<le> sum_list (map (kcnt t \<circ> snd) (take (j - i) (drop i es))) + kcnt t (snd (es ! j))"
  shows "serving_node_loop t sa (int i) l =
           Some (snd (es ! j), l - sum_list (map (kcnt t \<circ> snd) (take (j - i) (drop i es))))"
  using assms(3-)
proof (induction i arbitrary: l rule: inc_induct)
  case base
  have c: "node_key_count t (snd (es ! j)) = Some (kcnt t (snd (es ! j)))"
    by (rule node_key_count_eq) (use ex nth_mem [OF base(1)] in blast)
  show ?case
    using base sa_rep_data_at [OF rep base(1)] c sa_repD(5) [OF rep] by (subst serving_node_loop.simps) simp
next
  case (step i)
  have i: "i < length es" using step by simp
  have c: "node_key_count t (snd (es ! i)) = Some (kcnt t (snd (es ! i)))"
    by (rule node_key_count_eq) (use ex nth_mem [OF i] in blast)
  have split: "take (j - i) (drop i es) = es ! i # take (j - Suc i) (drop (Suc i) es)"
    using i step.hyps by (metis Cons_nth_drop_Suc Suc_diff_Suc take_Suc_Cons)
  have nn: "0 \<le> sum_list (map (kcnt t \<circ> snd) (take n (drop m es)))" for n m
    using ex by (intro sum_list_nonneg) (auto dest!: in_set_takeD in_set_dropD)
  have "\<not> l \<le> kcnt t (snd (es ! i))" using step.prems(2) nn [of "j - Suc i" "Suc i"] by (simp add: split comp_def)
  moreover have "serving_node_loop t sa (int (Suc i)) (l - kcnt t (snd (es ! i))) =
      Some (snd (es ! j), l - kcnt t (snd (es ! i)) - sum_list (map (kcnt t \<circ> snd) (take (j - Suc i) (drop (Suc i) es))))"
    by (rule step.IH) (use step.prems in \<open>auto simp: split comp_def\<close>)
  ultimately show ?case
    using sa_rep_data_at [OF rep i] c sa_repD(5) [OF rep] i
    by (subst serving_node_loop.simps) (simp add: split algebra_simps)
qed

lemma rank_split:
  fixes f :: "ptr \<Rightarrow> int"
  assumes "1 \<le> m" "m \<le> sum_list (map f xs)"
  obtains r where "r < length xs" "sum_list (map f (take r xs)) < m" "m \<le> sum_list (map f (take r xs)) + f (xs ! r)"
proof -
  have "\<exists>r < length xs. sum_list (map f (take r xs)) < m \<and> m \<le> sum_list (map f (take r xs)) + f (xs ! r)"
    using assms
  proof (induction xs rule: rev_induct)
    case (snoc x xs)
    show ?case
    proof (cases "m \<le> sum_list (map f xs)")
      case True
      then obtain r where "r < length xs" "sum_list (map f (take r xs)) < m" "m \<le> sum_list (map f (take r xs)) + f (xs ! r)"
        using snoc by blast
      then show ?thesis by (intro exI [of _ r]) (simp add: nth_append)
    next
      case False
      then show ?thesis using snoc.prems by (intro exI [of _ "length xs"]) simp
    qed
  qed simp
  then show ?thesis using that by blast
qed


lemma find_serving_node_by_order_spec:
  assumes ok: "int_ok kss kl t q" and nn: "\<forall>c\<in>set (kids t q). 0 \<le> kcnt t c"
    and r: "r < length (kids t q)" "sum_list (map (kcnt t) (take r (kids t q))) < m"
      "m \<le> sum_list (map (kcnt t) (take r (kids t q))) + kcnt t (kids t q ! r)"
  shows "find_serving_node_by_order t q m = Some (kids t q ! r, sum_list (map (kcnt t) (take r (kids t q))))"
proof -
  obtain n where n: "internal_at t q = Some n" "sa_rep kss kl (keys_with_right_children n) (seps t q)" "n_left_child n = lchild t q"
    using ok by (auto simp: int_ok_def internal_at_def lchild_def)
  have ex: "nodes t c \<noteq> None" if "c \<in> set (kids t q)" for c using int_ok_par [OF ok that] by simp
  have l: "node_key_count t (lchild t q) = Some (kcnt t (lchild t q))"
    by (rule node_key_count_eq) (use ex in \<open>simp add: kids_def\<close>)
  show ?thesis
  proof (cases r)
    case 0
    then show ?thesis using r n(1,3) l by (simp add: find_serving_node_by_order_def kids_def)
  next
    case (Suc j)
    then have j: "j < length (seps t q)" using r(1) by (simp add: kids_def)
    let ?s = "sum_list (map (kcnt t \<circ> snd) (take j (seps t q)))"
    have s: "sum_list (map (kcnt t) (take r (kids t q))) = kcnt t (lchild t q) + ?s"
      using Suc by (simp add: take_kids take_map)
    have kj: "kids t q ! r = snd (seps t q ! j)" using Suc j by (simp add: kids_def)
    have "0 \<le> ?s" using nn by (intro sum_list_nonneg) (auto simp: kids_def dest!: in_set_takeD)
    then have gt: "\<not> m \<le> kcnt t (lchild t q)" using r(2) s by simp
    have "serving_node_loop t (keys_with_right_children n) (int 0) (m - kcnt t (lchild t q)) =
        Some (snd (seps t q ! j), m - kcnt t (lchild t q) - sum_list (map (kcnt t \<circ> snd) (take (j - 0) (drop 0 (seps t q)))))"
      by (rule serving_node_loop_spec [OF n(2)]) (use ex nn j r(2,3) s kj in \<open>auto simp: kids_def\<close>)
    then show ?thesis using n(1,3) l gt s kj by (simp add: find_serving_node_by_order_def)
  qed
qed

lemma find_leaf_by_order_level:
  assumes up: "upper kss kl t D U" and nn: "\<forall>c\<in>snd ` set D. 0 \<le> kcnt t c"
    and df: "\<forall>x\<in>ups U. defect t x = 0" and m: "1 \<le> m" "m \<le> sum_list (map (kcnt t \<circ> snd) D)"
  shows "\<exists>A s p B. D = A @ (s, p) # B \<and> sum_list (map (kcnt t \<circ> snd) A) < m \<and>
           m \<le> sum_list (map (kcnt t \<circ> snd) A) + kcnt t p \<and>
           find_leaf_by_order_loop t m (root_node t) 0 =
             find_leaf_by_order_loop t (m - sum_list (map (kcnt t \<circ> snd) A)) p (sum_list (map (kcnt t \<circ> snd) A))"
  using assms
proof (induction U arbitrary: D)
  case Nil
  then have D: "D = [] @ (None, root_node t) # []" by simp
  show ?case by (intro exI conjI, rule D) (use Nil.prems D in auto)
next
  case (Cons E U)
  have D: "D = concat (map (expand t) E)" and up: "upper kss kl t E U"
    and ok: "\<And>e. e \<in> set E \<Longrightarrow> int_ok kss kl t (snd e)" using Cons.prems(1) by auto
  have nnD: "\<forall>c\<in>snd ` set (concat (map (expand t) E)). 0 \<le> kcnt t c" using Cons.prems(2) D by simp
  have cnt: "kcnt t (snd e) = kidsum t (snd e)" "0 \<le> kidsum t (snd e)" if "e \<in> set E" for e
    using level_kidsum(2) [OF nnD that] Cons.prems(3) that by (auto simp: defect_def)
  have sumE: "sum_list (map (kcnt t \<circ> snd) F) = sum_list (map (kcnt t \<circ> snd) (concat (map (expand t) F)))"
    if "set F \<subseteq> set E" for F
    using that cnt(1) unfolding level_sum by (induction F) auto
  have nnE: "\<forall>c\<in>snd ` set E. 0 \<le> kcnt t c" using cnt by auto
  have mE: "m \<le> sum_list (map (kcnt t \<circ> snd) E)" using Cons.prems(5) sumE [OF order_refl] by (simp only: D)
  have dfU: "\<forall>x\<in>ups U. defect t x = 0" using Cons.prems(3) by auto
  obtain A s q B where E: "E = A @ (s, q) # B" and b: "sum_list (map (kcnt t \<circ> snd) A) < m"
      "m \<le> sum_list (map (kcnt t \<circ> snd) A) + kcnt t q"
    and IH: "find_leaf_by_order_loop t m (root_node t) 0 =
        find_leaf_by_order_loop t (m - sum_list (map (kcnt t \<circ> snd) A)) q (sum_list (map (kcnt t \<circ> snd) A))"
    using Cons.IH [OF up nnE dfU m(1) mE] by blast
  let ?a = "sum_list (map (kcnt t \<circ> snd) A)"
  have qE: "(s, q) \<in> set E" using E by simp
  have okq: "int_ok kss kl t q" using ok [OF qE] by simp
  have nnq: "\<forall>c\<in>set (kids t q). 0 \<le> kcnt t c" using kids_level [OF qE, of t] nnD by auto
  have "1 \<le> m - ?a" "m - ?a \<le> sum_list (map (kcnt t) (kids t q))"
    using b cnt(1) [OF qE] by (simp_all add: kidsum_def)
  then obtain r where r: "r < length (kids t q)" "sum_list (map (kcnt t) (take r (kids t q))) < m - ?a"
      "m - ?a \<le> sum_list (map (kcnt t) (take r (kids t q))) + kcnt t (kids t q ! r)"
    by (rule rank_split)
  note serve = find_serving_node_by_order_spec [OF okq nnq r]
  obtain n where n: "nodes t q = Some n" "n_magic n = INTERNAL_NODE_MAGIC" using okq by (auto simp: int_ok_def)
  let ?X = "expand t (s, q)" and ?c = "sum_list (map (kcnt t) (take r (kids t q)))"
  let ?A = "concat (map (expand t) A) @ take r ?X" and ?B = "drop (Suc r) ?X @ concat (map (expand t) B)"
  have rX: "r < length ?X" using r(1) by (metis length_map map_snd_expand snd_conv)
  have "snd (?X ! r) = kids t q ! r" by (metis map_snd_expand nth_map rX snd_conv)
  moreover have "?X = take r ?X @ ?X ! r # drop (Suc r) ?X" using rX by (rule id_take_nth_drop)
  ultimately have X: "?X = take r ?X @ (fst (?X ! r), kids t q ! r) # drop (Suc r) ?X" by (metis prod.collapse)
  have "D = concat (map (expand t) A) @ ?X @ concat (map (expand t) B)" using D E by simp
  then have D': "D = ?A @ (fst (?X ! r), kids t q ! r) # ?B" by (rule insert_segment [OF X])
  have "map (kcnt t \<circ> snd) (take r ?X) = map (kcnt t) (take r (kids t q))" by (metis map_map map_snd_expand snd_conv take_map)
  moreover have "set A \<subseteq> set E" using E by auto
  ultimately have sA: "sum_list (map (kcnt t \<circ> snd) ?A) = ?a + ?c"
    using sumE by (simp only: map_append sum_list.append)
  have "find_leaf_by_order_loop t (m - ?a) q ?a = find_leaf_by_order_loop t (m - ?a - ?c) (kids t q ! r) (?a + ?c)"
    using n serve by (subst find_leaf_by_order_loop.simps) simp
  then show ?case using IH D' sA r
    by (intro exI [of _ ?A] exI [of _ "fst (?X ! r)"] exI [of _ "kids t q ! r"] exI [of _ ?B]) (simp only: diff_diff_eq, simp)
qed


lemma find_leaf_node_by_order_spec:
  assumes inv: "tree_inv kss kl t D U" and m: "1 \<le> m" "m \<le> length (content t D)"
  obtains A s p B where "D = A @ (s, p) # B" "length (content t A) < m" "m \<le> length (content t A) + length (ents t p)"
    "find_leaf_node_by_order t (int m) = Some (p, int (length (content t A)))"
proof -
  note inv' = tree_invD [OF inv]
  have "int m \<le> sum_list (map (kcnt t \<circ> snd) D)" using m(2) content_length [OF inv'(7)] by simp
  moreover have "1 \<le> int m" using m(1) by simp
  moreover have "\<forall>x\<in>ups U. defect t x = 0" using inv'(6) by blast
  ultimately obtain A s p B where D: "D = A @ (s, p) # B" and b: "sum_list (map (kcnt t \<circ> snd) A) < int m"
      "int m \<le> sum_list (map (kcnt t \<circ> snd) A) + kcnt t p"
    and l: "find_leaf_by_order_loop t (int m) (root_node t) 0 =
             find_leaf_by_order_loop t (int m - sum_list (map (kcnt t \<circ> snd) A)) p (sum_list (map (kcnt t \<circ> snd) A))"
    using find_leaf_by_order_level [OF shapeD(1) [OF inv'(1)] tree_counts(1) [OF inv]] by blast
  have sA: "sum_list (map (kcnt t \<circ> snd) A) = int (length (content t A))"
    by (rule content_length) (use inv'(7) D in auto)
  have "leaf_ok kss kl t p" using inv'(3) [of "(s, p)"] D by simp
  then have "find_leaf_by_order_loop t i p c = Some (p, c)" for i c
    by (subst find_leaf_by_order_loop.simps) (auto simp: leaf_ok_def)
  then have "find_leaf_node_by_order t (int m) = Some (p, int (length (content t A)))"
    using l sA by (simp add: find_leaf_node_by_order_def)
  moreover have "kcnt t p = int (length (ents t p))" using inv'(7) [of p] D by simp
  ultimately show ?thesis using that [OF D] b sA by simp
qed

lemma root_count:
  assumes "upper kss kl t D U" and "\<forall>x\<in>ups U. defect t x = 0"
  shows "kcnt t (root_node t) = sum_list (map (kcnt t \<circ> snd) D)"
  using assms
proof (induction U arbitrary: D)
  case (Cons E U)
  have "sum_list (map (kcnt t \<circ> snd) D) = sum_list (map (kidsum t \<circ> snd) E)" using Cons.prems(1) level_sum by simp
  also have "\<dots> = sum_list (map (kcnt t \<circ> snd) E)"
    using Cons.prems(2) by (intro arg_cong [where f = sum_list] map_cong) (auto simp: defect_def)
  finally have "sum_list (map (kcnt t \<circ> snd) D) = sum_list (map (kcnt t \<circ> snd) E)" .
  moreover have "kcnt t (root_node t) = sum_list (map (kcnt t \<circ> snd) E)" by (rule Cons.IH) (use Cons.prems in auto)
  ultimately show ?case by (simp only:)
qed simp

lemma upper_root_exists: "upper kss kl t D U \<Longrightarrow> nodes t (root_node t) \<noteq> None"
  by (induction U arbitrary: D) auto

lemma root_key_count:
  assumes inv: "tree_inv kss kl t D U"
  shows "node_key_count t (root_node t) = Some (int (length (content t D)))"
proof -
  note inv' = tree_invD [OF inv]
  have "kcnt t (root_node t) = sum_list (map (kcnt t \<circ> snd) D)"
    by (rule root_count [OF shapeD(1) [OF inv'(1)]]) (use inv'(6) in blast)
  then show ?thesis
    using node_key_count_eq [OF upper_root_exists [OF shapeD(1) [OF inv'(1)]]] content_length [OF inv'(7)] by simp
qed

section \<open>Reading the tree\<close>

lemma leaf_at_ok:
  assumes "leaf_ok kss kl t p"
  obtains n where "leaf_at t p = Some n" "nodes t p = Some n" "n_magic n = LEAF_NODE_MAGIC"
    "sa_rep kss kl (keys_with_values n) (ents t p)"
  using assms by (auto simp: leaf_ok_def leaf_at_def)

lemma tree_rep_sorted: "tree_rep kss kl t xs \<Longrightarrow> sorted_keys xs"
  using content_sorted by (auto simp: tree_rep_def)

lemma tree_get_spec:
  assumes rep: "tree_rep kss kl t xs" and k: "length k = kl"
  shows "\<exists>ord. tree_get t k want = Some (case map_of xs k of None \<Rightarrow> NULL | Some v \<Rightarrow> v, ord) \<and>
           (want \<longrightarrow> map_of xs k \<noteq> None \<longrightarrow> ord = int (rank_le k xs))"
proof -
  obtain D U where inv: "tree_inv kss kl t D U" and xs: "xs = content t D" using rep by (auto simp: tree_rep_def)
  note inv' = tree_invD [OF inv]
  obtain A s p B where D: "D = A @ (s, p) # B" "s \<le> Some k" "\<forall>e\<in>set B. Some k < fst e"
    and f: "\<forall>want. find_leaf_node t k want = Some (p, if want then int (length (content t A)) else 0)"
    by (rule find_leaf_node_spec [OF inv k])
  note seg = serving_content [OF shapeD(2) [OF inv'(1)] inv'(4) D]
  obtain n where n: "leaf_at t p = Some n" "sa_rep kss kl (keys_with_values n) (ents t p)"
    using inv'(3) [of "(s, p)"] D(1) by (auto elim: leaf_at_ok)
  have "map_of xs k = map_of (ents t p) k" "rank_le k xs = length (content t A) + rank_le k (ents t p)"
    using map_of_segment [OF seg] rank_le_segment [OF seg] by (simp_all add: xs D(1))
  then show ?thesis
    using f n(1) by (cases want) (auto simp: tree_get_def leaf_get_def sa_get_spec [OF n(2) k] split: option.split)
qed

text \<open>For an absent key, the order is the number of keys in the leaves before the one that was searched.\<close>

lemma tree_get_absent_order:
  assumes rep: "tree_rep kss kl t xs" and k: "length k = kl" and absent: "map_of xs k = None"
  shows "\<exists>n. tree_get t k True = Some (NULL, int n) \<and> n \<le> rank_lt k xs"
proof -
  obtain D U where inv: "tree_inv kss kl t D U" and xs: "xs = content t D" using rep by (auto simp: tree_rep_def)
  note inv' = tree_invD [OF inv]
  obtain A s p B where D: "D = A @ (s, p) # B" "s \<le> Some k" "\<forall>e\<in>set B. Some k < fst e"
    and f: "\<forall>want. find_leaf_node t k want = Some (p, if want then int (length (content t A)) else 0)"
    by (rule find_leaf_node_spec [OF inv k])
  note seg = serving_content [OF shapeD(2) [OF inv'(1)] inv'(4) D]
  obtain n where n: "leaf_at t p = Some n" "sa_rep kss kl (keys_with_values n) (ents t p)"
    using inv'(3) [of "(s, p)"] D(1) by (auto elim: leaf_at_ok)
  have m: "map_of xs k = map_of (ents t p) k" "rank_le k xs = length (content t A) + rank_le k (ents t p)"
    using map_of_segment [OF seg] rank_le_segment [OF seg] by (simp_all add: xs D(1))
  have "rank_le k xs = rank_lt k xs" by (rule rank_le_absent) (use absent in \<open>simp add: map_of_eq_None_iff\<close>)
  then have "length (content t A) \<le> rank_lt k xs" using m(2) by simp
  then show ?thesis using f n(1) m(1) absent by (simp add: tree_get_def leaf_get_def sa_get_spec [OF n(2) k])
qed

lemma tree_get_by_order_spec:
  assumes rep: "tree_rep kss kl t xs"
  shows "tree_get_by_order t i =
           Some (if 1 \<le> i \<and> i \<le> int (length xs) then (NLDB_OK, Some (xs ! nat (i - 1)))
                 else (NLDB_ERROR_KEY_NOT_FOUND, None))"
proof (cases "1 \<le> i \<and> i \<le> int (length xs)")
  case True
  obtain D U where inv: "tree_inv kss kl t D U" and xs: "xs = content t D" using rep by (auto simp: tree_rep_def)
  obtain m where m: "i = int m" "1 \<le> m" "m \<le> length (content t D)" using True xs by (metis int_ops(2) nonneg_int_cases of_nat_le_iff order_trans zero_le_one)
  obtain A s p B where D: "D = A @ (s, p) # B" and b: "length (content t A) < m" "m \<le> length (content t A) + length (ents t p)"
    and f: "find_leaf_node_by_order t (int m) = Some (p, int (length (content t A)))"
    by (rule find_leaf_node_by_order_spec [OF inv m(2,3)])
  obtain n where n: "leaf_at t p = Some n" "sa_rep kss kl (keys_with_values n) (ents t p)"
    using tree_invD(3) [OF inv, of "(s, p)"] D(1) by (auto elim: leaf_at_ok)
  let ?j = "m - length (content t A)"
  have "sa_get_by_order (keys_with_values n) (int ?j) = Some (ents t p ! (?j - 1))"
    by (rule sa_get_by_order_spec [OF n(2)]) (use b in auto)
  moreover have "int m - int (length (content t A)) = int ?j" using b by simp
  moreover have "xs ! (m - 1) = ents t p ! (?j - 1)"
  proof -
    have nth: "xs ! (length (content t A) + j) = ents t p ! j" if "j < length (ents t p)" for j
      using that by (simp add: xs D nth_append)
    have "m - 1 = length (content t A) + (?j - 1)" "?j - 1 < length (ents t p)" using b by auto
    then have "xs ! (m - 1) = xs ! (length (content t A) + (?j - 1))" by (intro arg_cong [where f = "(!) xs"])
    also have "\<dots> = ents t p ! (?j - 1)" by (rule nth) fact
    finally show ?thesis .
  qed
  moreover have "nat (int m - 1) = m - 1" by simp
  ultimately have get: "leaf_get_by_order t p (int m - int (length (content t A))) = Some (xs ! nat (int m - 1))"
    using n(1) by (simp only: leaf_get_by_order_def bind.bind_lunit)
  have "\<not> (int m < 1 \<or> int m > int (length (content t D)))" using m by simp
  then have "tree_get_by_order t (int m) = Some (NLDB_OK, Some (xs ! nat (int m - 1)))"
    using f get root_key_count [OF inv] by (simp add: tree_get_by_order_def del: of_nat_diff)
  then show ?thesis using True by (simp add: m(1))
next
  case False
  obtain D U where inv: "tree_inv kss kl t D U" and xs: "xs = content t D" using rep by (auto simp: tree_rep_def)
  then show ?thesis using False root_key_count [OF inv] by (auto simp: tree_get_by_order_def)
qed

end
