(* ===== verification/Tree_Update.thy ===== *)
theory Tree_Update
  imports Tree_Search
begin

text \<open>\<^verbatim>\<open>init\<close>, \<^verbatim>\<open>put\<close> and \<^verbatim>\<open>del\<close> of the array tree refine the operations on sorted association lists.\<close>

section \<open>Key counts after a change of a leaf\<close>

lemma chain_cong:
  assumes "\<And>x. x \<in> set ps \<Longrightarrow> map_option n_prev (nodes t' x) = map_option n_prev (nodes t x) \<and>
      map_option n_next (nodes t' x) = map_option n_next (nodes t x)"
    and "chain t prv ps nxt"
  shows "chain t' prv ps nxt"
  using assms by (induction ps arbitrary: prv) auto

lemma leaf_ok_cong:
  assumes "map_option n_magic (nodes t' p) = map_option n_magic (nodes t p)"
    and "map_option keys_with_values (nodes t' p) = map_option keys_with_values (nodes t p)"
  shows "leaf_ok kss kl t' p \<longleftrightarrow> leaf_ok kss kl t p" and "ents t' p = ents t p"
proof -
  show e: "ents t' p = ents t p" using assms(2) by (auto simp: ents_def split: option.splits)
  show "leaf_ok kss kl t' p \<longleftrightarrow> leaf_ok kss kl t p"
    using assms by (cases "nodes t p"; cases "nodes t' p") (auto simp: leaf_ok_def e)
qed

lemma ranged_cong: "(\<And>e. e \<in> set D \<Longrightarrow> ents t' (snd e) = ents t (snd e)) \<Longrightarrow> ranged t' D \<longleftrightarrow> ranged t D"
  by (simp add: ranged_def)

lemma content_cong: "(\<And>e. e \<in> set D \<Longrightarrow> ents t' (snd e) = ents t (snd e)) \<Longrightarrow> content t' D = content t D"
  by (simp add: content_def cong: map_cong)

lemma recount_ents: "recount S t t' \<Longrightarrow> ents t' p = ents t p"
  by (rule leaf_ok_cong(2)) (simp_all add: recount_node)

text \<open>Propagating what the leaf lacks up to the root restores the invariant.\<close>

lemma finish_update:
  assumes pre: "tree_pre kss kl t D U x \<delta>" and x: "x \<in> snd ` set D"
  shows "\<exists>t'. propagate_key_count_increment t x NULL \<delta> = Some t' \<and> tree_inv kss kl t' D U \<and> content t' D = content t D \<and>
           (filled t D \<longrightarrow> filled t' D)"
proof -
  have sh: "shape kss kl t D U" and dfs: "\<forall>y\<in>ups U. defect t y = 0" and ne: "U \<noteq> []"
    and cnt: "\<forall>p\<in>snd ` set D. kcnt t p = int (length (ents t p)) - (if p = x then \<delta> else 0)"
    and leaf: "\<forall>e\<in>set D. leaf_ok kss kl t (snd e)" and rg: "ranged t D" and ch: "chain t NULL (map snd D) NULL"
    and ini: "tree_initialized t" and lim: "length (content t D) < 2 ^ 31"
    using pre unfolding tree_pre_def by auto
  note sd = shapeD [OF sh]
  obtain t' where p: "propagate_key_count_increment t x NULL \<delta> = Some t'"
    and rc: "recount (snd ` set D \<union> ups U) t t'"
    and df: "\<And>y. y \<in> ups U \<Longrightarrow> defect t' y = defect t y + (if y = x then \<delta> else 0) - (if y = 0 then \<delta> else 0)"
    and c: "\<And>y. y \<notin> ups U \<Longrightarrow> kcnt t' y = kcnt t y + (if y = x \<and> x \<noteq> 0 then \<delta> else 0)"
    using propagate_increment_spec [OF sd(1,3,9) order_refl upper_reach_root [OF sd(1) x] recount_refl, of \<delta>] by blast
  note e = recount_ents [OF rc] and rn = recount_node [OF rc]
  have x0: "x \<noteq> 0" "x \<notin> ups U" using sd(9,11) x by auto
  have "kcnt t' y = int (length (ents t' y))" if y: "y \<in> snd ` set D" for y
  proof -
    have "y \<notin> ups U" using sd(11) y by blast
    then show ?thesis using c cnt y x0(1) e by auto
  qed
  moreover have "defect t' y = 0" if y: "y \<in> ups U" for y
  proof -
    have "y \<noteq> x" "y \<noteq> 0" using y x0(2) sd(9) by auto
    then show ?thesis using df [OF y] dfs y by simp
  qed
  moreover have "shape kss kl t' D U"
    by (rule shape_upd [OF sh recount_upper [OF rc sd(1)]]) (simp_all add: recount_same [OF rc])
  moreover have "leaf_ok kss kl t' (snd a)" if "a \<in> set D" for a
    using leaf that by (simp add: leaf_ok_cong(1) [OF rn(3,4)])
  moreover have "chain t' NULL (map snd D) NULL" by (rule chain_cong [OF _ ch]) (simp add: rn)
  moreover have "ranged t' D" using rg ranged_cong [of D t' t] e by simp
  moreover have ct: "content t' D = content t D" by (rule content_cong) (simp add: e)
  ultimately have "tree_inv kss kl t' D U"
    unfolding tree_inv_def tree_pre_def using ne ini lim recount_same(5) [OF rc] by auto
  with p ct e show ?thesis by (auto simp: filled_def)
qed

text \<open>Replacing the array of one leaf by another whose keys lie in the range of the leaf.\<close>

lemma leaf_update:
  assumes inv: "tree_inv kss kl t D U" and D: "D = A @ (s, p) # B" and n: "nodes t p = Some n"
    and sa: "sa_rep kss kl sa ys" and rg: "\<forall>x\<in>set ys. s \<le> Some (fst x) \<and> (\<forall>e\<in>set B. Some (fst x) < fst e)"
    and lim: "length (content t A) + length ys + length (content t B) < 2 ^ 31"
  defines "t1 \<equiv> store t p (n\<lparr>keys_with_values := sa\<rparr>)"
  shows "tree_pre kss kl t1 D U p (int (length ys) - int (length (ents t p)))"
    and "content t1 D = content t A @ ys @ content t B"
    and "filled t D \<Longrightarrow> ys \<noteq> [] \<Longrightarrow> filled t1 D"
proof -
  note inv' = tree_invD [OF inv] and sd = shapeD [OF tree_invD(1) [OF inv]]
  have pD: "p \<in> snd ` set D" using D by simp
  have pU: "p \<notin> ups U" using pD sd(11) by blast
  have nodes1: "nodes t1 x = nodes t x" if "x \<noteq> p" for x using that by (simp add: t1_def store_def)
  have other: "map_option core (nodes t1 x) = map_option core (nodes t x)"
      "map_option n_parent (nodes t1 x) = map_option n_parent (nodes t x)"
      "map_option n_prev (nodes t1 x) = map_option n_prev (nodes t x)"
      "map_option n_next (nodes t1 x) = map_option n_next (nodes t x)" for x
    using n by (simp_all add: t1_def store_def core_def)
  have cnt: "kcnt t1 = kcnt t" using n by (auto simp: kcnt_def t1_def store_def)
  have ep: "ents t1 p = ys" using sa_rep_entries [OF sa] by (simp add: ents_def t1_def store_def)
  have e: "ents t1 x = ents t x" if "x \<noteq> p" for x by (rule view_cong(5) [OF nodes1 [OF that]])
  show "filled t1 D" if "filled t D" "ys \<noteq> []"
    using that ep e unfolding filled_def by metis
  have dp: "snd e \<noteq> p" if "e \<in> set A \<union> set B" for e using sd(10) D that by force
  have ap: "a = (s, p)" if "a \<in> set D" "snd a = p" for a using that dp [of a] D by auto
  have leaf: "leaf_ok kss kl t1 (snd e)" if e: "e \<in> set D" for e
  proof (cases "snd e = p")
    case True
    have "n_magic n = LEAF_NODE_MAGIC" using inv'(3) [OF e] True n by (auto simp: leaf_ok_def)
    then show ?thesis using True sa ep by (auto simp: leaf_ok_def) (simp add: t1_def store_def)
  next
    case False
    then show ?thesis using inv'(3) [OF e] leaf_ok_cong(1) [of t1 "snd e" t] nodes1 by simp
  qed
  have up: "upper kss kl t1 D U"
    by (rule upper_cong [OF sd(1)]) (simp_all add: other, simp add: t1_def store_def)
  have sh: "shape kss kl t1 D U" by (rule shape_upd [OF inv'(1) up]) (simp_all add: t1_def store_def)
  show ct: "content t1 D = content t A @ ys @ content t B"
    using content_cong [of A t1 t] content_cong [of B t1 t] e dp by (simp add: D ep)
  have rg1: "ranged t1 D"
    unfolding ranged_def
  proof (intro ballI conjI impI)
    fix a x assume a: "a \<in> set D" and x: "x \<in> set (ents t1 (snd a))"
    show "fst a \<le> Some (fst x)"
    proof (cases "snd a = p")
      case True
      then have "a = (s, p)" using ap a by blast
      then show ?thesis using rg x ep by auto
    next
      case False
      then show ?thesis using rangedD(1) [OF inv'(4) a] x e by auto
    qed
    fix b assume b: "b \<in> set D" "fst a < fst b"
    show "Some (fst x) < fst b"
    proof (cases "snd a = p")
      case True
      then have "a = (s, p)" using ap a by blast
      then have "b \<in> set B" using b D sd(2) by (auto simp: sorted_wrt_append)
      then show ?thesis using rg x True ep by auto
    next
      case False
      then show ?thesis using rangedD(2) [OF inv'(4) a _ b] x e by auto
    qed
  qed
  have df: "defect t1 y = 0" if y: "y \<in> ups U" for y
    using inv'(6) [OF y] kidsum_cong [OF core_cong(3) [OF other(1)], of y] cnt by (simp add: defect_def)
  have "chain t1 NULL (map snd D) NULL" by (rule chain_cong [OF _ inv'(5)]) (simp add: other)
  moreover have "\<forall>q\<in>snd ` set D. kcnt t1 q = int (length (ents t1 q)) - (if q = p then int (length ys) - int (length (ents t p)) else 0)"
    using inv'(7) cnt ep e by auto
  moreover have "tree_initialized t1" using inv'(8) by (simp add: t1_def store_def)
  moreover have "length (content t1 D) < 2 ^ 31" using lim ct by simp
  ultimately show "tree_pre kss kl t1 D U p (int (length ys) - int (length (ents t p)))"
    unfolding tree_pre_def using sh inv'(2) leaf rg1 df by blast
qed


section \<open>Insertion into a leaf with room, deletion\<close>

lemma length_ord_put:
  assumes "sorted_keys xs"
  shows "length (ord_put k v xs) = (if k \<in> fst ` set xs then length xs else Suc (length xs))"
proof (cases "k \<in> fst ` set xs")
  case True
  then show ?thesis
    using rank_le_present [OF assms True] rank_le_length [of k xs] rank_lt_length [of k xs]
    by (simp add: ord_put_def filter_sorted_take [OF assms])
next
  case False
  then show ?thesis using sum_list_ord_put [OF False, of "\<lambda>_. 1" v] by (simp add: sum_list_triv)
qed


lemma leaf_put_eval:
  assumes n: "leaf_at t p = Some n" and sa: "sa_put (keys_with_values n) k v = Some sa"
    and rep: "sa_rep kss kl (keys_with_values n) xs" "sa_rep kss kl sa (ord_put k v xs)"
  shows "leaf_put t p k v = Some (store t p (n\<lparr>keys_with_values := sa\<rparr>), k \<in> fst ` set xs)"
  using n sa sa_repD(5) [OF rep(1)] sa_repD(5) [OF rep(2)] length_ord_put [OF sa_repD(11) [OF rep(1)], of k v]
  by (auto simp: leaf_put_def Let_def)

lemma content_member:
  assumes "sorted_keys D" "ranged t D" "D = A @ (s, p) # B" "s \<le> Some k" "\<forall>e\<in>set B. Some k < fst e"
  shows "k \<in> fst ` set (content t D) \<longleftrightarrow> k \<in> fst ` set (ents t p)"
proof -
  have "map_of (content t D) k = map_of (ents t p) k"
    using map_of_segment [OF serving_content [OF assms]] by (simp add: assms(3))
  then show ?thesis by (metis map_of_eq_None_iff)
qed

text \<open>What \<^verbatim>\<open>put_to_leaf_node\<close> hands over to \<^verbatim>\<open>put\<close>: the leaf with the key, which lacks one in its count if the key is new.\<close>

definition leaf_put_result where
  "leaf_put_result kss kl t D k v r \<longleftrightarrow>
     (\<exists>t1 x D1 U1. r = Some (t1, x, k \<in> fst ` set (content t D)) \<and> x \<in> snd ` set D1 \<and>
        tree_pre kss kl t1 D1 U1 x (if k \<in> fst ` set (content t D) then 0 else 1) \<and>
        content t1 D1 = ord_put k v (content t D) \<and> (filled t D \<longrightarrow> filled t1 D1))"

lemma put_to_leaf_node_room:
  assumes inv: "tree_inv kss kl t D U" and k: "length k = kl"
    and D: "D = A @ (s, p) # B" "s \<le> Some k" "\<forall>e\<in>set B. Some k < fst e"
    and lim: "length (content t D) < 2 ^ 31 - 1" and room: "length (ents t p) * kl + kl \<le> kss"
  shows "leaf_put_result kss kl t D k v (put_to_leaf_node t p k v)"
proof -
  note inv' = tree_invD [OF inv] and sd = shapeD [OF tree_invD(1) [OF inv]]
  note seg = serving_content [OF sd(2) inv'(4) D]
  have pD: "(s, p) \<in> set D" using D(1) by simp
  obtain n where n: "leaf_at t p = Some n" "nodes t p = Some n" "sa_rep kss kl (keys_with_values n) (ents t p)"
    using inv'(3) [OF pD] by (auto elim: leaf_at_ok)
  have "\<not> sa_is_full (keys_with_values n)" using room by (simp add: sa_is_full_iff [OF n(3)] not_less)
  moreover from this obtain sa where sa: "sa_put (keys_with_values n) k v = Some sa" "sa_rep kss kl sa (ord_put k v (ents t p))"
    using sa_put_spec [OF n(3) k] by blast
  let ?t = "store t p (n\<lparr>keys_with_values := sa\<rparr>)" and ?in = "k \<in> fst ` set (content t D)"
  have mem: "?in \<longleftrightarrow> k \<in> fst ` set (ents t p)" by (rule content_member [OF sd(2) inv'(4) D])
  have put: "put_to_leaf_node t p k v = Some (?t, p, ?in)"
    using n(1) \<open>\<not> sa_is_full (keys_with_values n)\<close> leaf_put_eval [OF n(1) sa(1) n(3) sa(2)] mem
    by (simp add: put_to_leaf_node_def)
  have len: "int (length (ord_put k v (ents t p))) - int (length (ents t p)) = (if ?in then 0 else 1)"
    using length_ord_put [OF sa_repD(11) [OF n(3)], of k v] mem by simp
  have rg: "\<forall>x\<in>set (ord_put k v (ents t p)). s \<le> Some (fst x) \<and> (\<forall>e\<in>set B. Some (fst x) < fst e)"
  proof -
    have "s < fst e" if "e \<in> set B" for e using sd(2) D(1) that by (simp add: sorted_wrt_append)
    then show ?thesis using D rangedD [OF inv'(4) pD] by (auto simp: set_ord_put)
  qed
  have l31: "length (content t A) + length (ord_put k v (ents t p)) + length (content t B) < 2 ^ 31"
    using lim len D(1) by (auto split: if_splits)
  note up = leaf_update [OF inv D(1) n(2) sa(2) rg l31]
  have ct: "content ?t D = ord_put k v (content t D)"
    using up(2) ord_put_segment [OF seg, of v "ents t p"] by (simp add: D(1))
  have pre: "tree_pre kss kl ?t D U p (if ?in then 0 else 1)" using up(1) by (simp only: len)
  have fl: "filled t D \<longrightarrow> filled ?t D" using up(3) by (simp add: ord_put_def)
  show ?thesis
    unfolding leaf_put_result_def
    by (intro exI [of _ ?t] exI [of _ p] exI [of _ D] exI [of _ U] conjI put pre ct fl) (simp add: D(1))
qed

end
