(* ===== verification/Leaf_Split.thy ===== *)
theory Leaf_Split
  imports Tree_Update
begin

text \<open>The split of a full leaf and the insertion of the new leaf into the internal levels.\<close>

section \<open>The heap after the split\<close>

lemma leaf_at_Some_iff: "leaf_at t p = Some n \<longleftrightarrow> nodes t p = Some n \<and> n_magic n = LEAF_NODE_MAGIC"
  by (auto simp: leaf_at_def bind_eq_Some_conv split: if_splits)

text \<open>
  The leaf \<open>p\<close> keeps the left half of its keys, the new leaf takes the right half and its place in the
  list of leaves between \<open>p\<close> and the old successor of \<open>p\<close>.
\<close>

definition leaf_split_heap :: "array_tree \<Rightarrow> ptr \<Rightarrow> node \<Rightarrow> sorted_array \<Rightarrow> sorted_array \<Rightarrow> int \<Rightarrow> int \<Rightarrow> array_tree" where
  "leaf_split_heap t p n left right cl cr =
     t\<lparr>nodes := (\<lambda>x.
         if x = next_addr t then
           Some \<lparr>n_key_count = cr, n_parent = NULL, n_magic = LEAF_NODE_MAGIC, keys_with_values = right,
                 n_next = n_next n, n_prev = p, keys_with_right_children = sa_new 0, n_left_child = NULL\<rparr>
         else if x = p then Some (n\<lparr>keys_with_values := left, n_next := next_addr t, n_key_count := cl\<rparr>)
         else if x = n_next n \<and> x \<noteq> 0 then map_option (n_prev_update (\<lambda>_. next_addr t)) (nodes t x)
         else nodes t x),
       next_addr := Suc (next_addr t)\<rparr>"

lemma leaf_split_eval:
  assumes n: "leaf_at t p = Some n" "nodes t p = Some n" "p \<noteq> next_addr t"
    and rep: "sa_rep kss kl (keys_with_values n) es" "tree_key_space_size t = kss"
    and nx: "n_next n \<noteq> 0 \<Longrightarrow> leaf_at t (n_next n) \<noteq> None \<and> n_next n \<noteq> p \<and> n_next n \<noteq> next_addr t"
  defines "h \<equiv> length es - length es div 2"
  shows "\<exists>left right. sa_rep kss kl left (take h es) \<and> sa_rep kss kl right (drop h es) \<and>
     leaf_split t p = Some (next_addr t, leaf_split_heap t p n left right (int h) (int (length es div 2)))"
proof -
  let ?z = "next_addr t"
  have kl: "0 < kl" "sa_key_length (keys_with_values n) = int kl" using sa_repD [OF rep(1)] by auto
  obtain sa0 where sa0: "sa_init (sa_new kss) (int kl) = Some sa0" "sa_rep kss kl sa0 []"
    using sa_init_rep [OF kl(1)] by blast
  obtain left right where sp: "sa_split (keys_with_values n) sa0 = Some (left, right)"
      "sa_rep kss kl left (take h es)" "sa_rep kss kl right (drop h es)"
    using sa_split_spec [OF rep(1) sa0(2)] unfolding h_def by blast
  have cnt: "sa_key_count left = int h" "sa_key_count right = int (length es div 2)"
    using sa_repD(5) [OF sp(2)] sa_repD(5) [OF sp(3)] by (auto simp: h_def)
  have mg: "n_magic n = LEAF_NODE_MAGIC" using n(1) by (simp add: leaf_at_Some_iff)
  have "leaf_split t p = Some (?z, leaf_split_heap t p n left right (int h) (int (length es div 2)))"
  proof (cases "n_next n = 0")
    case True
    then show ?thesis using n kl(2) rep(2) sa0(1) sp(1) cnt mg
      by (simp add: leaf_split_def new_leaf_node_def leaf_at_def Let_def store_def set_key_count_def
          leaf_split_heap_def fun_eq_iff)
  next
    case False
    obtain m where m: "nodes t (n_next n) = Some m" "n_magic m = LEAF_NODE_MAGIC" "n_next n \<noteq> p" "n_next n \<noteq> ?z"
      using nx [OF False] by (auto simp: leaf_at_Some_iff)
    then show ?thesis using False n kl(2) rep(2) sa0(1) sp(1) cnt mg
      by (auto simp: leaf_split_def new_leaf_node_def leaf_at_def Let_def store_def set_key_count_def
          leaf_split_heap_def fun_eq_iff)
  qed
  then show ?thesis using sp(2,3) by blast
qed

lemma leaf_split_heap_put:
  assumes "n_magic n = LEAF_NODE_MAGIC" "p \<noteq> next_addr t"
  shows "leaf_at (leaf_split_heap t p n left right cl cr) p = Some (n\<lparr>keys_with_values := left, n_next := next_addr t, n_key_count := cl\<rparr>)"
    and "store (leaf_split_heap t p n left right cl cr) p
       (n\<lparr>n_next := next_addr t, n_key_count := cl, keys_with_values := left'\<rparr>) = leaf_split_heap t p n left' right cl cr"
    and "\<exists>z. leaf_at (leaf_split_heap t p n left right cl cr) (next_addr t) = Some z \<and> keys_with_values z = right \<and>
       store (leaf_split_heap t p n left right cl cr) (next_addr t) (z\<lparr>keys_with_values := right'\<rparr>) =
         leaf_split_heap t p n left right' cl cr"
  using assms by (auto simp: leaf_at_def leaf_split_heap_def store_def fun_eq_iff)

section \<open>The list of leaves\<close>

lemma chain_append:
  "chain t prv (xs @ ys) nxt \<longleftrightarrow> chain t prv xs (hd (ys @ [nxt])) \<and> chain t (last (prv # xs)) ys nxt"
  by (induction xs arbitrary: prv) (auto simp: hd_append)

lemma chain_split:
  assumes ch: "chain t prv (as @ p # bs) NULL" and n: "nodes t p = Some n" and d: "distinct (as @ p # bs)"
    and z: "next_addr t \<notin> set (as @ p # bs)" and nz: "0 \<notin> set bs"
  shows "chain (leaf_split_heap t p n left right cl cr) prv (as @ p # next_addr t # bs) NULL"
proof -
  let ?t = "leaf_split_heap t p n left right cl cr" and ?z = "next_addr t"
  have c: "chain t prv as p" "n_prev n = last (prv # as)" "n_next n = hd (bs @ [0])" "chain t p bs 0"
    using ch n by (auto simp: chain_append)
  have nx: "n_next n \<notin> set as" if "n_next n \<noteq> 0"
    using c(3) that d by (cases bs) auto
  have old: "map_option n_prev (nodes ?t x) = map_option n_prev (nodes t x) \<and>
      map_option n_next (nodes ?t x) = map_option n_next (nodes t x)"
    if "x \<noteq> ?z" "x \<noteq> p" "x = n_next n \<Longrightarrow> x = 0" for x
    using that by (auto simp: leaf_split_heap_def)
  have "chain ?t prv as p"
    by (rule chain_cong [OF old c(1)]) (use d z nx in auto)
  moreover have "map_option n_prev (nodes ?t p) = Some (last (prv # as))" "map_option n_next (nodes ?t p) = Some ?z"
      "map_option n_prev (nodes ?t ?z) = Some p" "map_option n_next (nodes ?t ?z) = Some (hd (bs @ [0]))"
    using z c(2,3) by (auto simp: leaf_split_heap_def)
  moreover have "chain ?t ?z bs 0"
  proof (cases bs)
    case (Cons b bs')
    have b: "b = n_next n" "b \<noteq> 0" "b \<noteq> p" "b \<noteq> ?z" using Cons c(3) nz d z by auto
    have "chain ?t b bs' 0"
      by (rule chain_cong [OF old]) (use Cons c(4) d z b(1) in auto)
    moreover have "map_option n_prev (nodes ?t b) = Some ?z" "map_option n_next (nodes ?t b) = map_option n_next (nodes t b)"
      using b c(4) Cons by (auto simp: leaf_split_heap_def option.map_comp comp_def)
    ultimately show ?thesis using Cons c(4) by simp
  qed simp
  ultimately show ?thesis by (simp add: chain_append)
qed


section \<open>The levels after the split\<close>

lemma leaf_split_views:
  assumes n: "nodes t p = Some n" "p \<noteq> next_addr t" "n_magic n = LEAF_NODE_MAGIC"
    and t2: "t2 = leaf_split_heap t p n left right cl cr"
    and rep: "sa_rep kss kl left ls" "sa_rep kss kl right rs"
  shows "x \<noteq> next_addr t \<Longrightarrow> map_option core (nodes t2 x) = map_option core (nodes t x)"
    "x \<noteq> next_addr t \<Longrightarrow> map_option n_parent (nodes t2 x) = map_option n_parent (nodes t x)"
    "ents t2 p = ls" "ents t2 (next_addr t) = rs" "x \<noteq> p \<Longrightarrow> x \<noteq> next_addr t \<Longrightarrow> ents t2 x = ents t x"
    "kcnt t2 = (kcnt t)(p := cl, next_addr t := cr)"
    "leaf_ok kss kl t2 p" "leaf_ok kss kl t2 (next_addr t)"
    "x \<noteq> p \<Longrightarrow> x \<noteq> next_addr t \<Longrightarrow> leaf_ok kss kl t2 x \<longleftrightarrow> leaf_ok kss kl t x"
proof -
  show "map_option core (nodes t2 x) = map_option core (nodes t x)" if "x \<noteq> next_addr t"
    using that n by (auto simp: t2 leaf_split_heap_def core_def option.map_comp comp_def cong: option.map_cong)
  show "map_option n_parent (nodes t2 x) = map_option n_parent (nodes t x)" if "x \<noteq> next_addr t"
    using that n by (auto simp: t2 leaf_split_heap_def option.map_comp comp_def)
  show e: "ents t2 p = ls" "ents t2 (next_addr t) = rs"
    using n sa_rep_entries [OF rep(1)] sa_rep_entries [OF rep(2)] by (auto simp: ents_def t2 leaf_split_heap_def)
  show "kcnt t2 = (kcnt t)(p := cl, next_addr t := cr)"
    using n by (auto simp: t2 kcnt_def leaf_split_heap_def fun_eq_iff split: option.split)
  show "leaf_ok kss kl t2 p" "leaf_ok kss kl t2 (next_addr t)"
    using n rep unfolding leaf_ok_def e by (auto simp: t2 leaf_split_heap_def)
  assume x: "x \<noteq> p" "x \<noteq> next_addr t"
  then have "map_option n_magic (nodes t2 x) = map_option n_magic (nodes t x)"
      "map_option keys_with_values (nodes t2 x) = map_option keys_with_values (nodes t x)"
    by (auto simp: t2 leaf_split_heap_def option.map_comp comp_def)
  from leaf_ok_cong [OF this] show "ents t2 x = ents t x" "leaf_ok kss kl t2 x \<longleftrightarrow> leaf_ok kss kl t x" by auto
qed

lemma leaf_split_levels:
  assumes inv: "tree_inv kss kl t D U" and D: "D = A @ (s, p) # B"
    and n: "nodes t p = Some n" and t2: "t2 = leaf_split_heap t p n left right (int cl) (int cr)"
    and rep: "sa_rep kss kl left ls" "sa_rep kss kl right rs" and sum: "cl + cr = length (ents t p)"
  shows "shape kss kl t2 D U" and "\<And>x. x \<in> ups U \<Longrightarrow> defect t2 x = (if x = par t2 p then int cr else 0)"
    and "\<forall>c\<in>snd ` set D. 0 \<le> kcnt t2 c" and "sum_list (map (kcnt t2 \<circ> snd) D) < 2 ^ 31"
proof -
  note inv' = tree_invD [OF inv] and sd = shapeD [OF tree_invD(1) [OF inv]]
  have pD: "p \<in> snd ` set D" "(s, p) \<in> set D" using D by auto
  have new: "next_addr t \<notin> snd ` set D \<union> ups U" using sd(4) [of "next_addr t"] by blast
  have pz: "p \<noteq> next_addr t" using new pD(1) by blast
  have mg: "n_magic n = LEAF_NODE_MAGIC" using inv'(3) [OF pD(2)] n by (auto simp: leaf_ok_def)
  note v = leaf_split_views [OF n pz mg t2 rep]
  have up: "upper kss kl t2 D U"
  proof (rule upper_cong [OF sd(1)])
    show "map_option core (nodes t2 x) = map_option core (nodes t x)" if "x \<in> ups U" for x
      by (rule v(1)) (use that new in auto)
    show "map_option n_parent (nodes t2 x) = map_option n_parent (nodes t x)" if "x \<in> snd ` set D \<union> ups U" for x
      by (rule v(2)) (use that new in auto)
  qed (simp add: t2 leaf_split_heap_def)
  show "shape kss kl t2 D U" by (rule shape_upd [OF inv'(1) up]) (simp_all add: t2 leaf_split_heap_def)
  have par: "par t2 p = par t p" by (rule par_eq [OF v(2) [OF pz]])
  have cp: "kcnt t p = int cl + int cr" using inv'(7) [OF pD(1)] sum by simp
  show "defect t2 x = (if x = par t2 p then int cr else 0)" if x: "x \<in> ups U" for x
  proof -
    have "kids t2 x = kids t x" by (rule core_cong(3) [OF v(1)]) (use x new in auto)
    moreover have "0 \<notin> ups U" using sd(9) by blast
    ultimately show ?thesis using split_defect [OF sd(1,3) _ x pD(1) new v(6)] inv'(6) [OF x] par cp by simp
  qed
  have le: "0 \<le> kcnt t2 c" "kcnt t2 c \<le> kcnt t c" if "c \<in> snd ` set D" for c
  proof -
    have "c \<noteq> next_addr t" using new that by blast
    then show "0 \<le> kcnt t2 c" "kcnt t2 c \<le> kcnt t c" using inv'(7) [OF that] v(6) cp by auto
  qed
  then show "\<forall>c\<in>snd ` set D. 0 \<le> kcnt t2 c" by blast
  have "sum_list (map (kcnt t2 \<circ> snd) D) \<le> sum_list (map (kcnt t \<circ> snd) D)"
    using le(2) by (intro sum_list_mono) auto
  then show "sum_list (map (kcnt t2 \<circ> snd) D) < 2 ^ 31" using tree_counts(2) [OF inv] by (rule le_less_trans)
qed

lemma leaf_split_ranged:
  assumes inv: "tree_inv kss kl t D U" and D: "D = A @ (s, p) # B" and D1: "D1 = A @ (s, p) # (Some m, z) # B"
    and sorted: "sorted_keys D1" and dp: "distinct (map snd D1)"
    and e: "ents t3 p = ls" "ents t3 z = rs" "\<And>a. a \<in> set A \<union> set B \<Longrightarrow> ents t3 (snd a) = ents t (snd a)"
    and ls: "\<forall>x\<in>set ls. s \<le> Some (fst x) \<and> fst x < m" and rs: "\<forall>x\<in>set rs. m \<le> fst x \<and> (\<forall>e\<in>set B. Some (fst x) < fst e)"
  shows "ranged t3 D1" and "content t3 D1 = content t A @ (ls @ rs) @ content t B"
proof -
  show "content t3 D1 = content t A @ (ls @ rs) @ content t B"
    using content_cong [of A t3 t] content_cong [of B t3 t] e by (simp add: D1)
  note rd = rangedD [OF tree_invD(4) [OF inv]]
  have B: "Some m < fst b" "s < Some m" if "b \<in> set B" for b using sorted that by (auto simp: D1 sorted_wrt_append)
  have sm: "s < Some m" using sorted by (simp add: D1 sorted_wrt_append)
  show "ranged t3 D1"
    unfolding ranged_def
  proof (intro ballI conjI impI)
    fix a x assume a: "a \<in> set D1" and x: "x \<in> set (ents t3 (snd a))"
    have old: "a \<in> set D" "x \<in> set (ents t (snd a))" if "a \<in> set A \<union> set B"
      using that x e(3) [OF that] by (simp_all add: D)
    consider "a \<in> set A \<union> set B" | "a = (s, p)" | "a = (Some m, z)" using a D1 by auto
    then show "fst a \<le> Some (fst x)"
    proof cases
      case 1
      show ?thesis by (rule rd(1) [OF old [OF 1]])
    next
      case 2
      then show ?thesis using x e(1) ls by simp
    next
      case 3
      then show ?thesis using x e(2) rs by simp
    qed
    fix b assume b: "b \<in> set D1" "fst a < fst b"
    consider "a \<in> set A" | "a \<in> set B" | "a = (s, p)" | "a = (Some m, z)" using a D1 by auto
    then show "Some (fst x) < fst b"
    proof cases
      case 1
      have aD: "a \<in> set D" "x \<in> set (ents t (snd a))" using old 1 by simp_all
      have "fst a < s" using sorted 1 by (simp add: D1 sorted_wrt_append)
      then have "Some (fst x) < s" using rd(2) [OF aD, of "(s, p)"] by (simp add: D)
      then have "Some (fst x) < Some m" using sm by (rule less_trans)
      moreover have "b = (Some m, z) \<or> b \<in> set D" using b(1) by (auto simp: D D1)
      ultimately show ?thesis using rd(2) [OF aD _ b(2)] by (elim disjE) simp_all
    next
      case 2
      have aD: "a \<in> set D" "x \<in> set (ents t (snd a))" using old 2 by simp_all
      have "b \<noteq> (Some m, z)" using b(2) B(1) [OF 2] by auto
      then have "b \<in> set D" using b(1) by (auto simp: D D1)
      then show ?thesis by (rule rd(2) [OF aD _ b(2)])
    next
      case 3
      have "Some (fst x) < Some m" using 3 x e(1) ls by simp
      moreover have "b = (Some m, z) \<or> b \<in> set B" using b 3 sorted by (auto simp: D1 sorted_wrt_append dest: less_asym)
      moreover have "Some m < fst b" if "b \<in> set B" by (rule B(1) [OF that])
      ultimately show ?thesis using less_trans [of "Some (fst x)" "Some m" "fst b"] by (elim disjE) simp_all
    next
      case 4
      then have "b \<in> set B" using b sorted sm by (auto simp: D1 sorted_wrt_append dest: less_asym)
      then show ?thesis using 4 x e(2) rs by simp
    qed
  qed
qed

text \<open>
  The new leaf is put into the internal levels: the result is a tree in which the leaf \<open>x\<close> that took
  the key lacks \<open>\<delta>\<close> in its count.
\<close>

lemma leaf_split_insert:
  assumes inv: "tree_inv kss kl t D U" and D: "D = A @ (s, p) # B"
    and n: "nodes t p = Some n" and t2: "t2 = leaf_split_heap t p n left right (int cl) (int cr)"
    and rep: "sa_rep kss kl left ls" "sa_rep kss kl right rs" and sum: "cl + cr = length (ents t p)"
    and sorted: "sorted_keys (A @ (s, p) # (Some m, next_addr t) # B)" and m: "length m = kl"
    and ls: "\<forall>x\<in>set ls. s \<le> Some (fst x) \<and> fst x < m" and rs: "\<forall>x\<in>set rs. m \<le> fst x \<and> (\<forall>e\<in>set B. Some (fst x) < fst e)"
    and x: "x = p \<or> x = next_addr t" and len: "length ls = (if x = p then cl + \<delta> else cl)" "length rs = (if x = p then cr else cr + \<delta>)"
    and lim: "length (content t D) + \<delta> < 2 ^ 31"
  shows "\<exists>t3 fence U1. insert_child t2 (par t2 p) m (next_addr t) = Some (t3, fence) \<and>
     tree_pre kss kl t3 (A @ (s, p) # (Some m, next_addr t) # B) U1 x (int \<delta>) \<and>
     content t3 (A @ (s, p) # (Some m, next_addr t) # B) = content t A @ (ls @ rs) @ content t B \<and>
     (filled t D \<longrightarrow> ls \<noteq> [] \<longrightarrow> rs \<noteq> [] \<longrightarrow> filled t3 (A @ (s, p) # (Some m, next_addr t) # B))"
proof -
  let ?z = "next_addr t" and ?D1 = "A @ (s, p) # (Some m, next_addr t) # B"
  note inv' = tree_invD [OF inv] and sd = shapeD [OF tree_invD(1) [OF inv]]
  note lv = leaf_split_levels [OF inv D n t2 rep sum]
  obtain E U' where U: "U = E # U'" using inv'(2) by (cases U) auto
  have pD: "p \<in> snd ` set D" "(s, p) \<in> set D" using D by auto
  have new: "?z \<notin> snd ` set D \<union> ups U" using sd(4) [of ?z] by blast
  have pz: "p \<noteq> ?z" using new pD(1) by blast
  have mg: "n_magic n = LEAF_NODE_MAGIC" using inv'(3) [OF pD(2)] n by (auto simp: leaf_ok_def)
  note v = leaf_split_views [OF n pz mg t2 rep]
  have eqD: "A @ (s, p) # B = concat (map (expand t2) E)" and okE: "\<And>e. e \<in> set E \<Longrightarrow> int_ok kss kl t2 (snd e)"
    using shapeD(1) [OF lv(1)] U D by auto
  obtain A' s' q B' where srv: "E = A' @ (s', q) # B'" "par t2 p = q" "p \<in> set (kids t2 q)"
      "s' < Some m" "\<forall>e\<in>set B'. Some m < fst e"
    using serving_parent [OF eqD sorted okE] by metis
  have kz: "kcnt t2 ?z = int cr" using v(6) by simp
  have "\<exists>t3 fence U1. insert_child t2 q m ?z = Some (t3, fence) \<and>
      climbed kss kl t2 D (ups (E # U')) (set (kids t2 q)) m ?z 0 t3 fence U1"
  proof (rule insert_child_spec [OF lv(1) [unfolded U] srv(1,4,5) m])
    show "Some m \<notin> fst ` set D" using sorted D by (auto simp: sorted_wrt_append)
    show "nodes t2 ?z \<noteq> None" "0 < ?z" "?z < next_addr t2" using sd(4) [of p] pD(1) by (auto simp: t2 leaf_split_heap_def)
    show "?z \<notin> set (ptrs D (E # U'))" using new U by (simp add: set_ptrs)
    show "defect t2 y = (if y = q then kcnt t2 ?z + 0 else 0)" if "y \<in> ups (E # U')" for y
      using lv(2) [of y] that U srv(2) kz by simp
  qed (use lv(3,4) in auto)
  then obtain t3 fence U1 where ins: "insert_child t2 q m ?z = Some (t3, fence)"
    and cl: "climbed kss kl t2 D (ups (E # U')) (set (kids t2 q)) m ?z 0 t3 fence U1" by blast
  note cld = climbedD [OF cl]
  have D1: "ord_put (Some m) ?z D = ?D1" using ord_put_after [OF sorted] D by simp
  have sD1: "snd ` set ?D1 = insert ?z (snd ` set D)" by (auto simp: D)
  have leaf3: "map_option n_magic (nodes t3 y) = map_option n_magic (nodes t2 y)"
      "map_option keys_with_values (nodes t3 y) = map_option keys_with_values (nodes t2 y)"
      "map_option n_prev (nodes t3 y) = map_option n_prev (nodes t2 y)"
      "map_option n_next (nodes t3 y) = map_option n_next (nodes t2 y)" "kcnt t3 y = kcnt t2 y"
    if "y \<in> snd ` set ?D1" for y
  proof -
    have "y \<in> insert ?z (snd ` set D)" using that sD1 by blast
    from cld(10) [OF this] obtain r where "nodes t3 y = map_option (n_parent_update (\<lambda>_. r)) (nodes t2 y)" by blast
    then show "map_option n_magic (nodes t3 y) = map_option n_magic (nodes t2 y)"
      "map_option keys_with_values (nodes t3 y) = map_option keys_with_values (nodes t2 y)"
      "map_option n_prev (nodes t3 y) = map_option n_prev (nodes t2 y)"
      "map_option n_next (nodes t3 y) = map_option n_next (nodes t2 y)" "kcnt t3 y = kcnt t2 y"
      using reparented_node(2) by (auto simp: option.map_comp comp_def)
  qed
  have e3: "ents t3 y = ents t2 y" "leaf_ok kss kl t3 y \<longleftrightarrow> leaf_ok kss kl t2 y" if "y \<in> snd ` set ?D1" for y
    using leaf_ok_cong [OF leaf3(1,2) [OF that]] by auto
  have dD: "distinct (map snd ?D1)" using sd(10) new D by auto
  have AB: "ents t3 (snd a) = ents t (snd a)" if "a \<in> set A \<union> set B" for a
  proof -
    have "snd a \<in> snd ` set A \<union> snd ` set B" using that by auto
    moreover have "p \<notin> snd ` set A \<union> snd ` set B" "?z \<notin> snd ` set A \<union> snd ` set B" using dD by auto
    moreover have "snd a \<in> snd ` set ?D1" using that by auto
    ultimately have "snd a \<in> snd ` set ?D1" "snd a \<noteq> p" "snd a \<noteq> ?z" by metis+
    then show ?thesis using e3(1) v(5) by simp
  qed
  have ep: "ents t3 p = ls" "ents t3 ?z = rs" using e3(1) v(3,4) by auto
  note rg = leaf_split_ranged [OF inv D refl sorted dD ep AB ls rs]
  have "tree_pre kss kl t3 ?D1 U1 x (int \<delta>)"
    unfolding tree_pre_def
  proof (intro conjI ballI)
    show "shape kss kl t3 ?D1 U1" "U1 \<noteq> []" "ranged t3 ?D1" using cld(1,2) D1 rg(1) by auto
    show "leaf_ok kss kl t3 (snd e)" if e: "e \<in> set ?D1" for e
    proof -
      have "snd e \<in> snd ` set ?D1" using e by (rule imageI)
      moreover have "leaf_ok kss kl t2 (snd e)"
        using v(7-9) inv'(3) [of e] e D by (cases "snd e = p \<or> snd e = ?z") auto
      ultimately show ?thesis using e3(2) by blast
    qed
    have "chain t2 NULL (map snd A @ p # ?z # map snd B) NULL"
      unfolding t2 by (rule chain_split [OF _ n]) (use inv'(5) sd(9,10) new D in auto)
    then show "chain t3 NULL (map snd ?D1) NULL"
      by (intro chain_cong [of "map snd ?D1" t3 t2]) (use leaf3(3,4) in auto)
    show "defect t3 y = 0" if "y \<in> ups U1" for y using cld(7) [OF that] by simp
    show "kcnt t3 y = int (length (ents t3 y)) - (if y = x then int \<delta> else 0)" if y: "y \<in> snd ` set ?D1" for y
    proof (cases "y = p \<or> y = ?z")
      case True
      then show ?thesis using leaf3(5) [OF y] v(6) ep x len pz by auto
    next
      case False
      then have yD: "y \<in> snd ` set D" using y sD1 by auto
      have "ents t3 y = ents t y" using e3(1) [OF y] v(5) False by simp
      then show ?thesis using leaf3(5) [OF y] v(6) inv'(7) [OF yD] False x by auto
    qed
    show "tree_initialized t3" using cld(5) inv'(8) by (simp add: t2 leaf_split_heap_def)
    show "length (content t3 ?D1) < 2 ^ 31"
      using rg(2) lim len sum by (auto simp: D split: if_splits)
  qed
  moreover have "filled t3 ?D1" if "filled t D" "ls \<noteq> []" "rs \<noteq> []"
  proof -
    have "ents t3 (snd a) \<noteq> []" if "a \<in> set A \<union> set B" for a
      using AB [OF that] \<open>filled t D\<close> that D by (auto simp: filled_def)
    then show ?thesis using ep that(2,3) by (auto simp: filled_def)
  qed
  ultimately show ?thesis using ins rg(2) srv(2) by blast
qed

end
