(* ===== verification/Tree_Ops.thy ===== *)
theory Tree_Ops
  imports Leaf_Split
begin

text \<open>The public operations \<^verbatim>\<open>init\<close>, \<^verbatim>\<open>put\<close> and \<^verbatim>\<open>del\<close> of the array tree against sorted association lists.\<close>

section \<open>Insertion into a full leaf\<close>

lemma put_to_leaf_node_full_unfold:
  assumes "leaf_at t node = Some n" "sa_is_full (keys_with_values n)" "leaf_split t node = Some (right_node, t1)"
    "leaf_at t1 right_node = Some rn" "sa_min_key (keys_with_values rn) = Some mid_key"
    "tree_compare_keys t1 key mid_key = Some cmp"
    "leaf_put t1 (if cmp < 0 then node else right_node) key value = Some (t2, isReplaced)"
    "node_parent t2 node = Some parent" "leaf_at t2 right_node = Some rn2" "get_key (keys_with_values rn2) 0 = Some mid_key2"
    "insert_child t2 parent mid_key2 right_node = Some (t4, fence)"
  shows "put_to_leaf_node t node key value = Some (t4, if cmp < 0 then node else right_node, isReplaced)"
proof -
  have "put_to_internal_node t2 parent mid_key2 right_node \<bind> (\<lambda>(t3, unsplit_top_node).
      node_parent t3 right_node \<bind> (\<lambda>right_parent. node_key_count t3 right_node \<bind> (\<lambda>right_count.
      propagate_key_count_increment t3 right_parent unsplit_top_node right_count \<bind> (\<lambda>t4. Some (t4, x, r))))) =
    insert_child t2 parent mid_key2 right_node \<bind> (\<lambda>(t4, _). Some (t4, x, r))" for x :: ptr and r :: bool
    by (cases "put_to_internal_node t2 parent mid_key2 right_node") (auto simp: insert_child_def)
  then show ?thesis using assms by (simp add: put_to_leaf_node_def Let_def)
qed

lemma leaf_neighbour:
  assumes inv: "tree_inv kss kl t D U" and D: "D = A @ (s, p) # B" and n: "nodes t p = Some n" and nx: "n_next n \<noteq> 0"
  shows "leaf_at t (n_next n) \<noteq> None \<and> n_next n \<noteq> p \<and> n_next n \<noteq> next_addr t"
proof -
  note inv' = tree_invD [OF inv] and sd = shapeD [OF tree_invD(1) [OF inv]]
  have "n_next n = hd (map snd B @ [0])" using inv'(5) n by (simp add: D chain_append)
  then obtain b B' where B: "B = b # B'" "n_next n = snd b" using nx by (cases B) auto
  then have "leaf_ok kss kl t (n_next n)" "n_next n \<noteq> p" using inv'(3) [of b] sd(10) D by auto
  moreover have "snd b \<in> snd ` set D" using B D by simp
  then have "n_next n < next_addr t" using sd(4) [of "snd b"] B by (metis UnI1)
  ultimately show ?thesis by (auto simp: leaf_ok_def leaf_at_Some_iff)
qed

lemma hd_ord_put:
  assumes "sorted_keys xs" "xs \<noteq> []" "fst (hd xs) \<le> k"
  shows "fst (hd (ord_put k v xs)) = fst (hd xs)" "ord_put k v xs \<noteq> []"
proof -
  obtain x ys where xs: "xs = x # ys" using assms(2) by (cases xs) auto
  show "ord_put k v xs \<noteq> []" by (simp add: ord_put_def)
  show "fst (hd (ord_put k v xs)) = fst (hd xs)"
  proof (cases "fst x < k")
    case True
    then show ?thesis by (simp add: ord_put_def xs)
  next
    case False
    then have "k = fst x" using assms(3) xs by simp
    moreover from this have "filter (\<lambda>e. fst e < k) xs = []" using assms(1) xs by (auto simp: filter_empty_conv)
    ultimately show ?thesis by (simp add: ord_put_def xs)
  qed
qed

text \<open>The half of a split leaf that takes the key.\<close>

lemma half_put:
  assumes rep: "sa_rep kss kl left ls" "sa_rep kss kl right rs" and n: "n_magic n = LEAF_NODE_MAGIC" "p \<noteq> next_addr t"
    and sorted: "sorted_keys (ls @ rs)" and m: "rs \<noteq> []" "m = fst (hd rs)"
    and room: "length ls * kl + kl \<le> kss" "length rs * kl + kl \<le> kss" and k: "length k = kl"
  defines "t1 \<equiv> leaf_split_heap t p n left right (int (length ls)) (int (length rs))"
    and "x \<equiv> (if k < m then p else next_addr t)" and "r \<equiv> k \<in> fst ` set (ls @ rs)"
  shows "\<exists>left' right' ls' rs'.
     leaf_put t1 x k v = Some (leaf_split_heap t p n left' right' (int (length ls)) (int (length rs)), r) \<and>
     sa_rep kss kl left' ls' \<and> sa_rep kss kl right' rs' \<and> ls' @ rs' = ord_put k v (ls @ rs) \<and>
     length ls' = (if x = p then length ls + (if r then 0 else 1) else length ls) \<and>
     length rs' = (if x = p then length rs else length rs + (if r then 0 else 1)) \<and>
     (\<forall>e\<in>set ls'. fst e < m) \<and> (\<forall>e\<in>set rs'. m \<le> fst e) \<and> rs' \<noteq> [] \<and> fst (hd rs') = m"
proof -
  note hp = leaf_split_heap_put [OF n, where left = left and right = right and cl = "int (length ls)" and cr = "int (length rs)"]
  obtain e rs0 where rs: "rs = e # rs0" "m = fst e" using m by (cases rs) auto
  have lt: "\<forall>a\<in>set ls. fst a < m" "\<forall>a\<in>set rs. m \<le> fst a" and s2: "sorted_keys ls" "sorted_keys rs"
    using sorted by (auto simp: rs sorted_wrt_append less_imp_le)
  show ?thesis
  proof (cases "k < m")
    case True
    have above: "\<forall>a\<in>set rs. k < fst a" using lt(2) True by (auto intro: less_le_trans)
    then have r: "r \<longleftrightarrow> k \<in> fst ` set ls" by (auto simp: r_def)
    have "\<not> sa_is_full left" using room(1) by (simp add: sa_is_full_iff [OF rep(1)] not_less)
    then obtain left' where put: "sa_put left k v = Some left'" "sa_rep kss kl left' (ord_put k v ls)"
      using sa_put_spec [OF rep(1) k] by blast
    have "leaf_put t1 p k v = Some (leaf_split_heap t p n left' right (int (length ls)) (int (length rs)), r)"
      using leaf_put_eval [OF hp(1), of k v left' kss kl ls] put rep(1) hp(2) [of left'] r unfolding t1_def by simp
    moreover have "ord_put k v ls @ rs = ord_put k v (ls @ rs)"
      using ord_put_segment [of "[]" k rs v ls] above by simp
    moreover have "\<forall>a\<in>set (ord_put k v ls). fst a < m" using lt(1) True by (auto simp: set_ord_put)
    ultimately show ?thesis
      using put(2) rep(2) lt(2) m r length_ord_put [OF s2(1), of k v] True unfolding x_def
      by (intro exI [of _ left'] exI [of _ right] exI [of _ "ord_put k v ls"] exI [of _ rs]) simp
  next
    case False
    have below: "\<forall>a\<in>set ls. fst a < k" using lt(1) False by auto
    then have r: "r \<longleftrightarrow> k \<in> fst ` set rs" by (auto simp: r_def)
    have "\<not> sa_is_full right" using room(2) by (simp add: sa_is_full_iff [OF rep(2)] not_less)
    then obtain right' where put: "sa_put right k v = Some right'" "sa_rep kss kl right' (ord_put k v rs)"
      using sa_put_spec [OF rep(2) k] by blast
    obtain z where z: "leaf_at t1 (next_addr t) = Some z" "keys_with_values z = right"
        "store t1 (next_addr t) (z\<lparr>keys_with_values := right'\<rparr>) = leaf_split_heap t p n left right' (int (length ls)) (int (length rs))"
      using hp(3) [of right'] unfolding t1_def by blast
    have "leaf_put t1 (next_addr t) k v = Some (leaf_split_heap t p n left right' (int (length ls)) (int (length rs)), r)"
      using leaf_put_eval [OF z(1), of k v right' kss kl rs] put rep(2) z(2,3) r by simp
    moreover have "ls @ ord_put k v rs = ord_put k v (ls @ rs)"
      using ord_put_segment [of ls k "[]" v rs] below by simp
    moreover have "\<forall>a\<in>set (ord_put k v rs). m \<le> fst a" using lt(2) False by (auto simp: set_ord_put)
    moreover have "ord_put k v rs \<noteq> []" "fst (hd (ord_put k v rs)) = m"
      using hd_ord_put [OF s2(2) m(1), of k v] False m(2) by auto
    ultimately show ?thesis
      using put(2) rep(1) lt(1) r length_ord_put [OF s2(2), of k v] False n(2) unfolding x_def
      by (intro exI [of _ left] exI [of _ right'] exI [of _ ls] exI [of _ "ord_put k v rs"]) simp
  qed
qed

lemma put_to_leaf_node_full:
  assumes inv: "tree_inv kss kl t D U" and k: "length k = kl"
    and D: "D = A @ (s, p) # B" "s \<le> Some k" "\<forall>e\<in>set B. Some k < fst e"
    and lim: "length (content t D) < 2 ^ 31 - 1" and full: "kss < length (ents t p) * kl + kl"
  shows "leaf_put_result kss kl t D k v (put_to_leaf_node t p k v)"
proof -
  note inv' = tree_invD [OF inv] and sd = shapeD [OF tree_invD(1) [OF inv]]
  note seg = serving_content [OF sd(2) inv'(4) D]
  let ?z = "next_addr t"
  have pD: "(s, p) \<in> set D" "p \<in> snd ` set D" using D(1) by auto
  have pz: "p \<noteq> ?z" using sd(4) [of p] pD(2) by blast
  obtain n where n: "leaf_at t p = Some n" "nodes t p = Some n" "n_magic n = LEAF_NODE_MAGIC"
      and rep: "sa_rep kss kl (keys_with_values n) (ents t p)"
    using inv'(3) [OF pD(1)] by (auto elim: leaf_at_ok)
  have fl: "sa_is_full (keys_with_values n)" using full by (simp add: sa_is_full_iff [OF rep])
  have len3: "3 \<le> length (ents t p)" by (rule full_length [OF full sd(8)])
  define h where "h = length (ents t p) - length (ents t p) div 2"
  define ls rs where "ls = take h (ents t p)" and "rs = drop h (ents t p)"
  have es: "ents t p = ls @ rs" by (simp add: ls_def rs_def)
  have hl: "length ls = h" "length rs = length (ents t p) div 2" "rs \<noteq> []" "ls \<noteq> []"
    using len3 by (auto simp: ls_def rs_def h_def)
  obtain left right where reps: "sa_rep kss kl left ls" "sa_rep kss kl right rs"
    and split: "leaf_split t p = Some (?z, leaf_split_heap t p n left right (int (length ls)) (int (length rs)))"
    using leaf_split_eval [OF n(1,2) pz rep sd(6) leaf_neighbour [OF inv D(1) n(2)]] hl
    unfolding h_def [symmetric] ls_def [symmetric] rs_def [symmetric] by auto
  define m where "m = fst (hd rs)"
  have so: "sorted_keys (ls @ rs)" using sa_repD(11) [OF rep] es by simp
  have hdm: "hd rs \<in> set (ents t p)" using hl(3) es by simp
  have room: "length ls * kl + kl \<le> kss" "length rs * kl + kl \<le> kss"
  proof -
    have "Suc (length ls) \<le> length (ents t p)" "Suc (length rs) \<le> length (ents t p)" using hl es by (auto simp: Suc_le_eq)
    then have "Suc (length ls) * kl \<le> length (ents t p) * kl" "Suc (length rs) * kl \<le> length (ents t p) * kl"
      by (intro mult_le_mono1; simp)+
    then show "length ls * kl + kl \<le> kss" "length rs * kl + kl \<le> kss" using sa_repD(7) [OF rep] by simp_all
  qed
  have lm: "length m = kl" using sa_repD(8) [OF rep hdm] by (simp add: m_def)
  let ?r = "k \<in> fst ` set (ls @ rs)" and ?x = "if k < m then p else ?z" and ?d = "if k \<in> fst ` set (ls @ rs) then 0 else 1 :: nat"
  let ?t1 = "leaf_split_heap t p n left right (int (length ls)) (int (length rs))"
  obtain left' right' ls' rs' where put: "leaf_put ?t1 ?x k v =
       Some (leaf_split_heap t p n left' right' (int (length ls)) (int (length rs)), ?r)"
    and reps': "sa_rep kss kl left' ls'" "sa_rep kss kl right' rs'" and ct: "ls' @ rs' = ord_put k v (ls @ rs)"
    and len: "length ls' = (if ?x = p then length ls + ?d else length ls)" "length rs' = (if ?x = p then length rs else length rs + ?d)"
    and rng: "\<forall>e\<in>set ls'. fst e < m" "\<forall>e\<in>set rs'. m \<le> fst e" and hd': "rs' \<noteq> []" "fst (hd rs') = m"
    using half_put [OF reps n(3) pz so hl(3) m_def room k, of v] by blast
  define t2 where "t2 = leaf_split_heap t p n left' right' (int (length ls)) (int (length rs))"
  have sb: "s < fst e" if "e \<in> set B" for e using sd(2) D(1) that by (simp add: sorted_wrt_append)
  have rgp: "s \<le> Some (fst e) \<and> (\<forall>b\<in>set B. Some (fst e) < fst b)" if "e \<in> set (ls' @ rs')" for e
  proof -
    have "e \<in> set (ord_put k v (ents t p))" using that ct es by simp
    then have "e = (k, v) \<or> e \<in> set (ents t p)" by (auto simp: set_ord_put)
    then show ?thesis
    proof
      assume e: "e \<in> set (ents t p)"
      have "Some (fst e) < fst b" if "b \<in> set B" for b
        using rangedD(2) [OF inv'(4) pD(1), of e b] e sb [OF that] that D(1) by simp
      then show ?thesis using rangedD(1) [OF inv'(4) pD(1), of e] e by simp
    qed (use D in simp)
  qed
  have ls2: "\<forall>e\<in>set ls'. s \<le> Some (fst e) \<and> fst e < m" using rgp rng(1) by auto
  have rs2: "\<forall>e\<in>set rs'. m \<le> fst e \<and> (\<forall>b\<in>set B. Some (fst e) < fst b)" using rgp rng(2) by auto
  have so1: "sorted_keys (A @ (s, p) # (Some m, ?z) # B)"
  proof -
    obtain a where a: "a \<in> set ls" using hl(4) by (cases ls) auto
    have "s \<le> Some (fst a)" using rangedD(1) [OF inv'(4) pD(1), of a] a es by simp
    moreover have "fst a < m" using so a hl(3) by (auto simp: m_def sorted_wrt_append)
    ultimately have sm: "s < Some m" by (metis le_less_trans less_option_Some)
    have "Some m < fst e" if "e \<in> set B" for e
      using rangedD(2) [OF inv'(4) pD(1), of "hd rs" e] hdm sb [OF that] that D(1) by (simp add: m_def)
    then show ?thesis using sd(2) D(1) sm by (auto simp: sorted_wrt_append intro: less_trans)
  qed
  have x: "?x = p \<or> ?x = ?z" by simp
  have lim': "length (content t D) + ?d < 2 ^ 31" using lim by simp
  have sum: "length ls + length rs = length (ents t p)" using es by simp
  obtain t3 fence U1 where ins: "insert_child t2 (par t2 p) m ?z = Some (t3, fence)"
    and pre: "tree_pre kss kl t3 (A @ (s, p) # (Some m, ?z) # B) U1 ?x (int ?d)"
    and ct3: "content t3 (A @ (s, p) # (Some m, ?z) # B) = content t A @ (ls' @ rs') @ content t B"
    and fl3: "filled t D \<longrightarrow> ls' \<noteq> [] \<longrightarrow> rs' \<noteq> [] \<longrightarrow> filled t3 (A @ (s, p) # (Some m, ?z) # B)"
    using leaf_split_insert [OF inv D(1) n(2) t2_def reps' sum so1 lm ls2 rs2 x len lim'] by blast
  obtain cmp where cmp: "tree_compare_keys ?t1 k m = Some cmp" "cmp < 0 \<longleftrightarrow> k < m"
    using tree_compare_keys_iff [of ?t1 kl k m] sd(5) k lm by (auto simp: leaf_split_heap_def)
  obtain rn where rn: "leaf_at ?t1 ?z = Some rn" "keys_with_values rn = right"
    using leaf_split_heap_put(3) [OF n(3) pz] by blast
  obtain rn2 where rn2: "leaf_at t2 ?z = Some rn2" "keys_with_values rn2 = right'"
    using leaf_split_heap_put(3) [OF n(3) pz] unfolding t2_def by blast
  have mk: "sa_min_key right = Some m" using sa_min_key_spec [OF reps(2)] hl(3) by (simp add: m_def)
  have mk2: "get_key right' 0 = Some m"
    using sa_rep_key_at [OF reps'(2), of 0] hd' by (simp add: hd_conv_nth)
  have par: "node_parent t2 p = Some (par t2 p)"
    using leaf_split_heap_put(1) [OF n(3) pz] by (auto simp: t2_def node_parent_def par_def leaf_at_Some_iff)
  have r: "?r \<longleftrightarrow> k \<in> fst ` set (content t D)" using content_member [OF sd(2) inv'(4) D] es by simp
  have "put_to_leaf_node t p k v = Some (t3, ?x, ?r)"
    using put_to_leaf_node_full_unfold [OF n(1) fl split rn(1) _ cmp(1) _ par rn2(1) _ ins, of v ?r] rn(2) rn2(2) mk mk2 put cmp(2)
    by (simp add: t2_def)
  then have res: "put_to_leaf_node t p k v = Some (t3, ?x, k \<in> fst ` set (content t D))" by (simp only: r)
  have pre': "tree_pre kss kl t3 (A @ (s, p) # (Some m, ?z) # B) U1 ?x (if k \<in> fst ` set (content t D) then 0 else 1)"
  proof -
    have "int ?d = (if k \<in> fst ` set (content t D) then 0 else 1)" by (simp add: r [symmetric] del: set_append)
    then show ?thesis using pre by (simp only:)
  qed
  have ct': "content t3 (A @ (s, p) # (Some m, ?z) # B) = ord_put k v (content t D)"
    using ct3 ct es ord_put_segment [OF seg, of v "ents t p"] by (simp add: D(1))
  have "length ls \<le> length ls'" using len(1) by (simp split: if_splits)
  then have "ls' \<noteq> []" using hl(4) by auto
  with fl3 hd'(1) have fl': "filled t D \<longrightarrow> filled t3 (A @ (s, p) # (Some m, ?z) # B)" by simp
  show ?thesis
    unfolding leaf_put_result_def
    by (intro exI [of _ t3] exI [of _ ?x] exI [of _ "A @ (s, p) # (Some m, ?z) # B"] exI [of _ U1] conjI res pre' ct' fl') auto
qed

section \<open>The public operations\<close>

lemma tree_put_inv:
  assumes inv: "tree_inv kss kl t D U" and k: "length k = kl" and lim: "length (content t D) < 2 ^ 31 - 1"
  shows "\<exists>t' D' U'. tree_put t k v = Some t' \<and> tree_inv kss kl t' D' U' \<and>
           content t' D' = ord_put k v (content t D) \<and> (filled t D \<longrightarrow> filled t' D')"
proof -
  let ?in = "k \<in> fst ` set (content t D)"
  obtain A s p B where D: "D = A @ (s, p) # B" "s \<le> Some k" "\<forall>e\<in>set B. Some k < fst e"
    and f: "\<forall>want. find_leaf_node t k want = Some (p, if want then int (length (content t A)) else 0)"
    by (rule find_leaf_node_spec [OF inv k])
  have "leaf_put_result kss kl t D k v (put_to_leaf_node t p k v)"
    using put_to_leaf_node_room [OF inv k D lim] put_to_leaf_node_full [OF inv k D lim] by (meson not_less)
  then obtain t1 x D1 U1 where put: "put_to_leaf_node t p k v = Some (t1, x, ?in)"
    and x: "x \<in> snd ` set D1" and pre: "tree_pre kss kl t1 D1 U1 x (if ?in then 0 else 1)"
    and ct: "content t1 D1 = ord_put k v (content t D)" and fl: "filled t D \<longrightarrow> filled t1 D1"
    unfolding leaf_put_result_def by blast
  show ?thesis
  proof (cases ?in)
    case True
    then have "tree_inv kss kl t1 D1 U1" using pre by (simp add: tree_inv_def tree_pre_def)
    then show ?thesis using f put True ct fl by (auto simp: tree_put_def)
  next
    case False
    then obtain t' where t': "propagate_key_count_increment t1 x NULL 1 = Some t'" "tree_inv kss kl t' D1 U1"
        "content t' D1 = content t1 D1" "filled t1 D1 \<longrightarrow> filled t' D1"
      using finish_update [OF pre x] by auto
    have "tree_put t k v = Some t'" using f put False t'(1) by (simp add: tree_put_def)
    then show ?thesis using t'(2-4) ct fl by metis
  qed
qed

lemma tree_put_spec:
  assumes "tree_rep kss kl t xs" "length k = kl" "length xs < 2 ^ 31 - 1"
  shows "\<exists>t'. tree_put t k v = Some t' \<and> tree_rep kss kl t' (ord_put k v xs)"
  using assms tree_put_inv [of kss kl t _ _ k v] unfolding tree_rep_def by metis

lemma propagate_decrement_increment:
  assumes "propagate_key_count_increment t x f i = Some t'"
  shows "propagate_key_count_decrement t x f (- i) = Some t'"
  using assms
  by (rule propagate_key_count_increment.raw_induct [rotated])
    (subst propagate_key_count_decrement.simps, auto simp: bind_eq_Some_conv split: if_splits)

lemma tree_del_spec:
  assumes rep: "tree_rep kss kl t xs" and k: "length k = kl" and v: "map_of xs k = Some v"
  shows "\<exists>t'. tree_del t k = Some (v, t') \<and> tree_rep kss kl t' (ord_del k xs)"
proof -
  obtain D U where inv: "tree_inv kss kl t D U" and xs: "xs = content t D" using rep by (auto simp: tree_rep_def)
  note inv' = tree_invD [OF inv] and sd = shapeD [OF tree_invD(1) [OF inv]]
  obtain A s p B where D: "D = A @ (s, p) # B" "s \<le> Some k" "\<forall>e\<in>set B. Some k < fst e"
    and f: "\<forall>want. find_leaf_node t k want = Some (p, if want then int (length (content t A)) else 0)"
    by (rule find_leaf_node_spec [OF inv k])
  note seg = serving_content [OF sd(2) inv'(4) D]
  have pD: "(s, p) \<in> set D" "p \<in> snd ` set D" using D(1) by auto
  obtain n where n: "leaf_at t p = Some n" "nodes t p = Some n" "sa_rep kss kl (keys_with_values n) (ents t p)"
    using inv'(3) [OF pD(1)] by (auto elim: leaf_at_ok)
  have vp: "map_of (ents t p) k = Some v" using v map_of_segment [OF seg] by (simp add: xs D(1))
  obtain sa where sa: "sa_del (keys_with_values n) k = Some (v, sa)" "sa_rep kss kl sa (ord_del k (ents t p))"
    using sa_del_spec [OF n(3) k] vp by auto
  let ?t = "store t p (n\<lparr>keys_with_values := sa\<rparr>)"
  have mem: "k \<in> fst ` set (ents t p)" using vp by (metis map_of_eq_None_iff option.distinct(1))
  have len: "Suc (length (ord_del k (ents t p))) = length (ents t p)"
    using ord_del_present [OF sa_repD(11) [OF n(3)] mem] rank_lt_key(1) [OF sa_repD(11) [OF n(3)] mem] by simp
  have rg: "\<forall>x\<in>set (ord_del k (ents t p)). s \<le> Some (fst x) \<and> (\<forall>e\<in>set B. Some (fst x) < fst e)"
  proof -
    have "s < fst e" if "e \<in> set B" for e using sd(2) D(1) that by (simp add: sorted_wrt_append)
    then show ?thesis using D rangedD [OF inv'(4) pD(1)] by (auto simp: set_ord_del)
  qed
  have "length (content t A) + length (ord_del k (ents t p)) + length (content t B) < 2 ^ 31"
    using inv'(9) len D(1) by simp
  note up = leaf_update [OF inv D(1) n(2) sa(2) rg this]
  have "int (length (ord_del k (ents t p))) - int (length (ents t p)) = - 1" using len by simp
  then have pre: "tree_pre kss kl ?t D U p (- 1)" using up(1) by (simp only:)
  obtain t' where t': "propagate_key_count_increment ?t p NULL (- 1) = Some t'" "tree_inv kss kl t' D U" "content t' D = content ?t D"
    using finish_update [OF pre pD(2)] by blast
  have "propagate_key_count_decrement ?t p NULL 1 = Some t'" using propagate_decrement_increment [OF t'(1)] by simp
  then have "tree_del t k = Some (v, t')"
    using f n(1) sa(1) by (simp add: tree_del_def del_from_leaf_node_def leaf_del_def)
  moreover have "content t' D = ord_del k xs"
    using t'(3) up(2) ord_del_segment [OF seg, of "ents t p"] by (simp add: xs D(1))
  ultimately show ?thesis using t'(2) by (auto simp: tree_rep_def)
qed

text \<open>
  \<^verbatim>\<open>del\<close> lowers the key counts on the path to the root even when the leaf does not hold the key.
\<close>

lemma tree_del_absent:
  assumes rep: "tree_rep kss kl t xs" and k: "length k = kl" and v: "map_of xs k = None"
  shows "\<exists>t'. tree_del t k = Some (NULL, t') \<and> node_key_count t' (root_node t') = Some (int (length xs) - 1) \<and> t' = t\<lparr>nodes := nodes t'\<rparr> \<and>
     (\<forall>p. map_option (\<lambda>n. n\<lparr>n_key_count := 0\<rparr>) (nodes t' p) = map_option (\<lambda>n. n\<lparr>n_key_count := 0\<rparr>) (nodes t p))"
proof -
  obtain D U where inv: "tree_inv kss kl t D U" and xs: "xs = content t D" using rep by (auto simp: tree_rep_def)
  note inv' = tree_invD [OF inv] and sd = shapeD [OF tree_invD(1) [OF inv]]
  obtain A s p B where D: "D = A @ (s, p) # B" "s \<le> Some k" "\<forall>e\<in>set B. Some k < fst e"
    and f: "\<forall>want. find_leaf_node t k want = Some (p, if want then int (length (content t A)) else 0)"
    by (rule find_leaf_node_spec [OF inv k])
  have pD: "(s, p) \<in> set D" "p \<in> snd ` set D" using D(1) by auto
  obtain n where n: "leaf_at t p = Some n" "nodes t p = Some n" "sa_rep kss kl (keys_with_values n) (ents t p)"
    using inv'(3) [OF pD(1)] by (auto elim: leaf_at_ok)
  have vp: "map_of (ents t p) k = None"
    using v map_of_segment [OF serving_content [OF sd(2) inv'(4) D]] by (simp add: xs D(1))
  then have "sa_del (keys_with_values n) k = Some (NULL, keys_with_values n)"
    using search_forward_spec [OF n(3) k] by (simp add: sa_del_def map_of_eq_None_iff)
  moreover have "store t p (n\<lparr>keys_with_values := keys_with_values n\<rparr>) = t" using n(2) by (simp add: store_def fun_upd_idem)
  ultimately have del: "leaf_del t p k = Some (NULL, t)" using n(1) by (simp add: leaf_del_def)
  obtain t' where t': "propagate_key_count_increment t p NULL (- 1) = Some t'"
    and rc: "recount (snd ` set D \<union> ups U) t t'"
    and df: "\<And>y. y \<in> ups U \<Longrightarrow> defect t' y = defect t y + (if y = p then - 1 else 0) - (if y = 0 then - 1 else 0)"
    and c: "\<And>y. y \<notin> ups U \<Longrightarrow> kcnt t' y = kcnt t y + (if y = p \<and> p \<noteq> 0 then - 1 else 0)"
    using propagate_increment_spec [OF sd(1,3,9) order_refl upper_reach_root [OF sd(1) pD(2)] recount_refl, of "- 1"] by blast
  have z: "p \<noteq> 0" "p \<notin> ups U" "0 \<notin> ups U" using sd(9,11) pD(2) by auto
  have cD: "kcnt t' y = ((kcnt t)(p := kcnt t p + - 1)) y" if "y \<in> snd ` set D" for y
  proof -
    have "y \<notin> ups U" using sd(11) that by blast
    then show ?thesis using c [of y] z(1) by simp
  qed
  have up': "upper kss kl t' D U" by (rule recount_upper [OF rc sd(1)])
  have "defect t' x = 0" if "x \<in> ups U" for x
  proof -
    have "x \<noteq> p" "x \<noteq> 0" using that z by metis+
    then show ?thesis using df [OF that] inv'(6) [OF that] by simp
  qed
  then have "kcnt t' (root_node t') = sum_list (map (kcnt t' \<circ> snd) D)" by (intro root_count [OF up']) blast
  also have "\<dots> = sum_list (map ((kcnt t)(p := kcnt t p + - 1)) (map snd D))"
    using cD by (simp only: map_map comp_def) (metis (mono_tags, lifting) image_eqI map_eq_conv)
  also have "\<dots> = sum_list (map (kcnt t) (map snd D)) - 1"
    using sum_list_upd_distinct [OF sd(10), of "kcnt t" p "- 1"] pD(2) by simp
  also have "sum_list (map (kcnt t) (map snd D)) = int (length (content t D))"
    by (simp only: map_map) (rule content_length [OF inv'(7)])
  also have "content t D = xs" by (simp add: xs)
  finally have "node_key_count t' (root_node t') = Some (int (length xs) - 1)"
    using node_key_count_eq [OF upper_root_exists [OF up']] by simp
  moreover have "propagate_key_count_decrement t p NULL 1 = Some t'" using propagate_decrement_increment [OF t'] by simp
  then have "tree_del t k = Some (NULL, t')"
    using f del by (simp add: tree_del_def del_from_leaf_node_def)
  moreover obtain h where "t' = t\<lparr>nodes := h\<rparr>"
      "\<forall>y. map_option (n_key_count_update (\<lambda>_. 0)) (h y) = map_option (n_key_count_update (\<lambda>_. 0)) (nodes t y)"
    using rc unfolding recount_def by blast
  ultimately show ?thesis by auto
qed

lemma tree_init_inv:
  assumes "0 < kl" "3 * kl \<le> kss"
  shows "\<exists>t D U. tree_init (tree_new kss) (int kl) = Some t \<and> tree_inv kss kl t D U \<and> content t D = [] \<and> filled t D"
proof -
  obtain sa where sa: "sa_init (sa_new kss) (int kl) = Some sa" "sa_rep kss kl sa []"
    using sa_init_rep [OF assms(1)] by blast
  define t where "t = \<lparr>nodes = [1 \<mapsto> \<lparr>n_key_count = 0, n_parent = NULL, n_magic = INTERNAL_NODE_MAGIC,
             keys_with_values = sa_new 0, n_next = NULL, n_prev = NULL,
             keys_with_right_children = sa, n_left_child = 2\<rparr>,
       2 \<mapsto> \<lparr>n_key_count = 0, n_parent = 1, n_magic = LEAF_NODE_MAGIC,
             keys_with_values = sa, n_next = NULL, n_prev = NULL,
             keys_with_right_children = sa_new 0, n_left_child = NULL\<rparr>],
      next_addr = 3, tree_key_space_size = kss, tree_initialized = True, tree_key_length = int kl, root_node = 1\<rparr>"
  have init: "tree_init (tree_new kss) (int kl) = Some t"
    using sa(1) by (simp add: tree_init_def tree_new_def new_internal_node_def new_leaf_node_def set_left_child_def
        internal_at_def set_parent_def store_def Let_def t_def fun_eq_iff)
  have v: "seps t 1 = []" "lchild t 1 = 2" "kids t 1 = [2]" "ents t 2 = []" "kcnt t 1 = 0" "kcnt t 2 = 0"
    using sa_rep_entries [OF sa(2)] by (simp_all add: seps_def lchild_def kids_def ents_def kcnt_def t_def)
  have ok: "int_ok kss kl t 1" "leaf_ok kss kl t 2"
  proof -
    obtain n1 n2 where "nodes t 1 = Some n1" "n_magic n1 = INTERNAL_NODE_MAGIC" "keys_with_right_children n1 = sa"
        "nodes t 2 = Some n2" "n_magic n2 = LEAF_NODE_MAGIC" "keys_with_values n2 = sa" "n_parent n2 = 1"
      by (simp add: t_def)
    then show "int_ok kss kl t 1" "leaf_ok kss kl t 2"
      using sa(2) by (simp_all add: int_ok_def leaf_ok_def v del: One_nat_def)
  qed
  have tv: "root_node t = 1" "next_addr t = 3" "tree_key_length t = int kl" "tree_key_space_size t = kss" "tree_initialized t"
      "map_option n_parent (nodes t 1) = Some 0" "map_option n_prev (nodes t 2) = Some 0" "map_option n_next (nodes t 2) = Some 0"
    by (simp_all add: t_def)
  have "shape kss kl t [(None, 2)] [[(None, 1)]]"
    using ok(1) assms by (simp add: shape_def expand_fst v tv del: One_nat_def)
  then have "tree_inv kss kl t [(None, 2)] [[(None, 1)]]"
    using ok(2) by (simp add: tree_inv_def tree_pre_def ranged_def v tv defect_def kidsum_def del: One_nat_def)
  moreover have "content t [(None, 2)] = []" "filled t [(None, 2)]" by (simp_all add: v filled_def)
  ultimately show ?thesis using init by blast
qed

lemma tree_init_spec:
  assumes "0 < kl" "3 * kl \<le> kss"
  shows "\<exists>t. tree_init (tree_new kss) (int kl) = Some t \<and> tree_rep kss kl t []"
  using tree_init_inv [OF assms] unfolding tree_rep_def by metis

end
