(* ===== verification/Tree_Iter.thy ===== *)
theory Tree_Iter
  imports Tree_Ops
begin

text \<open>
  Iterators of the array tree: a position of an iterator is an index into the content of the tree.
  Seeking finds the index of a key or of an order, and a step moves it by one across the leaves, as
  long as no leaf is empty.
\<close>

section \<open>Positions\<close>

lemma content_key_length:
  assumes "tree_inv kss kl t D U" "x \<in> set (content t D)"
  shows "length (fst x) = kl"
proof -
  obtain e where e: "e \<in> set D" "x \<in> set (ents t (snd e))" using assms(2) by (auto simp: set_content)
  obtain n :: node where "sa_rep kss kl (keys_with_values n) (ents t (snd e))" using tree_invD(3) [OF assms(1) e(1)] unfolding leaf_ok_def by blast
  from sa_repD(8) [OF this] e(2) show ?thesis by auto
qed

definition fwd_at :: "nat \<Rightarrow> array_tree \<Rightarrow> level \<Rightarrow> tree_iterator \<Rightarrow> nat \<Rightarrow> bool" where
  "fwd_at kl t D iter i \<longleftrightarrow>
     (\<exists>A s p B j. D = A @ (s, p) # B \<and> j \<le> length (ents t p) \<and> i = length (content t A) + j \<and>
        iter = \<lparr>current_node = p, key_iter = sa_at kl (int j)\<rparr>)"

definition bwd_at :: "nat \<Rightarrow> array_tree \<Rightarrow> level \<Rightarrow> tree_iterator \<Rightarrow> nat \<Rightarrow> bool" where
  "bwd_at kl t D iter i \<longleftrightarrow>
     (\<exists>A s p B j. D = A @ (s, p) # B \<and> j \<le> length (ents t p) \<and> i = length (content t A) + j \<and>
        iter = \<lparr>current_node = p, key_iter = sa_at kl (int j - 1)\<rparr>)"

lemma leaf_of_tree:
  assumes inv: "tree_inv kss kl t D U" and D: "D = A @ (s, p) # B"
  obtains n where "leaf_at t p = Some n" "sa_rep kss kl (keys_with_values n) (ents t p)" "p \<noteq> 0"
    "n_next n = hd (map snd B @ [0])" "n_prev n = last (0 # map snd A)"
proof -
  note inv' = tree_invD [OF inv]
  obtain n where n: "leaf_at t p = Some n" "nodes t p = Some n" "sa_rep kss kl (keys_with_values n) (ents t p)"
    using inv'(3) [of "(s, p)"] D by (auto elim: leaf_at_ok)
  have "n_next n = hd (map snd B @ [0])" "n_prev n = last (0 # map snd A)"
    using inv'(5) n(2) by (auto simp: D chain_append)
  moreover have "p \<in> snd ` set D" using D by simp
  then have "p \<noteq> 0" using shapeD(9) [OF inv'(1)] by (metis UnI1)
  ultimately show ?thesis using that n(1,3) by blast
qed

lemma filled_other:
  assumes "filled t D" "D = A @ e # B" "x \<in> set A \<union> set B"
  shows "ents t (snd x) \<noteq> []"
  using assms by (cases A; cases B) (auto simp: filled_def)

text \<open>A step forward.\<close>

lemma tree_move_forward_step:
  assumes inv: "tree_inv kss kl t D U" and fl: "filled t D" and at: "fwd_at kl t D iter i" and i: "i < length (content t D)"
  shows "\<exists>iter'. tree_move_forward t iter = Some (NLDB_OK, Some (content t D ! i), iter') \<and> fwd_at kl t D iter' (Suc i)"
proof -
  obtain A s p B j where D: "D = A @ (s, p) # B" and j: "j \<le> length (ents t p)" "i = length (content t A) + j"
    and iter: "iter = \<lparr>current_node = p, key_iter = sa_at kl (int j)\<rparr>"
    using at by (auto simp: fwd_at_def)
  obtain n where n: "leaf_at t p = Some n" "sa_rep kss kl (keys_with_values n) (ents t p)" "p \<noteq> 0"
      "n_next n = hd (map snd B @ [0])"
    by (rule leaf_of_tree [OF inv D])
  show ?thesis
  proof (cases "j < length (ents t p)")
    case True
    have "content t D ! i = ents t p ! j" using True by (simp add: D j(2) nth_append)
    moreover have "fwd_at kl t D \<lparr>current_node = p, key_iter = sa_at kl (int j + 1)\<rparr> (Suc i)"
      unfolding fwd_at_def
      by (rule exI [of _ A], rule exI [of _ s], rule exI [of _ p], rule exI [of _ B], rule exI [of _ "Suc j"]) (use True D j(2) in \<open>simp add: add.commute\<close>)
    ultimately show ?thesis
      using n(1,3) iter_next_spec(1) [OF n(2) True] by (simp add: iter tree_move_forward_def)
  next
    case False
    then have jl: "j = length (ents t p)" using j(1) by simp
    then obtain s' p' B' where B: "B = (s', p') # B'" using i j(2) D by (cases B) auto
    have D': "D = (A @ [(s, p)]) @ (s', p') # B'" using D B by simp
    obtain n' where n': "leaf_at t p' = Some n'" "sa_rep kss kl (keys_with_values n') (ents t p')" "p' \<noteq> 0"
      by (rule leaf_of_tree [OF inv D'])
    have ne: "0 < length (ents t p')" using filled_other [OF fl D, of "(s', p')"] B by simp
    have "content t D ! i = ents t p' ! 0" using ne by (simp add: D B j(2) jl nth_append)
    moreover have "fwd_at kl t D \<lparr>current_node = p', key_iter = sa_at kl 1\<rparr> (Suc i)"
      unfolding fwd_at_def
      by (rule exI [of _ "A @ [(s, p)]"], rule exI [of _ s'], rule exI [of _ p'], rule exI [of _ B'], rule exI [of _ 1])
        (use ne D' j(2) jl in \<open>simp add: Suc_le_eq\<close>)
    moreover have "iter_next (keys_with_values n) (sa_at kl (int j)) = Some (None, sa_at kl (int j))"
      using iter_next_spec(2) [OF n(2)] jl by simp
    moreover have "iter_next (keys_with_values n') (sa_iter_forward (keys_with_values n')) = Some (Some (ents t p' ! 0), sa_at kl 1)"
      using iter_next_spec(1) [OF n'(2) ne] sa_iter_order_spec(3) [OF n'(2)] by simp
    ultimately show ?thesis
      using n(1,3,4) n'(1,3) B by (simp add: iter tree_move_forward_def)
  qed
qed

lemma tree_move_forward_end:
  assumes inv: "tree_inv kss kl t D U" and fl: "filled t D" and at: "fwd_at kl t D iter (length (content t D))"
  shows "\<exists>iter'. tree_move_forward t iter = Some (NLDB_ERROR_END_OF_ITERATION, None, iter')"
proof -
  obtain A s p B j where D: "D = A @ (s, p) # B" and j: "j \<le> length (ents t p)" "length (content t D) = length (content t A) + j"
    and iter: "iter = \<lparr>current_node = p, key_iter = sa_at kl (int j)\<rparr>"
    using at by (auto simp: fwd_at_def)
  obtain n where n: "leaf_at t p = Some n" "sa_rep kss kl (keys_with_values n) (ents t p)" "p \<noteq> 0"
      "n_next n = hd (map snd B @ [0])"
    by (rule leaf_of_tree [OF inv D])
  have jl: "j = length (ents t p)" "content t B = []" using j by (auto simp: D)
  have "B = []"
  proof (rule ccontr)
    assume "B \<noteq> []"
    then have "ents t (snd (hd B)) \<noteq> []" using filled_other [OF fl D, of "hd B"] by simp
    then show False using jl(2) \<open>B \<noteq> []\<close> by (cases B) auto
  qed
  then show ?thesis
    using n(1,3,4) iter_next_spec(2) [OF n(2)] jl(1) by (simp add: iter tree_move_forward_def)
qed

text \<open>A step backward.\<close>

lemma tree_move_backward_step:
  assumes inv: "tree_inv kss kl t D U" and fl: "filled t D" and at: "bwd_at kl t D iter (Suc i)"
  shows "\<exists>iter'. tree_move_backward t iter = Some (NLDB_OK, Some (content t D ! i), iter') \<and> bwd_at kl t D iter' i"
proof -
  obtain A s p B j where D: "D = A @ (s, p) # B" and j: "j \<le> length (ents t p)" "Suc i = length (content t A) + j"
    and iter: "iter = \<lparr>current_node = p, key_iter = sa_at kl (int j - 1)\<rparr>"
    using at by (auto simp: bwd_at_def)
  obtain n where n: "leaf_at t p = Some n" "sa_rep kss kl (keys_with_values n) (ents t p)" "p \<noteq> 0"
      "n_prev n = last (0 # map snd A)"
    by (rule leaf_of_tree [OF inv D])
  show ?thesis
  proof (cases j)
    case (Suc j')
    then have j': "j' < length (ents t p)" "i = length (content t A) + j'" using j by auto
    have "content t D ! i = ents t p ! j'" using j' by (simp add: D nth_append)
    moreover have "bwd_at kl t D \<lparr>current_node = p, key_iter = sa_at kl (int j' - 1)\<rparr> i"
      unfolding bwd_at_def
      by (rule exI [of _ A], rule exI [of _ s], rule exI [of _ p], rule exI [of _ B], rule exI [of _ j']) (use D j' in simp)
    ultimately show ?thesis
      using n(1,3) iter_prev_spec(1) [OF n(2) j'(1)] Suc by (simp add: iter tree_move_backward_def)
  next
    case 0
    then have "content t A \<noteq> []" using j(2) by auto
    then obtain A' s' p' where A: "A = A' @ [(s', p')]" by (cases A rule: rev_cases) auto
    have D': "D = A' @ (s', p') # ((s, p) # B)" using D A by simp
    obtain n' where n': "leaf_at t p' = Some n'" "sa_rep kss kl (keys_with_values n') (ents t p')" "p' \<noteq> 0"
      by (rule leaf_of_tree [OF inv D'])
    have "ents t p' \<noteq> []" using filled_other [OF fl D, of "(s', p')"] A by simp
    then obtain m where m: "length (ents t p') = Suc m" by (cases "ents t p'") auto
    then have ml: "m < length (ents t p')" by simp
    have i: "i = length (content t A') + m" using j(2) 0 A m by simp
    then have "content t D ! i = ents t p' ! m" using ml by (simp add: D A nth_append)
    moreover have "bwd_at kl t D \<lparr>current_node = p', key_iter = sa_at kl (int m - 1)\<rparr> i"
      unfolding bwd_at_def
      by (rule exI [of _ A'], rule exI [of _ s'], rule exI [of _ p'], rule exI [of _ "(s, p) # B"], rule exI [of _ m]) (use D' i ml in simp)
    moreover have "iter_prev (keys_with_values n) (sa_at kl (int j - 1)) = Some (None, sa_at kl (- 1))"
      using iter_prev_spec(2) [OF n(2)] 0 by simp
    moreover have "iter_prev (keys_with_values n') (sa_iter_backward (keys_with_values n')) = Some (Some (ents t p' ! m), sa_at kl (int m - 1))"
      using iter_prev_spec(1) [OF n'(2) ml] sa_iter_order_spec(4) [OF n'(2)] m by simp
    ultimately show ?thesis
      using n(1,3,4) n'(1,3) A by (simp add: iter tree_move_backward_def)
  qed
qed

lemma tree_move_backward_end:
  assumes inv: "tree_inv kss kl t D U" and fl: "filled t D" and at: "bwd_at kl t D iter 0"
  shows "\<exists>iter'. tree_move_backward t iter = Some (NLDB_ERROR_END_OF_ITERATION, None, iter')"
proof -
  obtain A s p B where D: "D = A @ (s, p) # B" and ct: "content t A = []"
    and iter: "iter = \<lparr>current_node = p, key_iter = sa_at kl (- 1)\<rparr>"
    using at by (auto simp: bwd_at_def)
  obtain n where n: "leaf_at t p = Some n" "sa_rep kss kl (keys_with_values n) (ents t p)" "p \<noteq> 0"
      "n_prev n = last (0 # map snd A)"
    by (rule leaf_of_tree [OF inv D])
  have "A = []"
  proof (rule ccontr)
    assume "A \<noteq> []"
    then have "ents t (snd (hd A)) \<noteq> []" using filled_other [OF fl D, of "hd A"] by simp
    then show False using ct \<open>A \<noteq> []\<close> by (cases A) auto
  qed
  then show ?thesis
    using n(1,3,4) iter_prev_spec(2) [OF n(2)] by (simp add: iter tree_move_backward_def)
qed


section \<open>Seeking\<close>

lemma rank_lt_segment:
  fixes k :: "'k::linorder"
  assumes "\<forall>e\<in>set as. fst e < k" and "\<forall>e\<in>set bs. k < fst e"
  shows "rank_lt k (as @ xs @ bs) = length as + rank_lt k xs"
proof -
  have "filter (\<lambda>e. fst e < k) as = as" "filter (\<lambda>e. fst e < k) bs = []"
    using assms by (auto simp: filter_empty_conv filter_id_conv)
  then show ?thesis by (simp add: rank_lt_def)
qed

lemma tree_seek_forward_spec:
  assumes inv: "tree_inv kss kl t D U" and k: "length k = kl"
  shows "\<exists>iter. tree_seek_forward t k = Some iter \<and> fwd_at kl t D iter (rank_lt k (content t D))"
    and "\<exists>iter. tree_seek_backward t k = Some iter \<and> bwd_at kl t D iter (rank_le k (content t D))"
proof -
  note inv' = tree_invD [OF inv]
  obtain A s p B where D: "D = A @ (s, p) # B" "s \<le> Some k" "\<forall>e\<in>set B. Some k < fst e"
    and f: "\<forall>want. find_leaf_node t k want = Some (p, if want then int (length (content t A)) else 0)"
    by (rule find_leaf_node_spec [OF inv k])
  note seg = serving_content [OF shapeD(2) [OF inv'(1)] inv'(4) D]
  obtain n where n: "leaf_at t p = Some n" "sa_rep kss kl (keys_with_values n) (ents t p)"
    by (rule leaf_of_tree [OF inv D(1)])
  have lt: "rank_lt k (content t D) = length (content t A) + rank_lt k (ents t p)"
    using rank_lt_segment [OF seg] by (simp add: D(1))
  have le: "rank_le k (content t D) = length (content t A) + rank_le k (ents t p)"
    using rank_le_segment [OF seg] by (simp add: D(1))
  have "fwd_at kl t D \<lparr>current_node = p, key_iter = sa_at kl (int (rank_lt k (ents t p)))\<rparr> (rank_lt k (content t D))"
    unfolding fwd_at_def lt using D(1) rank_lt_length by blast
  then show "\<exists>iter. tree_seek_forward t k = Some iter \<and> fwd_at kl t D iter (rank_lt k (content t D))"
    using f n(1) sa_iter_forward_key_spec [OF n(2) k] by (simp add: tree_seek_forward_def)
  have "bwd_at kl t D \<lparr>current_node = p, key_iter = sa_at kl (int (rank_le k (ents t p)) - 1)\<rparr> (rank_le k (content t D))"
    unfolding bwd_at_def le using D(1) rank_le_length by blast
  then show "\<exists>iter. tree_seek_backward t k = Some iter \<and> bwd_at kl t D iter (rank_le k (content t D))"
    using f n(1) sa_iter_backward_key_spec [OF n(2) k] by (simp add: tree_seek_backward_def)
qed

lemma tree_seek_order_spec:
  assumes inv: "tree_inv kss kl t D U" and m: "1 \<le> m" "m \<le> length (content t D)"
  shows "\<exists>it. tree_seek_forward_order t (int m) iter = Some (NLDB_OK, it) \<and> fwd_at kl t D it (m - 1)"
    and "\<exists>it. tree_seek_backward_order t (int m) iter = Some (NLDB_OK, it) \<and> bwd_at kl t D it m"
proof -
  obtain A s p B where D: "D = A @ (s, p) # B" and b: "length (content t A) < m" "m \<le> length (content t A) + length (ents t p)"
    and f: "find_leaf_node_by_order t (int m) = Some (p, int (length (content t A)))"
    by (rule find_leaf_node_by_order_spec [OF inv m])
  obtain n where n: "leaf_at t p = Some n" "sa_rep kss kl (keys_with_values n) (ents t p)"
    by (rule leaf_of_tree [OF inv D(1)])
  define j where "j = m - length (content t A)"
  have j: "m = length (content t A) + j" "0 < j" "j \<le> length (ents t p)" using b by (auto simp: j_def)
  have ok: "\<not> (int m < 1 \<or> int m > int (length (content t D)))" using m by simp
  have "fwd_at kl t D \<lparr>current_node = p, key_iter = sa_at kl (int (j - 1))\<rparr> (m - 1)"
    unfolding fwd_at_def
    by (rule exI [of _ A], rule exI [of _ s], rule exI [of _ p], rule exI [of _ B], rule exI [of _ "j - 1"]) (use D j in simp)
  moreover have eq: "int m - int (length (content t A)) = int j" "int j - 1 = int (j - 1)" using j by simp_all
  moreover have "tree_seek_forward_order t (int m) iter = Some (NLDB_OK, \<lparr>current_node = p, key_iter = sa_at kl (int j - 1)\<rparr>)"
    using f n(1) ok root_key_count [OF inv] by (simp add: tree_seek_forward_order_def sa_iter_order_spec(1) [OF n(2)] eq(1))
  ultimately show "\<exists>it. tree_seek_forward_order t (int m) iter = Some (NLDB_OK, it) \<and> fwd_at kl t D it (m - 1)"
    by (simp only: eq(2)) blast
  have "bwd_at kl t D \<lparr>current_node = p, key_iter = sa_at kl (int j - 1)\<rparr> m"
    unfolding bwd_at_def using D j by blast
  moreover have "tree_seek_backward_order t (int m) iter = Some (NLDB_OK, \<lparr>current_node = p, key_iter = sa_at kl (int j - 1)\<rparr>)"
    using f n(1) ok root_key_count [OF inv] by (simp add: tree_seek_backward_order_def sa_iter_order_spec(2) [OF n(2)] eq(1))
  ultimately show "\<exists>it. tree_seek_backward_order t (int m) iter = Some (NLDB_OK, it) \<and> bwd_at kl t D it m" by blast
qed

section \<open>Scans\<close>

text \<open>The loop of a cursor's client: step until the return code is not \<^verbatim>\<open>NLDB_OK\<close>.\<close>

partial_function (option) tree_scan_forward :: "array_tree \<Rightarrow> tree_iterator \<Rightarrow> entries option" where
  "tree_scan_forward t iter =
     do { (rc, entry, iter') \<leftarrow> tree_move_forward t iter;
          if rc = NLDB_OK then do { e \<leftarrow> entry; es \<leftarrow> tree_scan_forward t iter'; Some (e # es) } else Some [] }"

partial_function (option) tree_scan_backward :: "array_tree \<Rightarrow> tree_iterator \<Rightarrow> entries option" where
  "tree_scan_backward t iter =
     do { (rc, entry, iter') \<leftarrow> tree_move_backward t iter;
          if rc = NLDB_OK then do { e \<leftarrow> entry; es \<leftarrow> tree_scan_backward t iter'; Some (e # es) } else Some [] }"

declare tree_scan_forward.simps [code] tree_scan_backward.simps [code]

lemma tree_scan_forward_drop:
  assumes inv: "tree_inv kss kl t D U" and fl: "filled t D" and "i \<le> length (content t D)" "fwd_at kl t D iter i"
  shows "tree_scan_forward t iter = Some (drop i (content t D))"
  using assms(3,4)
proof (induction i arbitrary: iter rule: inc_induct)
  case base
  then show ?case
    using tree_move_forward_end [OF inv fl base] by (subst tree_scan_forward.simps) auto
next
  case (step i)
  obtain iter' where "tree_move_forward t iter = Some (NLDB_OK, Some (content t D ! i), iter')" "fwd_at kl t D iter' (Suc i)"
    using tree_move_forward_step [OF inv fl step.prems step.hyps(2)] by blast
  with step.IH step.hyps(2) show ?case
    by (subst tree_scan_forward.simps) (simp add: Cons_nth_drop_Suc)
qed

lemma tree_scan_backward_take:
  assumes inv: "tree_inv kss kl t D U" and fl: "filled t D" and "i \<le> length (content t D)" "bwd_at kl t D iter i"
  shows "tree_scan_backward t iter = Some (rev (take i (content t D)))"
  using assms(3,4)
proof (induction i arbitrary: iter)
  case 0
  then show ?case
    using tree_move_backward_end [OF inv fl 0(2)] by (subst tree_scan_backward.simps) auto
next
  case (Suc i)
  obtain iter' where "tree_move_backward t iter = Some (NLDB_OK, Some (content t D ! i), iter')" "bwd_at kl t D iter' i"
    using tree_move_backward_step [OF inv fl Suc.prems(2)] by blast
  with Suc.IH [of iter'] Suc.prems(1) show ?case
    by (subst tree_scan_backward.simps) (simp add: take_Suc_conv_app_nth)
qed

text \<open>Trees built by \<^verbatim>\<open>put\<close> alone: no leaf is empty.\<close>

definition tree_filled_rep :: "nat \<Rightarrow> nat \<Rightarrow> array_tree \<Rightarrow> entries \<Rightarrow> bool" where
  "tree_filled_rep kss kl t xs \<longleftrightarrow> (\<exists>D U. tree_inv kss kl t D U \<and> xs = content t D \<and> filled t D)"

lemma tree_filled_rep_put:
  assumes "tree_filled_rep kss kl t xs" "length k = kl" "length xs < 2 ^ 31 - 1"
  shows "\<exists>t'. tree_put t k v = Some t' \<and> tree_filled_rep kss kl t' (ord_put k v xs)"
  using assms tree_put_inv [of kss kl t _ _ k v] unfolding tree_filled_rep_def by metis

end
