(* ===== verification/Tree_Properties.thy ===== *)
theory Tree_Properties
  imports Tree_Iter Ordered_Table
begin

text \<open>
  What the array tree of \<^verbatim>\<open>nldb_array_tree.h\<close> promises: it implements the ordered table contract for up
  to \<open>2 ^ 31 - 1\<close> keys (the running total of \<^verbatim>\<open>count_all_keys_before_position\<close> is an \<^verbatim>\<open>int\<close>), provided that
  a node has room for at least three keys.
\<close>

interpretation tree: ordered_table kl "2 ^ 31 - 1" "tree_rep kss kl" tree_put
    "\<lambda>t k. map_option fst (tree_get t k want)" tree_del
  for kl kss want
proof unfold_locales
  fix t xs and k :: key and v
  assume rep: "tree_rep kss kl t xs"
  show "sorted_keys xs" by (rule tree_rep_sorted [OF rep])
  assume len: "length k = kl"
  show "map_option fst (tree_get t k want) = Some (case map_of xs k of None \<Rightarrow> NULL | Some v \<Rightarrow> v)"
    using tree_get_spec [OF rep len, of want] by auto
  show "\<exists>t'. tree_put t k v = Some t' \<and> tree_rep kss kl t' (ord_put k v xs)" if "length xs < 2 ^ 31 - 1"
    by (rule tree_put_spec [OF rep len that])
  show "\<exists>t'. tree_del t k = Some (v, t') \<and> tree_rep kss kl t' (ord_del k xs)" if "map_of xs k = Some v"
    by (rule tree_del_spec [OF rep len that])
qed

lemma tree_run_rep:
  assumes "0 < kl" "3 * kl \<le> kss" "ops_ok kl (2 ^ 31 - 1) ops []"
  obtains t t' where "tree_init (tree_new kss) (int kl) = Some t" "run_ops tree_put tree_del ops t = Some t'"
    "tree_rep kss kl t' (fold apply_op ops [])"
proof -
  obtain t where t: "tree_init (tree_new kss) (int kl) = Some t" "tree_rep kss kl t []"
    using tree_init_spec [OF assms(1,2)] by blast
  then show ?thesis using tree.run_ops_rep [OF t(2) assms(3)] that by blast
qed

text \<open>A sample tree: nodes of six bytes, keys of two, so that a node holds three keys and splits at the fourth.\<close>

definition sample_ops :: "ptr table_op list" where
  "sample_ops = map (\<lambda>i. Put [0, i] (unat i + 100)) [5, 1, 9, 3, 7, 2, 8] @ [Del [0, 3]]"

abbreviation sample_content :: entries where
  "sample_content \<equiv> [([0, 1], 101), ([0, 2], 102), ([0, 5], 105), ([0, 7], 107), ([0, 8], 108), ([0, 9], 109)]"

lemma sample_ops_ok: "ops_ok 2 (2 ^ 31 - 1) sample_ops []"
  and sample_ops_content: "fold apply_op sample_ops [] = sample_content"
  by (simp_all add: sample_ops_def ord_put_def ord_del_def)

definition sample_tree :: array_tree where
  "sample_tree = the (tree_init (tree_new 6) 2 \<bind> run_ops tree_put tree_del sample_ops)"

lemma sample_tree_rep: "tree_rep 6 2 sample_tree sample_content"
proof -
  obtain t t' where "tree_init (tree_new 6) (int 2) = Some t" "run_ops tree_put tree_del sample_ops t = Some t'"
    "tree_rep 6 2 t' (fold apply_op sample_ops [])"
    using tree_run_rep [of 2 6 sample_ops] sample_ops_ok by auto
  then show ?thesis by (simp add: sample_tree_def sample_ops_content)
qed

section \<open>Properties\<close>

text \<open>
  C1: every permitted sequence of \<^verbatim>\<open>put\<close> and \<^verbatim>\<open>del\<close> calls on a freshly initialised tree returns, through all
  splits of leaves, internal nodes and the root, and afterwards \<^verbatim>\<open>get\<close> finds for each key exactly the value of its last
  update, and the null pointer for a key that was never put or last deleted.
\<close>

theorem tree_get_after_updates:
  assumes "0 < kl" "3 * kl \<le> kss" and "ops_ok kl (2 ^ 31 - 1) ops []"
  shows "\<exists>t t'. tree_init (tree_new kss) (int kl) = Some t \<and> run_ops tree_put tree_del ops t = Some t' \<and>
           (\<forall>k want. length k = kl \<longrightarrow>
              map_option fst (tree_get t' k want) =
                Some (case history ops Map.empty k of None \<Rightarrow> NULL | Some v \<Rightarrow> v))"
proof -
  obtain t t' where t: "tree_init (tree_new kss) (int kl) = Some t" "run_ops tree_put tree_del ops t = Some t'"
    "tree_rep kss kl t' (fold apply_op ops [])"
    by (rule tree_run_rep [OF assms])
  then show ?thesis using tree.lookup_law [OF t(3)] map_of_fold_apply_op [of ops "[]"] by auto
qed

theorem tree_get_after_updates_witness:
  "\<exists>t t'. tree_init (tree_new 6) 2 = Some t \<and> run_ops tree_put tree_del sample_ops t = Some t' \<and>
     map_option fst (tree_get t' [0, 7] True) = Some 107 \<and> map_option fst (tree_get t' [0, 3] False) = Some NULL"
proof -
  obtain t t' where t: "tree_init (tree_new 6) 2 = Some t" "run_ops tree_put tree_del sample_ops t = Some t'"
    and get: "\<And>k want. length k = 2 \<Longrightarrow> map_option fst (tree_get t' k want) =
        Some (case history sample_ops Map.empty k of None \<Rightarrow> NULL | Some v \<Rightarrow> v)"
    using tree_get_after_updates [OF _ _ sample_ops_ok, of 6] by auto
  have "map_option fst (tree_get t' [0, 7] True) = Some 107" "map_option fst (tree_get t' [0, 3] False) = Some NULL"
    using get [of "[0, 7]" True] get [of "[0, 3]" False] by (simp_all add: sample_ops_def)
  with t show ?thesis by blast
qed

text \<open>
  C5: \<^verbatim>\<open>put\<close> on a tree that holds the sorted pairs \<open>xs\<close> returns, and the tree then holds \<open>xs\<close> with the pair
  inserted at its place or replacing the pair with the same key; sorted leaves, separators,
  parent pointers, the list of leaves and all key counts stay right.
\<close>

theorem tree_put_refines_ord_put:
  assumes "tree_rep kss kl t xs" "length k = kl" "length xs < 2 ^ 31 - 1"
  shows "\<exists>t'. tree_put t k v = Some t' \<and> tree_rep kss kl t' (ord_put k v xs)"
  using assms by (rule tree_put_spec)

theorem tree_put_refines_ord_put_witness:
  "\<exists>t'. tree_put sample_tree [0, 6] 106 = Some t' \<and>
     tree_rep 6 2 t' [([0, 1], 101), ([0, 2], 102), ([0, 5], 105), ([0, 6], 106), ([0, 7], 107), ([0, 8], 108), ([0, 9], 109)]"
  using tree_put_refines_ord_put [OF sample_tree_rep, of "[0, 6]" 106] by (simp add: ord_put_def)

text \<open>
  C6: \<^verbatim>\<open>del\<close> of a stored key hands back its value and removes exactly its pair.
\<close>

theorem tree_del_refines_ord_del:
  assumes "tree_rep kss kl t xs" "length k = kl" "map_of xs k = Some v"
  shows "\<exists>t'. tree_del t k = Some (v, t') \<and> tree_rep kss kl t' (ord_del k xs)"
  using assms by (rule tree_del_spec)

theorem tree_del_refines_ord_del_witness:
  "\<exists>t'. tree_del sample_tree [0, 5] = Some (105, t') \<and>
     tree_rep 6 2 t' [([0, 1], 101), ([0, 2], 102), ([0, 7], 107), ([0, 8], 108), ([0, 9], 109)]"
  using tree_del_refines_ord_del [OF sample_tree_rep, of "[0, 5]" 105] by (simp add: ord_del_def)

text \<open>
  \<^verbatim>\<open>get\<close> by order finds the pair of every rank from 1 to the number of keys, and answers
  \<^verbatim>\<open>NLDB_ERROR_KEY_NOT_FOUND\<close> for every other order.
\<close>

theorem tree_get_by_order_correct:
  assumes "tree_rep kss kl t xs"
  shows "tree_get_by_order t i =
           Some (if 1 \<le> i \<and> i \<le> int (length xs) then (NLDB_OK, Some (xs ! nat (i - 1)))
                 else (NLDB_ERROR_KEY_NOT_FOUND, None))"
  using assms by (rule tree_get_by_order_spec)

theorem tree_get_by_order_correct_witness:
  "tree_get_by_order sample_tree 3 = Some (0, Some ([0, 5], 105)) \<and> tree_get_by_order sample_tree 7 = Some (- 10, None)"
  using tree_get_by_order_correct [OF sample_tree_rep, of 3] tree_get_by_order_correct [OF sample_tree_rep, of 7]
  by (simp add: numeral_2_eq_2)

text \<open>
  the order that \<^verbatim>\<open>get\<close> reports for a stored key is its rank: \<^verbatim>\<open>get\<close> by that order leads back to the key and its value.
\<close>

theorem tree_order_roundtrip:
  assumes "tree_rep kss kl t xs" "length k = kl" "map_of xs k = Some v"
  shows "\<exists>n. tree_get t k True = Some (v, n) \<and> tree_get_by_order t n = Some (NLDB_OK, Some (k, v))"
proof -
  note s = tree_rep_sorted [OF assms(1)]
  have k: "k \<in> fst ` set xs" using assms(3) by (metis map_of_eq_None_iff option.distinct(1))
  have n: "rank_le k xs = Suc (rank_lt k xs)" using rank_le_present [OF s k] by simp
  have "xs ! rank_lt k xs = (k, v)"
    using rank_lt_key [OF s k] map_of_rank_lt [OF s k] assms(3) by (simp add: prod_eq_iff)
  then have "tree_get_by_order t (int (rank_le k xs)) = Some (NLDB_OK, Some (k, v))"
    using tree_get_by_order_spec [OF assms(1)] rank_le_length [of k xs] by (simp add: n)
  moreover have "tree_get t k True = Some (v, int (rank_le k xs))"
    using tree_get_spec [OF assms(1,2), of True] assms(3) by auto
  ultimately show ?thesis by blast
qed

theorem tree_order_roundtrip_witness:
  "\<exists>n. tree_get sample_tree [0, 8] True = Some (108, n) \<and> tree_get_by_order sample_tree n = Some (0, Some ([0, 8], 108))"
  using tree_order_roundtrip [OF sample_tree_rep, of "[0, 8]" 108] by simp

text \<open>\<^verbatim>\<open>get_key_count\<close> is the number of stored keys.\<close>

theorem tree_key_count_correct:
  assumes "tree_rep kss kl t xs"
  shows "tree_get_key_count t = Some (int (length xs))"
  using assms root_key_count by (auto simp: tree_rep_def tree_get_key_count_def)

theorem tree_key_count_correct_witness: "tree_get_key_count sample_tree = Some 6"
  using tree_key_count_correct [OF sample_tree_rep] by simp


text \<open>
  C15: in a tree without empty leaves, which \<^verbatim>\<open>put\<close> keeps, seeking forward to a key and
  stepping until the end yields exactly the pairs with a key not below it, ascending across the leaves;
  seeking backward yields those not above it, descending.
\<close>

theorem tree_scan_by_key:
  assumes "tree_filled_rep kss kl t xs" "length k = kl"
  shows "tree_seek_forward t k \<bind> tree_scan_forward t = Some (filter (\<lambda>e. k \<le> fst e) xs) \<and>
         tree_seek_backward t k \<bind> tree_scan_backward t = Some (rev (filter (\<lambda>e. fst e \<le> k) xs))"
proof -
  obtain D U where inv: "tree_inv kss kl t D U" and xs: "xs = content t D" and fl: "filled t D"
    using assms(1) by (auto simp: tree_filled_rep_def)
  note s = content_sorted [OF inv]
  obtain it it' where "tree_seek_forward t k = Some it" "fwd_at kl t D it (rank_lt k (content t D))"
      "tree_seek_backward t k = Some it'" "bwd_at kl t D it' (rank_le k (content t D))"
    using tree_seek_forward_spec [OF inv assms(2)] by blast
  then show ?thesis
    using tree_scan_forward_drop [OF inv fl rank_lt_length] tree_scan_backward_take [OF inv fl rank_le_length]
    by (simp add: xs filter_sorted_take [OF s])
qed

text \<open>The tree of seven keys built by \<^verbatim>\<open>put\<close> alone.\<close>

definition put_keys :: "byte list \<Rightarrow> ptr table_op list" where
  "put_keys is = map (\<lambda>i. Put [i] (unat i)) is"

lemma tree_filled_run:
  assumes "tree_filled_rep kss 1 t xs" "length xs + length is < 2 ^ 31"
  shows "\<exists>t'. run_ops tree_put tree_del (put_keys is) t = Some t' \<and>
           tree_filled_rep kss 1 t' (fold (\<lambda>i. ord_put [i] (unat i)) is xs)"
  using assms
proof (induction "is" arbitrary: t xs)
  case (Cons i "is")
  obtain t1 where t1: "tree_put t [i] (unat i) = Some t1" "tree_filled_rep kss 1 t1 (ord_put [i] (unat i) xs)"
    using tree_filled_rep_put [OF Cons.prems(1), of "[i]"] Cons.prems(2) by auto
  have "length (ord_put [i] (unat i) xs) \<le> Suc (length xs)"
    using length_ord_put [of xs "[i]" "unat i"] Cons.prems(1) content_sorted by (auto simp: tree_filled_rep_def)
  then show ?case using Cons.IH [OF t1(2)] Cons.prems(2) t1(1) by (simp add: put_keys_def)
qed (simp add: put_keys_def)

definition scan_tree :: array_tree where
  "scan_tree = the (tree_init (tree_new 3) 1 \<bind> run_ops tree_put tree_del (put_keys [4, 2, 6, 1, 3, 5, 7]))"

lemma scan_tree_rep:
  "tree_filled_rep 3 1 scan_tree [([1], 1), ([2], 2), ([3], 3), ([4], 4), ([5], 5), ([6], 6), ([7], 7)]"
proof -
  obtain t where t: "tree_init (tree_new 3) 1 = Some t" "tree_filled_rep 3 1 t []"
    using tree_init_inv [of 1 3] unfolding tree_filled_rep_def by (auto simp: eq_commute)
  then obtain t' where "run_ops tree_put tree_del (put_keys [4, 2, 6, 1, 3, 5, 7]) t = Some t'"
      "tree_filled_rep 3 1 t' (fold (\<lambda>i. ord_put [i] (unat i)) [4, 2, 6, 1, 3, 5, 7] [])"
    using tree_filled_run [OF t(2), of "[4, 2, 6, 1, 3, 5, 7]"] by auto
  then show ?thesis using t(1) by (simp add: scan_tree_def ord_put_def)
qed

theorem tree_scan_by_key_witness:
  "tree_seek_forward scan_tree [5] \<bind> tree_scan_forward scan_tree = Some [([5], 5), ([6], 6), ([7], 7)] \<and>
   tree_seek_backward scan_tree [3] \<bind> tree_scan_backward scan_tree = Some [([3], 3), ([2], 2), ([1], 1)]"
  using tree_scan_by_key [OF scan_tree_rep, of "[5]"] tree_scan_by_key [OF scan_tree_rep, of "[3]"] by simp

text \<open>
  in a tree without empty leaves, seeking to an order from 1 to the number of keys and stepping to the
  end yields the pairs from that rank on (forward), or from that rank down to the first (backward).
\<close>

theorem tree_scan_by_order:
  assumes "tree_filled_rep kss kl t xs" "1 \<le> m" "m \<le> length xs"
  shows "\<exists>f b. tree_seek_forward_order t (int m) iter = Some (NLDB_OK, f) \<and>
           tree_scan_forward t f = Some (drop (m - 1) xs) \<and>
           tree_seek_backward_order t (int m) iter = Some (NLDB_OK, b) \<and>
           tree_scan_backward t b = Some (rev (take m xs))"
proof -
  obtain D U where inv: "tree_inv kss kl t D U" and xs: "xs = content t D" and fl: "filled t D"
    using assms(1) by (auto simp: tree_filled_rep_def)
  obtain f b where "tree_seek_forward_order t (int m) iter = Some (NLDB_OK, f)" "fwd_at kl t D f (m - 1)"
      "tree_seek_backward_order t (int m) iter = Some (NLDB_OK, b)" "bwd_at kl t D b m"
    using tree_seek_order_spec [OF inv assms(2) assms(3) [unfolded xs]] by blast
  then show ?thesis
    using tree_scan_forward_drop [OF inv fl, of "m - 1" f] tree_scan_backward_take [OF inv fl, of m b] assms(3)
    by (simp add: xs)
qed

theorem tree_scan_by_order_witness:
  "\<exists>f b. tree_seek_forward_order scan_tree 6 \<lparr>current_node = 0, key_iter = sa_at 1 0\<rparr> = Some (0, f) \<and>
     tree_scan_forward scan_tree f = Some [([6], 6), ([7], 7)] \<and>
     tree_seek_backward_order scan_tree 6 \<lparr>current_node = 0, key_iter = sa_at 1 0\<rparr> = Some (0, b) \<and>
     tree_scan_backward scan_tree b = Some [([6], 6), ([5], 5), ([4], 4), ([3], 3), ([2], 2), ([1], 1)]"
  using tree_scan_by_order [OF scan_tree_rep, of 6] by simp

text \<open>
  C37: \<^verbatim>\<open>del\<close> of a key that is not stored hands back the null pointer and leaves every node as it is, but for the key counts: after it
  \<^verbatim>\<open>get_key_count\<close> is one less than the number of keys.
\<close>

theorem tree_del_absent_miscounts:
  assumes "tree_rep kss kl t xs" "length k = kl" "map_of xs k = None"
  shows "\<exists>t'. tree_del t k = Some (NULL, t') \<and> tree_get_key_count t' = Some (int (length xs) - 1) \<and> t' = t\<lparr>nodes := nodes t'\<rparr> \<and>
     (\<forall>p. map_option (\<lambda>n. n\<lparr>n_key_count := 0\<rparr>) (nodes t' p) = map_option (\<lambda>n. n\<lparr>n_key_count := 0\<rparr>) (nodes t p))"
  using tree_del_absent [OF assms] by (auto simp: tree_get_key_count_def)

theorem tree_del_absent_miscounts_witness:
  "\<exists>t'. tree_del sample_tree [0, 4] = Some (NULL, t') \<and> tree_get_key_count t' = Some 5 \<and> root_node t' = root_node sample_tree"
proof -
  obtain t' where t': "tree_del sample_tree [0, 4] = Some (NULL, t')" "tree_get_key_count t' = Some 5" "t' = sample_tree\<lparr>nodes := nodes t'\<rparr>"
    using tree_del_absent_miscounts [OF sample_tree_rep, of "[0, 4]"] by auto
  from arg_cong [OF t'(3), of root_node] t'(1,2) show ?thesis by auto
qed

end
