(* ===== verification/Tree_Wellformed.thy ===== *)
theory Tree_Wellformed
  imports Tree_Properties
begin

text \<open>
  The types and links of the nodes of an array tree, stated node by node along the pointers from the root and without the levels
  by which the invariant of the other theories is organised.
\<close>

definition children :: "node \<Rightarrow> ptr list" where
  "children n = n_left_child n # map snd (sa_entries (keys_with_right_children n))"

text \<open>\<open>tree_node t d p\<close>: the node at \<open>p\<close> is reached from the root through \<open>d\<close> child pointers.\<close>

inductive tree_node :: "array_tree \<Rightarrow> nat \<Rightarrow> ptr \<Rightarrow> bool" for t where
  root: "tree_node t 0 (root_node t)"
| child: "tree_node t d p \<Longrightarrow> internal_at t p = Some n \<Longrightarrow> c \<in> set (children n) \<Longrightarrow> tree_node t (Suc d) c"

definition internal_wf :: "array_tree \<Rightarrow> ptr \<Rightarrow> node \<Rightarrow> bool" where
  "internal_wf t p n \<longleftrightarrow> n_magic n = INTERNAL_NODE_MAGIC \<and> distinct (children n) \<and>
     (\<forall>c\<in>set (children n). node_parent t c = Some p) \<and> n_key_count n = sum_list (map (kcnt t) (children n))"

definition leaf_wf :: "node \<Rightarrow> bool" where
  "leaf_wf n \<longleftrightarrow> n_magic n = LEAF_NODE_MAGIC \<and> n_key_count n = sa_key_count (keys_with_values n)"

text \<open>The nodes at depth \<open>d\<close> from left to right.\<close>

fun level_nodes :: "array_tree \<Rightarrow> nat \<Rightarrow> ptr list" where
  "level_nodes t 0 = [root_node t]"
| "level_nodes t (Suc d) = concat (map (\<lambda>p. case internal_at t p of None \<Rightarrow> [] | Some n \<Rightarrow> children n) (level_nodes t d))"

text \<open>The sibling pointers link the nodes of a list in this order, with null pointers at its ends.\<close>

definition linked :: "array_tree \<Rightarrow> ptr list \<Rightarrow> bool" where
  "linked t ps \<longleftrightarrow> distinct ps \<and> (\<forall>i<length ps. \<exists>n. nodes t (ps ! i) = Some n \<and>
     n_prev n = (if i = 0 then NULL else ps ! (i - 1)) \<and> n_next n = (if Suc i = length ps then NULL else ps ! Suc i))"

definition tree_wf :: "array_tree \<Rightarrow> nat \<Rightarrow> bool" where
  "tree_wf t h \<longleftrightarrow> node_parent t (root_node t) = Some NULL \<and>
     (\<forall>d p. tree_node t d p \<longrightarrow> d \<le> h \<and> (\<exists>n. nodes t p = Some n \<and> (if d = h then leaf_wf n else internal_wf t p n))) \<and>
     linked t (level_nodes t h)"

section \<open>Levels and nodes\<close>

lemma upper_nth:
  "upper kss kl t D U \<Longrightarrow> i < length U \<Longrightarrow>
     (D # U) ! i = concat (map (expand t) (U ! i)) \<and> (\<forall>e\<in>set (U ! i). int_ok kss kl t (snd e))"
proof (induction U arbitrary: D i)
  case (Cons E U)
  then show ?case by (cases i) auto
qed simp

lemma upper_last: "upper kss kl t D U \<Longrightarrow> (D # U) ! length U = [(None, root_node t)] \<and> node_parent t (root_node t) = Some NULL"
  by (induction U arbitrary: D) (auto simp: node_parent_def)

lemma int_ok_children:
  assumes "int_ok kss kl t p"
  obtains n :: node where "internal_at t p = Some n" "nodes t p = Some n" "n_magic n = INTERNAL_NODE_MAGIC" "children n = kids t p"
  using assms by (auto simp: int_ok_def internal_at_def kids_def lchild_def seps_def children_def)

lemma tree_node_level:
  assumes inv: "tree_inv kss kl t D U"
  shows "tree_node t d p \<Longrightarrow> d \<le> length U \<and> p \<in> snd ` set ((D # U) ! (length U - d))"
proof (induction rule: tree_node.induct)
  case root
  then show ?case using upper_last [OF shapeD(1) [OF tree_invD(1) [OF inv]]] by simp
next
  case (child d p n c)
  note up = shapeD(1) [OF tree_invD(1) [OF inv]]
  have "d \<noteq> length U"
  proof
    assume "d = length U"
    then have "leaf_ok kss kl t p" using child.IH tree_invD(3) [OF inv] by auto
    then show False using child.hyps(2) by (auto simp: leaf_ok_def internal_at_def)
  qed
  then obtain j where j: "length U - d = Suc j" "j < length U" "length U - Suc d = j"
    using child.IH by (cases "length U - d") auto
  then obtain e where e: "e \<in> set (U ! j)" "p = snd e" using child.IH by auto
  have "int_ok kss kl t p" using upper_nth [OF up j(2)] e by simp
  then have "children n = kids t p" using child.hyps(2) by (auto elim: int_ok_children)
  then have "c \<in> snd ` set (concat (map (expand t) (U ! j)))" using child.hyps(3) kids_level [OF e(1), of t] e(2) by auto
  then show ?case using upper_nth [OF up j(2)] j child.IH \<open>d \<noteq> length U\<close> by simp
qed

section \<open>Well-formedness from the invariant\<close>

lemma level_nodes_levels:
  assumes up: "upper kss kl t D U"
  shows "d \<le> length U \<Longrightarrow> level_nodes t d = map snd ((D # U) ! (length U - d))"
proof (induction d)
  case 0
  then show ?case using upper_last [OF up] by simp
next
  case (Suc d)
  let ?j = "length U - Suc d"
  have j: "?j < length U" "length U - d = Suc ?j" using Suc.prems by auto
  have "(case internal_at t (snd e) of None \<Rightarrow> [] | Some n \<Rightarrow> children n) = kids t (snd e)" if "e \<in> set (U ! ?j)" for e
  proof -
    have "int_ok kss kl t (snd e)" using upper_nth [OF up j(1)] that by simp
    then show ?thesis by (rule int_ok_children) simp
  qed
  then have "level_nodes t (Suc d) = concat (map (\<lambda>e. kids t (snd e)) (U ! ?j))"
    using Suc j(2) by (simp cong: map_cong)
  moreover have "map snd (concat (map (expand t) (U ! ?j))) = concat (map (\<lambda>e. kids t (snd e)) (U ! ?j))"
    by (simp add: map_concat comp_def)
  ultimately show ?case using upper_nth [OF up j(1)] by simp
qed

lemma chain_nth:
  "chain t prv ps nxt \<Longrightarrow> i < length ps \<Longrightarrow> \<exists>n. nodes t (ps ! i) = Some n \<and> n_prev n = (prv # ps) ! i \<and> n_next n = (ps @ [nxt]) ! Suc i"
proof (induction ps arbitrary: prv i)
  case (Cons p ps)
  then show ?case by (cases i; cases ps) auto
qed simp

lemma chain_linked: "chain t NULL ps NULL \<Longrightarrow> distinct ps \<Longrightarrow> linked t ps"
  unfolding linked_def using chain_nth [of t NULL ps NULL] by (fastforce simp: nth_Cons' nth_append)

lemma tree_inv_wf:
  assumes inv: "tree_inv kss kl t D U"
  shows "tree_wf t (length U)"
proof -
  note up = shapeD(1) [OF tree_invD(1) [OF inv]] and sd = shapeD [OF tree_invD(1) [OF inv]]
  have "\<exists>n. nodes t p = Some n \<and> (if d = length U then leaf_wf n else internal_wf t p n)" if "tree_node t d p" for d p
  proof (cases "d = length U")
    case True
    then have p: "p \<in> snd ` set D" using tree_node_level [OF inv that] by simp
    then have "leaf_ok kss kl t p" using tree_invD(3) [OF inv] by auto
    then obtain n :: node where n: "nodes t p = Some n" "n_magic n = LEAF_NODE_MAGIC" "sa_rep kss kl (keys_with_values n) (ents t p)"
      by (rule leaf_at_ok)
    have "n_key_count n = sa_key_count (keys_with_values n)"
      using tree_invD(7) [OF inv p] sa_repD(5) [OF n(3)] n(1) by (simp add: kcnt_def)
    then have "leaf_wf n" using n(2) by (simp add: leaf_wf_def)
    then show ?thesis using n(1) True by simp
  next
    case False
    note lev = tree_node_level [OF inv that]
    from False obtain j where j: "length U - d = Suc j" "j < length U"
      using lev by (cases "length U - d") auto
    then have p: "p \<in> snd ` set (U ! j)" using lev by simp
    then have pU: "p \<in> ups U" using nth_mem [OF j(2)] by (force simp: ups_def)
    have ok: "int_ok kss kl t p" by (rule upper_int_ok [OF up pU])
    then obtain n :: node where n: "nodes t p = Some n" "n_magic n = INTERNAL_NODE_MAGIC" "children n = kids t p" by (rule int_ok_children)
    have "distinct (kids t p)" by (rule upper_kids_distinct [OF up sd(3) pU])
    moreover have "n_key_count n = sum_list (map (kcnt t) (kids t p))"
      using tree_invD(6) [OF inv pU] n(1) by (simp add: defect_def kidsum_def kcnt_def)
    ultimately have "internal_wf t p n" using ok n by (auto simp: internal_wf_def int_ok_def node_parent_def)
    then show ?thesis using n(1) False by simp
  qed
  moreover have "linked t (level_nodes t (length U))"
    using chain_linked [OF tree_invD(5) [OF inv]] sd(10) level_nodes_levels [OF up order_refl] by simp
  ultimately show ?thesis using tree_node_level [OF inv] upper_last [OF up] by (auto simp: tree_wf_def)
qed

section \<open>Properties\<close>

text \<open>
  C7: after any permitted sequence of \<^verbatim>\<open>put\<close> and \<^verbatim>\<open>del\<close> on a fresh tree, the nodes reached from the root by child pointers are well-formed: all
  leaves are at the same depth and all other nodes are internal nodes; each child points back to its parent; the key count of an
  internal node is the sum of those of its children, and that of a leaf the size of its array; and the sibling pointers link all
  leaves of the tree from left to right and back, with null pointers only at the first and the last one.
\<close>

theorem tree_stays_well_formed:
  assumes "0 < kl" "3 * kl \<le> kss" and "ops_ok kl (2 ^ 31 - 1) ops []"
  shows "\<exists>t t' h. tree_init (tree_new kss) (int kl) = Some t \<and> run_ops tree_put tree_del ops t = Some t' \<and> tree_wf t' h"
proof -
  obtain t t' where t: "tree_init (tree_new kss) (int kl) = Some t" "run_ops tree_put tree_del ops t = Some t'"
    "tree_rep kss kl t' (fold apply_op ops [])"
    by (rule tree_run_rep [OF assms])
  then obtain D U where "tree_inv kss kl t' D U" by (auto simp: tree_rep_def)
  then show ?thesis using t tree_inv_wf by blast
qed

theorem tree_stays_well_formed_witness:
  "\<exists>t t' h. tree_init (tree_new 6) 2 = Some t \<and> run_ops tree_put tree_del sample_ops t = Some t' \<and> tree_wf t' h"
  using tree_stays_well_formed [of 2 6, OF _ _ sample_ops_ok] by simp

end
