(* ===== verification/Tree_Scans.thy ===== *)
theory Tree_Scans
  imports Tree_Wellformed
begin

text \<open>
  What a scan delivers in a tree that has empty leaves: deletions empty a leaf but never unlink it, and \<^verbatim>\<open>move_forward\<close> takes an empty leaf for the
  end of the tree.
\<close>

section \<open>Steps across leaves\<close>

lemma tree_move_forward_inside:
  assumes inv: "tree_inv kss kl t D U" and D: "D = A @ (s, p) # B" and j: "j < length (ents t p)"
  shows "tree_move_forward t \<lparr>current_node = p, key_iter = sa_at kl (int j)\<rparr> =
    Some (NLDB_OK, Some (ents t p ! j), \<lparr>current_node = p, key_iter = sa_at kl (int (Suc j))\<rparr>)"
proof -
  obtain n where n: "leaf_at t p = Some n" "sa_rep kss kl (keys_with_values n) (ents t p)" "p \<noteq> 0" by (rule leaf_of_tree [OF inv D])
  show ?thesis using n(1,3) iter_next_spec(1) [OF n(2) j] by (simp add: tree_move_forward_def add.commute)
qed

lemma tree_move_forward_across:
  assumes inv: "tree_inv kss kl t D U" and D: "D = A @ (s, p) # B"
  shows "\<exists>iter'. tree_move_forward t \<lparr>current_node = p, key_iter = sa_at kl (int (length (ents t p)))\<rparr> =
    (case B of (s', p') # B' \<Rightarrow>
        if ents t p' = [] then Some (NLDB_ERROR_END_OF_ITERATION, None, iter')
        else Some (NLDB_OK, Some (hd (ents t p')), \<lparr>current_node = p', key_iter = sa_at kl (int 1)\<rparr>)
     | [] \<Rightarrow> Some (NLDB_ERROR_END_OF_ITERATION, None, iter'))"
proof -
  obtain n where n: "leaf_at t p = Some n" "sa_rep kss kl (keys_with_values n) (ents t p)" "p \<noteq> 0" "n_next n = hd (map snd B @ [0])"
    by (rule leaf_of_tree [OF inv D])
  note stop = iter_next_spec(2) [OF n(2) order_refl]
  show ?thesis
  proof (cases B)
    case Nil
    then show ?thesis using n(1,3,4) stop by (simp add: tree_move_forward_def)
  next
    case (Cons e B')
    obtain s' p' where e: "e = (s', p')" by (cases e)
    have D': "D = (A @ [(s, p)]) @ (s', p') # B'" using D Cons e by simp
    obtain n' where n': "leaf_at t p' = Some n'" "sa_rep kss kl (keys_with_values n') (ents t p')" "p' \<noteq> 0" by (rule leaf_of_tree [OF inv D'])
    have "iter_next (keys_with_values n') (sa_iter_forward (keys_with_values n')) =
        (if ents t p' = [] then Some (None, sa_at kl 0) else Some (Some (hd (ents t p')), sa_at kl 1))"
      using iter_next_spec [OF n'(2), of 0] sa_iter_order_spec(3) [OF n'(2)] by (simp add: hd_conv_nth)
    then show ?thesis using n(1,3,4) n'(1,3) stop Cons e by (simp add: tree_move_forward_def)
  qed
qed

lemma tree_scan_forward_from:
  assumes inv: "tree_inv kss kl t D U"
  shows "D = A @ (s, p) # B \<Longrightarrow> j \<le> length (ents t p) \<Longrightarrow>
    tree_scan_forward t \<lparr>current_node = p, key_iter = sa_at kl (int j)\<rparr> =
      Some (drop j (ents t p) @ content t (takeWhile (\<lambda>e. ents t (snd e) \<noteq> []) B))"
proof (induction B arbitrary: A s p j)
  case Nil
  from Nil(2) show ?case
  proof (induction j rule: inc_induct)
    case base
    then show ?case using tree_move_forward_across [OF inv Nil(1)] by (subst tree_scan_forward.simps) auto
  next
    case (step j)
    then show ?case using tree_move_forward_inside [OF inv Nil(1) step.hyps(2)]
      by (subst tree_scan_forward.simps) (simp add: Cons_nth_drop_Suc)
  qed
next
  case (Cons e B)
  obtain s' p' where e: "e = (s', p')" by (cases e)
  from Cons.prems(2) show ?case
  proof (induction j rule: inc_induct)
    case base
    obtain iter' where a: "tree_move_forward t \<lparr>current_node = p, key_iter = sa_at kl (int (length (ents t p)))\<rparr> =
        (if ents t p' = [] then Some (NLDB_ERROR_END_OF_ITERATION, None, iter')
         else Some (NLDB_OK, Some (hd (ents t p')), \<lparr>current_node = p', key_iter = sa_at kl (int 1)\<rparr>))"
      using tree_move_forward_across [OF inv Cons.prems(1)] e by auto
    show ?case
    proof (cases "ents t p' = []")
      case True
      then show ?thesis using a e by (subst tree_scan_forward.simps) simp
    next
      case False
      then have "1 \<le> length (ents t p')" "hd (ents t p') # drop 1 (ents t p') = ents t p'" by (cases "ents t p'"; simp)+
      then show ?thesis
        using False a e Cons.IH [of "A @ [(s, p)]" s' p' 1] Cons.prems(1) by (subst tree_scan_forward.simps) (simp flip: append_Cons)
    qed
  next
    case (step j)
    then show ?case using tree_move_forward_inside [OF inv Cons.prems(1) step.hyps(2)]
      by (subst tree_scan_forward.simps) (simp add: Cons_nth_drop_Suc flip: append_Cons)
  qed
qed

section \<open>Leaves\<close>

lemma leaf_level:
  assumes inv: "tree_inv kss kl t D U" and p: "p \<in> set (level_nodes t h)" "leaf_at t p \<noteq> None"
  shows "level_nodes t h = map snd D"
proof -
  note up = shapeD(1) [OF tree_invD(1) [OF inv]]
  have leaf: "internal_at t q = None" if "q \<in> set (map snd D)" for q
  proof -
    have "leaf_ok kss kl t q" using that tree_invD(3) [OF inv] by auto
    then obtain n :: node where "nodes t q = Some n" "n_magic n = LEAF_NODE_MAGIC" unfolding leaf_ok_def by blast
    then show ?thesis by (simp add: internal_at_def)
  qed
  have base: "level_nodes t (length U) = map snd D" using level_nodes_levels [OF up order_refl] by simp
  have beyond: "level_nodes t (Suc (length U) + d) = []" for d using leaf by (induction d) (simp_all add: base)
  have "\<not> length U < h"
  proof
    assume "length U < h"
    then have "Suc (length U) + (h - Suc (length U)) = h" by simp
    then show False using beyond [of "h - Suc (length U)"] p(1) by (simp only:) simp
  qed
  moreover have "\<not> h < length U"
  proof
    assume h: "h < length U"
    let ?j = "length U - Suc h"
    have j: "?j < length U" "length U - h = Suc ?j" using h by auto
    then have "p \<in> snd ` set (U ! ?j)" using p(1) level_nodes_levels [OF up, of h] h by simp
    then have "int_ok kss kl t p" using upper_nth [OF up j(1)] by auto
    then show False using p(2) by (auto elim!: int_ok_children simp: leaf_at_def)
  qed
  ultimately show ?thesis using base by (metis linorder_neqE_nat)
qed

section \<open>Properties\<close>

text \<open>
  C38: a leaf that deletions have emptied ends every scan that reaches it: in a tree whose leaf \<open>p\<close> is empty, a scan from the smallest key delivers the
  pairs of the leaves \<open>ps\<close> left of it and then reports the end, although the pairs of the leaves \<open>qs\<close> right of it are in the tree and are
  found by \<^verbatim>\<open>get\<close>.
\<close>

theorem tree_scan_stops_at_empty_leaf:
  assumes "tree_rep kss kl t xs" "level_nodes t h = ps @ p # qs" "leaf_at t p \<noteq> None" "ents t p = []"
    "ps \<noteq> []" "\<forall>q\<in>set ps. ents t q \<noteq> []" "length k = kl" "\<forall>e\<in>set xs. k \<le> fst e"
  shows "tree_seek_forward t k \<bind> tree_scan_forward t = Some (concat (map (ents t) ps)) \<and>
     xs = concat (map (ents t) ps) @ concat (map (ents t) qs) \<and>
     (\<forall>e\<in>set xs. map_option fst (tree_get t (fst e) True) = Some (snd e))"
proof -
  obtain D U where inv: "tree_inv kss kl t D U" and xs: "xs = content t D" using assms(1) by (auto simp: tree_rep_def)
  have D: "map snd D = ps @ p # qs" using leaf_level [OF inv, of p h] assms(2,3) by simp
  have cont: "content t E = concat (map (ents t) (map snd E))" for E by (simp add: content_def comp_def)
  obtain A s B where AB: "D = A @ (s, p) # B" "map snd A = ps" "map snd B = qs" using D by (auto simp: map_eq_append_conv)
  obtain s0 p0 A' where A: "A = (s0, p0) # A'" using AB(2) assms(5) by (cases A) auto
  have p0: "ents t p0 \<noteq> []" using assms(6) AB(2) A by auto
  obtain A1 s1 p1 B1 where S: "D = A1 @ (s1, p1) # B1" "s1 \<le> Some k" "\<forall>e\<in>set B1. Some k < fst e"
    and f: "\<forall>want. find_leaf_node t k want = Some (p1, if want then int (length (content t A1)) else 0)"
    by (rule find_leaf_node_spec [OF inv assms(7)])
  have "\<forall>e\<in>set (content t A1). fst e < k"
    using serving_content [OF shapeD(2) [OF tree_invD(1) [OF inv]] tree_invD(4) [OF inv] S] by blast
  then have "content t A1 = []" using assms(8) S(1) xs by (cases "content t A1") force+
  then have "A1 = []" using S(1) AB(1) A p0 by (cases A1) (auto simp: content_def)
  then have first: "p1 = p0" "B1 = A' @ (s, p) # B" "D = [] @ (s0, p0) # B1" using S(1) AB(1) A by auto
  obtain n where n: "leaf_at t p0 = Some n" "sa_rep kss kl (keys_with_values n) (ents t p0)" by (rule leaf_of_tree [OF inv first(3)])
  have "rank_lt k (ents t p0) = 0" using assms(8) xs first(3) by (force simp: rank_lt_def filter_empty_conv content_def)
  then have "tree_seek_forward t k = Some \<lparr>current_node = p0, key_iter = sa_at kl (int 0)\<rparr>"
    using f n(1) first(1) sa_iter_forward_key_spec [OF n(2) assms(7)] by (simp add: tree_seek_forward_def)
  moreover have "takeWhile (\<lambda>e. ents t (snd e) \<noteq> []) B1 = A'"
  proof -
    have "\<forall>e\<in>set A'. ents t (snd e) \<noteq> []" using assms(6) AB(2) A by force
    then show ?thesis using assms(4) first(2) by (simp add: takeWhile_append2)
  qed
  ultimately have "tree_seek_forward t k \<bind> tree_scan_forward t = Some (concat (map (ents t) ps))"
    using tree_scan_forward_from [OF inv first(3), of 0] cont [of A] A AB(2) by (simp add: content_def flip: AB(2))
  moreover have "xs = concat (map (ents t) ps) @ concat (map (ents t) qs)" using cont [of D] xs D assms(4) by simp
  moreover have "map_option fst (tree_get t (fst e) True) = Some (snd e)" if "e \<in> set xs" for e
  proof -
    have "length (fst e) = kl" using content_key_length [OF inv] that xs by simp
    moreover have "map_of xs (fst e) = Some (snd e)"
      using that sorted_keys_distinct [OF content_sorted [OF inv]] xs by (metis map_of_is_SomeI prod.collapse)
    ultimately show ?thesis using tree_get_spec [OF assms(1), of "fst e" True] by auto
  qed
  ultimately show ?thesis by blast
qed

theorem tree_scan_stops_at_empty_leaf_witness:
  "\<exists>t. tree_init (tree_new 3) 1 \<bind> run_ops tree_put tree_del (put_keys [1, 2, 3, 4, 5, 6] @ [Del [3], Del [4]]) = Some t \<and>
     tree_seek_forward t [0] \<bind> tree_scan_forward t = Some [([1], 1), ([2], 2)] \<and> map_option fst (tree_get t [5] True) = Some 5"
proof -
  let ?ops = "put_keys [1, 2, 3, 4, 5, 6] @ [Del [3], Del [4]]"
  have ok: "ops_ok 1 (2 ^ 31 - 1) ?ops []" by (simp add: put_keys_def ord_put_def ord_del_def)
  obtain t0 t where t: "tree_init (tree_new 3) 1 = Some t0" "run_ops tree_put tree_del ?ops t0 = Some t" "tree_rep 3 1 t (fold apply_op ?ops [])"
    using tree_run_rep [OF _ _ ok, of 3] by auto
  then have run: "tree_init (tree_new 3) 1 \<bind> run_ops tree_put tree_del ?ops = Some t" by simp
  have xs: "fold apply_op ?ops [] = [([1], 1), ([2], 2), ([5], 5), ([6], 6)]" by (simp add: put_keys_def ord_put_def ord_del_def)
  have "tree_init (tree_new 3) 1 \<bind> run_ops tree_put tree_del ?ops \<bind>
      (\<lambda>t. Some (level_nodes t 1, map (ents t) (level_nodes t 1), map (\<lambda>p. leaf_at t p = None) (level_nodes t 1))) =
     Some ([2, 3, 4], [[([1], 1), ([2], 2)], [], [([5], 5), ([6], 6)]], [False, False, False])" by code_simp
  then have l: "level_nodes t 1 = [2, 3, 4]" "map (ents t) (level_nodes t 1) = [[([1], 1), ([2], 2)], [], [([5], 5), ([6], 6)]]"
      "map (\<lambda>p. leaf_at t p = None) (level_nodes t 1) = [False, False, False]"
    unfolding run bind.bind_lunit by blast+
  then have "level_nodes t 1 = [2] @ 3 # [4]" "ents t 2 = [([1], 1), ([2], 2)]" "ents t 3 = []" "leaf_at t 3 \<noteq> None"
    unfolding l(1) by simp_all
  from tree_scan_stops_at_empty_leaf [OF t(3) this(1,4,3), of "[0]"] this(2) run xs show ?thesis by auto
qed

end
