(* ===== verification/Debuggable_Tree.thy ===== *)
theory Debuggable_Tree
  imports Tree_Properties
begin

text \<open>
  Model of \<^verbatim>\<open>nldb_debuggable_array_tree.h\<close>, the variant of the array tree that builds without \<^verbatim>\<open>NDEBUG\<close> use: its \<^verbatim>\<open>put\<close> and \<^verbatim>\<open>del\<close> call those of
  the array tree (the tracing code between \<^verbatim>\<open>#if defined(PRINT_DEBUG_TRACE)\<close> is not compiled), and \<^verbatim>\<open>check_consistency\<close> walks over the leaves and
  asserts that the keys grow. The functions that print the tree are in the theory \<^verbatim>\<open>Tree_Printing\<close>.
\<close>

definition debuggable_put :: "array_tree \<Rightarrow> byte list \<Rightarrow> ptr \<Rightarrow> array_tree option" where
  "debuggable_put t key value = tree_put t key value"

definition debuggable_del :: "array_tree \<Rightarrow> byte list \<Rightarrow> (ptr \<times> array_tree) option" where
  "debuggable_del t key = tree_del t key"

text \<open>The loop of \<^verbatim>\<open>check_consistency\<close>; \<^verbatim>\<open>move_forward\<close> never sets \<^verbatim>\<open>end_of_iter\<close>.\<close>

partial_function (option) check_consistency_loop :: "array_tree \<Rightarrow> tree_iterator \<Rightarrow> byte list option \<Rightarrow> unit option" where
  "check_consistency_loop t iter prev_k =
     do { (rc, entry, iter') \<leftarrow> tree_move_forward t iter;
          if rc = NLDB_ERROR_END_OF_ITERATION then Some ()
          else if rc \<noteq> NLDB_OK then None
          else do {
            (key, _) \<leftarrow> entry;
            _ \<leftarrow> (case prev_k of None \<Rightarrow> Some ()
                 | Some prev \<Rightarrow> do { cmp \<leftarrow> tree_compare_keys t prev key; if cmp \<ge> 0 then None else Some () });
            check_consistency_loop t iter' (Some key) } }"

declare check_consistency_loop.simps [code]

text \<open>The search starts from the variable \<^verbatim>\<open>min\<close>, which has eight bytes; the tree reads \<^verbatim>\<open>key_length_\<close> bytes from it.\<close>

definition check_consistency :: "array_tree \<Rightarrow> unit option" where
  "check_consistency t =
     do { k \<leftarrow> mem_read (replicate 8 0) 0 (tree_key_length t);
          iter \<leftarrow> tree_seek_forward t k;
          check_consistency_loop t iter None }"

section \<open>Consistency\<close>

lemma tree_move_forward_codes:
  assumes "tree_move_forward t iter = Some (rc, entry, iter')"
  shows "rc = NLDB_ERROR_END_OF_ITERATION \<or> rc = NLDB_OK \<and> entry \<noteq> None"
  using assms by (auto simp: tree_move_forward_def split: if_splits option.splits Option.bind_splits)

text \<open>The check agrees with a scan from the same position, whatever the tree is like.\<close>

lemma check_loop_scan:
  assumes kl: "tree_key_length t = int kl"
  shows "tree_scan_forward t iter = Some es \<Longrightarrow> \<forall>e\<in>set es. length (fst e) = kl \<Longrightarrow> \<forall>k. prev = Some k \<longrightarrow> length k = kl \<Longrightarrow>
     check_consistency_loop t iter prev =
       (if sorted_wrt (<) (case prev of None \<Rightarrow> map fst es | Some k \<Rightarrow> k # map fst es) then Some () else None)"
proof (induction es arbitrary: iter prev)
  case Nil
  obtain rc entry iter' where m: "tree_move_forward t iter = Some (rc, entry, iter')"
    using Nil.prems(1) by (subst (asm) tree_scan_forward.simps) (auto split: Option.bind_splits)
  then have "rc = NLDB_ERROR_END_OF_ITERATION"
    using tree_move_forward_codes [OF m] Nil.prems(1) by (subst (asm) tree_scan_forward.simps) (auto split: Option.bind_splits)
  then show ?case using m by (subst check_consistency_loop.simps) (simp split: option.split)
next
  case (Cons e es)
  obtain iter' where m: "tree_move_forward t iter = Some (NLDB_OK, Some e, iter')" and es: "tree_scan_forward t iter' = Some es"
    using Cons.prems(1) by (subst (asm) tree_scan_forward.simps) (auto split: Option.bind_splits if_splits)
  have rest: "check_consistency_loop t iter' (Some (fst e)) = (if sorted_wrt (<) (fst e # map fst es) then Some () else None)"
    using Cons.IH [OF es, of "Some (fst e)"] Cons.prems(2) by simp
  have test: "(case prev of None \<Rightarrow> Some () | Some p \<Rightarrow> do { cmp \<leftarrow> tree_compare_keys t p (fst e); if cmp \<ge> 0 then None else Some () }) =
      (if \<forall>p. prev = Some p \<longrightarrow> p < fst e then Some () else None)"
  proof (cases prev)
    case (Some p)
    then have len: "length p = kl" "length (fst e) = kl" using Cons.prems(2,3) by auto
    obtain cmp where "tree_compare_keys t p (fst e) = Some cmp" "cmp < 0 \<longleftrightarrow> p < fst e" by (rule tree_compare_keys_iff [OF kl len])
    then show ?thesis using Some by auto
  qed simp
  have "sorted_wrt (<) (case prev of None \<Rightarrow> map fst (e # es) | Some k \<Rightarrow> k # map fst (e # es)) \<longleftrightarrow>
      (\<forall>p. prev = Some p \<longrightarrow> p < fst e) \<and> sorted_wrt (<) (fst e # map fst es)"
    by (cases prev) (auto intro: less_trans)
  then show ?case using m test rest by (subst check_consistency_loop.simps) (simp add: case_prod_beta)
qed

lemma check_consistency_scan:
  assumes "tree_key_length t = int kl" "kl \<le> 8" "tree_seek_forward t (replicate kl 0) \<bind> tree_scan_forward t = Some es"
    "\<forall>e\<in>set es. length (fst e) = kl"
  shows "check_consistency t = (if sorted_wrt (<) (map fst es) then Some () else None)"
proof -
  have "mem_read (replicate 8 0 :: byte list) 0 (int kl) = Some (replicate kl 0)"
    using mem_read_nat [of 0 kl "replicate 8 (0 :: byte)"] assms(2) by (simp add: take_replicate min_def)
  moreover obtain iter where "tree_seek_forward t (replicate kl 0) = Some iter" "tree_scan_forward t iter = Some es"
    using assms(3) by (auto split: Option.bind_splits)
  ultimately show ?thesis using check_loop_scan [OF assms(1) _ assms(4), of iter None] assms(1) by (simp add: check_consistency_def)
qed

section \<open>Properties\<close>

text \<open>
  C22: for keys of up to eight bytes, the consistency check decides whether the scan from the smallest key visits the keys in strictly ascending
  order: when the scan returns, the check returns if the keys ascend and violates its assertion if not, whatever the tree is like; and it
  returns on every represented tree without empty leaves, in particular on every tree that results from puts, with any number of leaves.
\<close>

theorem check_consistency_decides_order:
  assumes "kl \<le> 8" "tree_key_length t = int kl"
  shows "(tree_filled_rep kss kl t xs \<longrightarrow> check_consistency t = Some ()) \<and>
     (\<forall>es. tree_seek_forward t (replicate kl 0) \<bind> tree_scan_forward t = Some es \<and> (\<forall>e\<in>set es. length (fst e) = kl) \<longrightarrow>
        check_consistency t = (if sorted_wrt (<) (map fst es) then Some () else None))"
proof (intro conjI impI allI)
  assume "tree_filled_rep kss kl t xs"
  then obtain D U where inv: "tree_inv kss kl t D U" and fl: "filled t D" by (auto simp: tree_filled_rep_def)
  let ?i = "rank_lt (replicate kl 0) (content t D)"
  obtain iter where "tree_seek_forward t (replicate kl 0) = Some iter" "fwd_at kl t D iter ?i"
    using tree_seek_forward_spec(1) [OF inv, of "replicate kl 0"] by auto
  then have "tree_seek_forward t (replicate kl 0) \<bind> tree_scan_forward t = Some (drop ?i (content t D))"
    using tree_scan_forward_drop [OF inv fl rank_lt_length] by simp
  moreover have "\<forall>e\<in>set (drop ?i (content t D)). length (fst e) = kl" using content_key_length [OF inv] by (meson in_set_dropD)
  moreover have "sorted_wrt (<) (map fst (drop ?i (content t D)))"
    using content_sorted [OF inv] by (simp add: sorted_wrt_map sorted_wrt_drop)
  ultimately show "check_consistency t = Some ()" using check_consistency_scan [OF assms(2,1)] by simp
next
  fix es
  assume "tree_seek_forward t (replicate kl 0) \<bind> tree_scan_forward t = Some es \<and> (\<forall>e\<in>set es. length (fst e) = kl)"
  then show "check_consistency t = (if sorted_wrt (<) (map fst es) then Some () else None)" using check_consistency_scan [OF assms(2,1)] by blast
qed

text \<open>A tree in which two leaves hold the same keys.\<close>

definition broken_tree :: array_tree where
  "broken_tree = scan_tree\<lparr>nodes := (nodes scan_tree)(4 := map_option (\<lambda>n. n\<lparr>n_prev := 2, n_next := 3\<rparr>) (nodes scan_tree 2))\<rparr>"

theorem check_consistency_decides_order_witness:
  "check_consistency scan_tree = Some () \<and> check_consistency broken_tree = None"
proof -
  have kl: "tree_key_length scan_tree = int 1" "tree_key_length broken_tree = int 1" by code_simp+
  have "check_consistency scan_tree = Some ()" using check_consistency_decides_order [OF _ kl(1)] scan_tree_rep by simp
  moreover have "tree_seek_forward broken_tree (replicate 1 0) \<bind> tree_scan_forward broken_tree =
      Some [([1], 1), ([2], 2), ([3], 3), ([1], 1), ([2], 2), ([3], 3), ([6], 6), ([7], 7)]" by code_simp
  then have "check_consistency broken_tree = None" using check_consistency_decides_order [OF _ kl(2)] by force
  ultimately show ?thesis by blast
qed

end
