(* ===== verification/Key_Format.thy ===== *)
theory Key_Format
  imports Nldb_Prelude
begin

text \<open>
  The functions of \<^verbatim>\<open>nldb_internal.h\<close> that decode a key for messages: \<^verbatim>\<open>get_uint64_key\<close> reads a key of 1, 2, 4, 8 or 16 bytes
  as an integer in big-endian order, \<^verbatim>\<open>get_string_key\<close> formats it. The header states why applications encode integer keys in this
  order: comparing keys with \<^verbatim>\<open>memcmp\<close> then compares the integers. This is proved below.
\<close>

section \<open>Formatting\<close>

text \<open>The decimal representation that streams and \<^verbatim>\<open>printf\<close> write.\<close>

fun show_nat :: "nat \<Rightarrow> string" where
  "show_nat n = (if n < 10 then [char_of (48 + n)] else show_nat (n div 10) @ [char_of (48 + n mod 10)])"

declare show_nat.simps [simp del]

text \<open>
  The value of bytes in network order; \<^verbatim>\<open>ntohs\<close>, \<^verbatim>\<open>ntohl\<close> and \<^verbatim>\<open>be64toh\<close> compute it, on a host of either byte order, from the integer read at the
  address of the first byte.
\<close>

definition be_value :: "byte list \<Rightarrow> nat" where
  "be_value bs = foldl (\<lambda>v b. 256 * v + unat b) 0 bs"

definition get_uint64_key :: "byte list \<Rightarrow> int \<Rightarrow> 64 word option" where
  "get_uint64_key key key_length =
     (if key_length = 1 \<or> key_length = 2 \<or> key_length = 4
      then do { b \<leftarrow> mem_read key 0 key_length; Some (of_nat (be_value b)) }
      else if key_length = 8 \<or> key_length = 16
      then do { b \<leftarrow> mem_read key 0 8; Some (of_nat (be_value b)) }
      else Some 0)"

definition get_string_key :: "byte list \<Rightarrow> int \<Rightarrow> string option" where
  "get_string_key key key_length =
     do { int_key \<leftarrow> get_uint64_key key key_length;
          if int_key \<noteq> 0 then Some (show_nat (unat int_key))
          else do { b \<leftarrow> mem_read key 0 key_length; Some (map (\<lambda>x. char_of (unat x)) b) } }"

section \<open>Decimal numbers\<close>

lemma show_nat_digits: "set (show_nat n) \<subseteq> char_of ` {48..<58 :: nat}"
proof (induction n rule: show_nat.induct)
  case (1 n)
  show ?case
  proof (cases "n < 10")
    case False
    then show ?thesis using 1 by (subst show_nat.simps) auto
  qed (subst show_nat.simps, auto)
qed

lemma show_nat_not_Nil: "show_nat n \<noteq> []"
  by (subst show_nat.simps) simp

lemma digit_inj: "m < 10 \<Longrightarrow> n < 10 \<Longrightarrow> (char_of (48 + m) :: char) = char_of (48 + n) \<longleftrightarrow> m = (n :: nat)"
  by (auto simp: char_of_eq_iff take_bit_eq_mod)

lemma show_nat_inj: "show_nat m = show_nat n \<Longrightarrow> m = n"
proof (induction m arbitrary: n rule: show_nat.induct)
  case (1 m)
  show ?case
  proof (cases "m < 10")
    case True
    then show ?thesis using "1.prems" digit_inj [of m n] show_nat_not_Nil [of "n div 10"]
      by (subst (asm) (1 2) show_nat.simps) (auto split: if_splits)
  next
    case False
    then have "\<not> n < 10" "show_nat (m div 10) = show_nat (n div 10)" "char_of (48 + m mod 10) = (char_of (48 + n mod 10) :: char)"
      using "1.prems" show_nat_not_Nil [of "m div 10"] by (subst (asm) (1 2) show_nat.simps, auto split: if_splits)+
    then have "m div 10 = n div 10" "m mod 10 = n mod 10" using "1.IH" [OF False] digit_inj by auto
    then show ?thesis by (metis div_mult_mod_eq)
  qed
qed

lemma length_show_nat: "n < 10 ^ Suc k \<Longrightarrow> length (show_nat n) \<le> Suc k"
proof (induction k arbitrary: n)
  case 0
  then show ?case by (subst show_nat.simps) simp
next
  case (Suc k)
  then have "n div 10 < 10 ^ Suc k" by (simp add: less_mult_imp_div_less)
  from Suc.IH [OF this] show ?case by (subst show_nat.simps) simp
qed

section \<open>Big-endian order\<close>

lemma be_value_snoc [simp]: "be_value [] = 0" "be_value (bs @ [b]) = 256 * be_value bs + unat b"
  by (simp_all add: be_value_def)

lemma be_value_Cons: "be_value (b # bs) = unat b * 256 ^ length bs + be_value bs"
proof (induction bs rule: rev_induct)
  case (snoc x bs)
  then show ?case using be_value_snoc(2) [of "b # bs" x] by (simp add: algebra_simps)
qed (simp add: be_value_def)

lemma be_value_bound: "be_value bs < 256 ^ length bs"
proof (induction bs)
  case (Cons b bs)
  have "unat b < 256" using unsigned_less [of b, where 'a = nat] by simp
  then have "unat b * 256 ^ length bs + 256 ^ length bs \<le> 256 * 256 ^ length bs"
    by (metis Suc_leI add.commute mult_Suc mult_le_mono1)
  with Cons have "unat b * 256 ^ length bs + be_value bs < 256 * 256 ^ length bs" by linarith
  then show ?case by (simp add: be_value_Cons)
qed simp

lemma be_value_less_iff:
  "length bs = length cs \<Longrightarrow> be_value bs < be_value cs \<longleftrightarrow> bs < cs"
proof (induction bs cs rule: list_induct2)
  case (Cons b bs c cs)
  have lt: "be_value (x # xs) < be_value (y # ys)" if "x < y" "length xs = length ys" for x y xs ys
  proof -
    have "unat x * 256 ^ length ys + 256 ^ length ys \<le> unat y * 256 ^ length ys"
      using that(1) by (metis Suc_leI add.commute mult_Suc mult_le_mono1 word_less_nat_alt)
    then show ?thesis using be_value_bound [of xs] that(2) by (simp add: be_value_Cons)
  qed
  consider "b < c" | "c < b" | "b = c" by fastforce
  then show ?case
  proof cases
    case 1
    then show ?thesis using lt [OF 1 Cons.hyps(1)] by simp
  next
    case 2
    then show ?thesis using lt [OF 2 Cons.hyps(1) [symmetric]] by auto
  next
    case 3
    then show ?thesis using Cons by (simp add: be_value_Cons)
  qed
qed simp

lemma get_uint64_key_eval:
  assumes "n \<in> {1, 2, 4, 8}" "length k = n"
  shows "get_uint64_key k (int n) = Some (of_nat (be_value k))" "be_value k < 2 ^ 64"
proof -
  have "mem_read k 0 (int n) = Some k" using mem_read_nat [of 0 n k] assms(2) by simp
  then show "get_uint64_key k (int n) = Some (of_nat (be_value k))" using assms(1) by (auto simp: get_uint64_key_def)
  have "(256 :: nat) ^ n \<le> 256 ^ 8" using assms(1) by (intro power_increasing) auto
  then show "be_value k < 2 ^ 64" using be_value_bound [of k] assms(2) by simp
qed

section \<open>Properties\<close>

text \<open>
  C36: for keys of 1, 2, 4 or 8 bytes the comparison by \<^verbatim>\<open>memcmp\<close> is the comparison of the integers that the keys encode in big-endian order.
\<close>

theorem memcmp_compares_integer_keys:
  assumes "n \<in> {1, 2, 4, 8}" "length k = n" "length m = n"
  shows "\<exists>a b. get_uint64_key k (int n) = Some a \<and> get_uint64_key m (int n) = Some b \<and>
     (memcmp k m n < 0 \<longleftrightarrow> a < b) \<and> (memcmp k m n = 0 \<longleftrightarrow> a = b) \<and> (0 < memcmp k m n \<longleftrightarrow> b < a)"
proof -
  note k = get_uint64_key_eval [OF assms(1,2)] and m = get_uint64_key_eval [OF assms(1,3)]
  have u: "unat (of_nat (be_value k) :: 64 word) = be_value k" "unat (of_nat (be_value m) :: 64 word) = be_value m"
    using k(2) m(2) by (simp_all add: unat_of_nat)
  have l: "length k = length m" using assms by simp
  let ?a = "of_nat (be_value k) :: 64 word" and ?b = "of_nat (be_value m) :: 64 word"
  have "?a < ?b \<longleftrightarrow> k < m" "?b < ?a \<longleftrightarrow> m < k"
    using be_value_less_iff [OF l] be_value_less_iff [OF l [symmetric]] by (simp_all only: word_less_nat_alt u)
  moreover from this have "?a = ?b \<longleftrightarrow> k = m" by (metis neq_iff)
  ultimately show ?thesis using k(1) m(1) by (intro exI [of _ ?a] exI [of _ ?b]) (simp only: memcmp_iffs [OF assms(2,3)] simp_thms)
qed

theorem memcmp_compares_integer_keys_witness:
  "\<exists>a b. get_uint64_key [1, 0] 2 = Some a \<and> get_uint64_key [0, 255] 2 = Some b \<and> b < a"
proof -
  have "0 < memcmp [1, 0] [0, 255] (2 :: nat)" by (simp add: numeral_2_eq_2)
  then show ?thesis using memcmp_compares_integer_keys [of 2 "[1, 0]" "[0, 255]"] by auto
qed

end
