(* ===== verification/Tree_Printing.thy ===== *)
theory Tree_Printing
  imports Debuggable_Tree Key_Format "HOL-Library.Sublist"
begin

text \<open>
  The functions of \<^verbatim>\<open>nldb_debuggable_array_tree.h\<close> that print the tree by a depth-first search and assert, in the variable
  \<^verbatim>\<open>prev_printed_key\<close>, that the keys met on the way grow, those of internal nodes included. The state of the printing functions is
  \<^verbatim>\<open>prev_printed_key\<close>, as the bytes it points to, and the lines printed.
\<close>

section \<open>Model\<close>

abbreviation (input) NLDB_ERROR :: nldb_rc_t where "NLDB_ERROR \<equiv> - 1"
abbreviation (input) INDENT_PER_DEPTH :: int where "INDENT_PER_DEPTH \<equiv> 2"

datatype print_line =
  LeafHeader int ptr int ptr ptr ptr
| InternalHeader int ptr int ptr
| LeftChild int
| KeyLine int string

type_synonym printer = "key option \<times> print_line list"

definition check_prev_key_less_than_or_equal_to_new_key :: "array_tree \<Rightarrow> key \<Rightarrow> key \<Rightarrow> nldb_rc_t option" where
  "check_prev_key_less_than_or_equal_to_new_key t prev new =
     do { cmp \<leftarrow> tree_compare_keys t prev new; Some (if cmp > 0 then NLDB_ERROR else NLDB_OK) }"

definition print_line_of :: "print_line \<Rightarrow> printer \<Rightarrow> printer" where
  "print_line_of l st = (fst st, snd st @ [l])"

text \<open>What both loops do with a key. The string is printed up to its first null character.\<close>

definition print_key :: "array_tree \<Rightarrow> int \<Rightarrow> key \<Rightarrow> printer \<Rightarrow> printer option" where
  "print_key t indent key st =
     do { key_str \<leftarrow> get_string_key key (tree_key_length t);
          let st' = print_line_of (KeyLine indent (takeWhile (\<lambda>c. c \<noteq> CHR 0x00) key_str)) st;
          _ \<leftarrow> (case fst st' of
                  None \<Rightarrow> Some ()
                | Some prev \<Rightarrow> do { rc \<leftarrow> check_prev_key_less_than_or_equal_to_new_key t prev key;
                                  if rc = NLDB_OK then Some () else None });
          Some (Some key, snd st') }"

partial_function (option) print_leaf_loop ::
    "array_tree \<Rightarrow> int \<Rightarrow> sorted_array \<Rightarrow> sa_iterator \<Rightarrow> printer \<Rightarrow> printer option" where
  "print_leaf_loop t indent sa iter st =
     do { (entry, iter') \<leftarrow> iter_next sa iter;
          case entry of
            None \<Rightarrow> Some st
          | Some kv \<Rightarrow> do { st' \<leftarrow> print_key t indent (fst kv) st; print_leaf_loop t indent sa iter' st' } }"

declare print_leaf_loop.simps [code]

definition print_leaf_node :: "array_tree \<Rightarrow> int \<Rightarrow> ptr \<Rightarrow> printer \<Rightarrow> printer option" where
  "print_leaf_node t indent node st =
     do { n \<leftarrow> leaf_at t node;
          print_leaf_loop t indent (keys_with_values n) (sa_iter_forward (keys_with_values n))
            (print_line_of (LeafHeader indent node (n_key_count n) (n_parent n) (n_prev n) (n_next n)) st) }"

text \<open>
  \<^verbatim>\<open>print_node\<close> and \<^verbatim>\<open>print_internal_node\<close> call each other. They are one function here, whose argument says which of them is
  called, or that the loop of \<^verbatim>\<open>print_internal_node\<close> continues at an iterator.
\<close>

datatype print_call =
  PrintNode int ptr
| PrintInternalNode int ptr
| PrintChildren int sorted_array sa_iterator

partial_function (option) print_nodes :: "array_tree \<Rightarrow> print_call \<Rightarrow> printer \<Rightarrow> printer option" where
  "print_nodes t call st =
     (case call of
        PrintNode indent node \<Rightarrow>
          do { n \<leftarrow> nodes t node;
               if n_magic n = INTERNAL_NODE_MAGIC
               then print_nodes t (PrintInternalNode (indent + INDENT_PER_DEPTH) node) st
               else if n_magic n = LEAF_NODE_MAGIC then print_leaf_node t (indent + INDENT_PER_DEPTH) node st
               else Some st }
      | PrintInternalNode indent node \<Rightarrow>
          do { n \<leftarrow> internal_at t node;
               let sa = keys_with_right_children n;
               let st1 = print_line_of (LeftChild indent)
                     (print_line_of (InternalHeader indent node (n_key_count n) (n_parent n)) st);
               st2 \<leftarrow> print_nodes t (PrintNode (indent + INDENT_PER_DEPTH) (n_left_child n)) st1;
               print_nodes t (PrintChildren indent sa (sa_iter_forward sa)) st2 }
      | PrintChildren indent sa iter \<Rightarrow>
          do { (entry, iter') \<leftarrow> iter_next sa iter;
               case entry of
                 None \<Rightarrow> Some st
               | Some kc \<Rightarrow>
                   do { st1 \<leftarrow> print_key t indent (fst kc) st;
                        st2 \<leftarrow> print_nodes t (PrintNode (indent + INDENT_PER_DEPTH) (snd kc)) st1;
                        print_nodes t (PrintChildren indent sa iter') st2 } })"

declare print_nodes.simps [code]

definition print_tree :: "array_tree \<Rightarrow> print_line list option" where
  "print_tree t = map_option snd (print_nodes t (PrintInternalNode 0 (root_node t)) (None, []))"

section \<open>What a printing function does\<close>

fun key_lines :: "print_line list \<Rightarrow> string list" where
  "key_lines [] = []"
| "key_lines (KeyLine indent s # ls) = s # key_lines ls"
| "key_lines (_ # ls) = key_lines ls"

definition key_text :: "nat \<Rightarrow> key \<Rightarrow> string" where
  "key_text kl k = takeWhile (\<lambda>c. c \<noteq> CHR 0x00) (the (get_string_key k (int kl)))"

abbreviation opt_list :: "'a option \<Rightarrow> 'a list" where
  "opt_list \<equiv> case_option [] (\<lambda>x. [x])"

text \<open>The keys to print continue an ascending sequence.\<close>

definition ready :: "nat \<Rightarrow> printer \<Rightarrow> key list \<Rightarrow> bool" where
  "ready kl st ks \<longleftrightarrow> sorted (opt_list (fst st) @ ks) \<and> (\<forall>k\<in>set (opt_list (fst st) @ ks). length k = kl)"

definition printed :: "nat \<Rightarrow> printer \<Rightarrow> key list \<Rightarrow> printer \<Rightarrow> bool" where
  "printed kl st ks st' \<longleftrightarrow>
     (\<exists>ls. snd st' = snd st @ ls \<and> key_lines ls = map (key_text kl) ks) \<and>
     fst st' = (if ks = [] then fst st else Some (last ks))"

definition prints :: "nat \<Rightarrow> (printer \<Rightarrow> printer option) \<Rightarrow> key list \<Rightarrow> bool" where
  "prints kl f ks \<longleftrightarrow> (\<forall>st. ready kl st ks \<longrightarrow> (\<exists>st'. f st = Some st' \<and> printed kl st ks st'))"

lemma key_lines_append [simp]: "key_lines (ls @ ls') = key_lines ls @ key_lines ls'"
  by (induction ls rule: key_lines.induct) auto

lemma ready_append:
  assumes "ready kl st (ks @ ks')"
  shows "ready kl st ks" and "printed kl st ks st' \<Longrightarrow> ready kl st' ks'"
  using assms by (auto simp: ready_def printed_def sorted_append split: option.splits if_splits)

lemma printed_trans: "printed kl st ks st1 \<Longrightarrow> printed kl st1 ks' st2 \<Longrightarrow> printed kl st (ks @ ks') st2"
  by (auto simp: printed_def)

lemma prints_bind: "prints kl f ks \<Longrightarrow> prints kl g ks' \<Longrightarrow> prints kl (\<lambda>st. f st \<bind> g) (ks @ ks')"
  unfolding prints_def by (metis Option.bind.bind_lunit ready_append printed_trans)

lemma prints_Some [simp]: "prints kl Some []"
  by (simp add: prints_def printed_def)

lemma prints_line:
  assumes "prints kl f ks" "key_lines [l] = []"
  shows "prints kl (\<lambda>st. f (print_line_of l st)) ks"
  unfolding prints_def
proof (intro allI impI)
  fix st :: printer assume st: "ready kl st ks"
  have p: "printed kl st [] (print_line_of l st)" using assms(2) by (simp add: printed_def print_line_of_def)
  with st have "ready kl (print_line_of l st) ks" using ready_append(2) [of kl st "[]" ks] by simp
  with assms(1) obtain st' where "f (print_line_of l st) = Some st'" "printed kl (print_line_of l st) ks st'"
    unfolding prints_def by blast
  then show "\<exists>st'. f (print_line_of l st) = Some st' \<and> printed kl st ks st'" using printed_trans [OF p] by auto
qed

lemma get_string_key_total:
  assumes "length k = kl"
  shows "\<exists>s. get_string_key k (int kl) = Some s"
proof -
  have "mem_read k 0 (int kl) = Some k" using mem_read_nat [of 0 kl k] assms by simp
  moreover have "kl = 8 \<or> kl = 16 \<Longrightarrow> mem_read k 0 8 = Some (take 8 k)"
    using mem_read_nat [of 0 8 k] assms by auto
  ultimately show ?thesis by (auto simp: get_string_key_def get_uint64_key_def)
qed

lemma prints_key:
  assumes "tree_key_length t = int kl"
  shows "prints kl (print_key t indent k) [k]"
  unfolding prints_def
proof (intro allI impI)
  fix st :: printer assume st: "ready kl st [k]"
  then have k: "length k = kl" by (simp add: ready_def)
  obtain s where s: "get_string_key k (int kl) = Some s" using get_string_key_total [OF k] by blast
  have "(case fst st of None \<Rightarrow> Some () | Some p \<Rightarrow>
      do { rc \<leftarrow> check_prev_key_less_than_or_equal_to_new_key t p k; if rc = NLDB_OK then Some () else None }) = Some ()"
  proof (cases "fst st")
    case (Some p)
    then have p: "length p = kl" "p \<le> k" using st by (auto simp: ready_def)
    obtain cmp where "tree_compare_keys t p k = Some cmp" "cmp < 0 \<longleftrightarrow> p < k" "cmp = 0 \<longleftrightarrow> p = k"
      by (rule tree_compare_keys_iff [OF assms p(1) k])
    then have "check_prev_key_less_than_or_equal_to_new_key t p k = Some NLDB_OK"
      using p(2) by (auto simp: check_prev_key_less_than_or_equal_to_new_key_def)
    then show ?thesis using Some by simp
  qed simp
  then have "print_key t indent k st = Some (Some k, snd st @ [KeyLine indent (key_text kl k)])"
    by (simp add: print_key_def print_line_of_def assms s key_text_def)
  then show "\<exists>st'. print_key t indent k st = Some st' \<and> printed kl st [k] st'" by (simp add: printed_def)
qed

section \<open>Leaves\<close>

lemma print_leaf_loop_prints:
  assumes kl: "tree_key_length t = int kl" and rep: "sa_rep kss kl sa xs" and "i \<le> length xs"
  shows "prints kl (print_leaf_loop t indent sa (sa_at kl (int i))) (map fst (drop i xs))"
  using assms(3)
proof (induction i rule: inc_induct)
  case base
  have "print_leaf_loop t indent sa (sa_at kl (int (length xs))) = Some"
    using iter_next_spec(2) [OF rep, of "length xs"] by (intro ext) (subst print_leaf_loop.simps, simp)
  then show ?case by simp
next
  case (step i)
  have "print_leaf_loop t indent sa (sa_at kl (int i)) =
      (\<lambda>st. print_key t indent (fst (xs ! i)) st \<bind> print_leaf_loop t indent sa (sa_at kl (int (Suc i))))"
    using iter_next_spec(1) [OF rep step.hyps(2)] by (intro ext) (subst print_leaf_loop.simps, simp add: add.commute)
  then show ?case
    using prints_bind [OF prints_key [OF kl] step.IH] step.hyps(2) by (simp flip: Cons_nth_drop_Suc)
qed

lemma print_leaf_node_prints:
  assumes "tree_key_length t = int kl" "leaf_ok kss kl t p"
  shows "prints kl (print_leaf_node t indent p) (map fst (ents t p))"
proof -
  obtain n where n: "leaf_at t p = Some n" "sa_rep kss kl (keys_with_values n) (ents t p)"
    using assms(2) by (rule leaf_at_ok)
  have "print_leaf_node t indent p = (\<lambda>st. print_leaf_loop t indent (keys_with_values n) (sa_at kl (int 0))
      (print_line_of (LeafHeader indent p (n_key_count n) (n_parent n) (n_prev n) (n_next n)) st))"
    by (intro ext) (simp add: print_leaf_node_def n(1) sa_iter_order_spec(3) [OF n(2)])
  then show ?thesis
    using prints_line [OF print_leaf_loop_prints [OF assms(1) n(2), of 0]] by simp
qed

section \<open>Internal nodes\<close>

text \<open>The keys met by the depth-first search from a node of height \<open>h\<close>, and the nodes it relies on.\<close>

fun walk :: "array_tree \<Rightarrow> nat \<Rightarrow> ptr \<Rightarrow> key list" where
  "walk t 0 p = map fst (ents t p)"
| "walk t (Suc h) p = walk t h (lchild t p) @ concat (map (\<lambda>e. fst e # walk t h (snd e)) (seps t p))"

fun node_ok :: "nat \<Rightarrow> nat \<Rightarrow> array_tree \<Rightarrow> nat \<Rightarrow> ptr \<Rightarrow> bool" where
  "node_ok kss kl t 0 p \<longleftrightarrow> leaf_ok kss kl t p"
| "node_ok kss kl t (Suc h) p \<longleftrightarrow> int_ok kss kl t p \<and> (\<forall>c\<in>set (kids t p). node_ok kss kl t h c)"

lemma int_okE:
  assumes "int_ok kss kl t q"
  obtains n :: node where "nodes t q = Some n" "internal_at t q = Some n" "n_magic n = INTERNAL_NODE_MAGIC"
    "sa_rep kss kl (keys_with_right_children n) (seps t q)" "lchild t q = n_left_child n"
  using assms by (auto simp: int_ok_def internal_at_def lchild_def)

lemma walk_lengths: "node_ok kss kl t h p \<Longrightarrow> k \<in> set (walk t h p) \<Longrightarrow> length k = kl"
proof (induction h arbitrary: p)
  case 0
  then obtain n :: node where "sa_rep kss kl (keys_with_values n) (ents t p)" by (auto elim: leaf_at_ok)
  then show ?case using sa_repD(8) 0 by fastforce
next
  case (Suc h)
  then have "int_ok kss kl t p" by simp
  then obtain n :: node where "sa_rep kss kl (keys_with_right_children n) (seps t p)" by (rule int_okE)
  then have "\<forall>e\<in>set (seps t p). length (fst e) = kl" using sa_repD(8) by fastforce
  then show ?case using Suc by (auto simp: kids_def)
qed

lemma print_children_prints:
  assumes kl: "tree_key_length t = int kl" and rep: "sa_rep kss kl sa es" and "i \<le> length es"
    and sub: "\<And>e ind. e \<in> set es \<Longrightarrow> prints kl (print_nodes t (PrintNode ind (snd e))) (w (snd e))"
  shows "prints kl (print_nodes t (PrintChildren indent sa (sa_at kl (int i)))) (concat (map (\<lambda>e. fst e # w (snd e)) (drop i es)))"
  using assms(3)
proof (induction i rule: inc_induct)
  case base
  have "print_nodes t (PrintChildren indent sa (sa_at kl (int (length es)))) = Some"
    using iter_next_spec(2) [OF rep, of "length es"] by (intro ext) (subst print_nodes.simps, simp)
  then show ?case by simp
next
  case (step i)
  let ?e = "es ! i"
  have "print_nodes t (PrintChildren indent sa (sa_at kl (int i))) =
      (\<lambda>st. print_key t indent (fst ?e) st \<bind> (\<lambda>st. print_nodes t (PrintNode (indent + INDENT_PER_DEPTH) (snd ?e)) st \<bind>
         print_nodes t (PrintChildren indent sa (sa_at kl (int (Suc i))))))"
    using iter_next_spec(1) [OF rep step.hyps(2)] by (intro ext) (subst print_nodes.simps, simp add: add.commute)
  then show ?case
    using prints_bind [OF prints_key [OF kl] prints_bind [OF sub [OF nth_mem [OF step.hyps(2)]] step.IH]] step.hyps(2)
    by (simp flip: Cons_nth_drop_Suc)
qed

lemma print_internal_node_prints:
  assumes kl: "tree_key_length t = int kl" and ok: "int_ok kss kl t p"
    and sub: "\<And>c ind. c \<in> set (kids t p) \<Longrightarrow> prints kl (print_nodes t (PrintNode ind c)) (walk t h c)"
  shows "prints kl (print_nodes t (PrintInternalNode indent p)) (walk t (Suc h) p)"
proof -
  obtain n :: node where n: "internal_at t p = Some n" "sa_rep kss kl (keys_with_right_children n) (seps t p)" "lchild t p = n_left_child n"
    using ok by (rule int_okE)
  let ?sa = "keys_with_right_children n"
  have "print_nodes t (PrintInternalNode indent p) =
      (\<lambda>st. (\<lambda>st. print_nodes t (PrintNode (indent + INDENT_PER_DEPTH) (n_left_child n)) st \<bind>
         print_nodes t (PrintChildren indent ?sa (sa_at kl (int 0))))
         (print_line_of (LeftChild indent) (print_line_of (InternalHeader indent p (n_key_count n) (n_parent n)) st)))"
    by (intro ext) (subst print_nodes.simps, simp add: n(1) sa_iter_order_spec(3) [OF n(2)] Let_def)
  moreover have "prints kl (print_nodes t (PrintNode (indent + INDENT_PER_DEPTH) (n_left_child n))) (walk t h (lchild t p))"
    using sub [of "lchild t p"] n(3) by (simp add: kids_def)
  moreover have "prints kl (print_nodes t (PrintChildren indent ?sa (sa_at kl (int 0)))) (concat (map (\<lambda>e. fst e # walk t h (snd e)) (seps t p)))"
    using print_children_prints [OF kl n(2), of 0 "walk t h" indent] sub by (simp add: kids_def)
  ultimately show ?thesis
    unfolding walk.simps by (simp only:) (intro prints_line prints_bind, simp_all)
qed

lemma print_node_prints:
  assumes kl: "tree_key_length t = int kl"
  shows "node_ok kss kl t h p \<Longrightarrow> prints kl (print_nodes t (PrintNode indent p)) (walk t h p)"
proof (induction h arbitrary: p indent)
  case 0
  then have l: "leaf_ok kss kl t p" by simp
  then obtain n :: node where "nodes t p = Some n" "n_magic n = LEAF_NODE_MAGIC" by (rule leaf_at_ok)
  then have "print_nodes t (PrintNode indent p) = print_leaf_node t (indent + INDENT_PER_DEPTH) p"
    by (intro ext) (subst print_nodes.simps, simp)
  then show ?case using print_leaf_node_prints [OF kl l] by simp
next
  case (Suc h)
  then have ok: "int_ok kss kl t p" by simp
  then obtain n :: node where "nodes t p = Some n" "n_magic n = INTERNAL_NODE_MAGIC" by (rule int_okE)
  then have "print_nodes t (PrintNode indent p) = print_nodes t (PrintInternalNode (indent + INDENT_PER_DEPTH) p)"
    by (intro ext) (subst (1) print_nodes.simps, simp)
  moreover have "prints kl (print_nodes t (PrintInternalNode ind p)) (walk t (Suc h) p)" for ind
    by (rule print_internal_node_prints [OF kl ok]) (use Suc in auto)
  ultimately show ?case by simp
qed

section \<open>The whole tree\<close>

definition keys_from :: "array_tree \<Rightarrow> nat \<Rightarrow> key option \<times> ptr \<Rightarrow> key list" where
  "keys_from t h e = opt_list (fst e) @ walk t h (snd e)"

lemma keys_from_expand: "concat (map (keys_from t h) (expand t e)) = keys_from t (Suc h) e"
  by (simp add: keys_from_def expand_def lift_sep_def comp_def)

lemma keys_from_levels:
  "upper kss kl t D U \<Longrightarrow> concat (map (keys_from t h) D) = walk t (h + length U) (root_node t)"
proof (induction U arbitrary: D h)
  case (Cons E U)
  then have D: "D = concat (map (expand t) E)" and up: "upper kss kl t E U" by simp_all
  have "concat (map (keys_from t h) D) = concat (map (keys_from t (Suc h)) E)"
    unfolding D by (induction E) (simp_all add: keys_from_expand)
  then show ?case using Cons.IH [OF up, of "Suc h"] by simp
qed (simp add: keys_from_def)

lemma node_ok_levels:
  "upper kss kl t D U \<Longrightarrow> \<forall>e\<in>set D. node_ok kss kl t h (snd e) \<Longrightarrow> node_ok kss kl t (h + length U) (root_node t)"
proof (induction U arbitrary: D h)
  case (Cons E U)
  then have D: "D = concat (map (expand t) E)" and up: "upper kss kl t E U" and ok: "\<forall>e\<in>set E. int_ok kss kl t (snd e)" by simp_all
  have "\<forall>e\<in>set E. node_ok kss kl t (Suc h) (snd e)"
    using ok Cons.prems(2) kids_level [of _ E t] unfolding D by fastforce
  then show ?case using Cons.IH [OF up, of "Suc h"] by simp
qed simp

lemma keys_from_bounds:
  assumes "ranged t D" "e \<in> set D" "x \<in> set (keys_from t 0 e)"
  shows "fst e \<le> Some x" "e' \<in> set D \<Longrightarrow> fst e < fst e' \<Longrightarrow> Some x < fst e'"
proof -
  consider "fst e = Some x" | y where "y \<in> set (ents t (snd e))" "x = fst y"
    using assms(3) by (auto simp: keys_from_def split: option.splits)
  then show "fst e \<le> Some x" "e' \<in> set D \<Longrightarrow> fst e < fst e' \<Longrightarrow> Some x < fst e'"
    using rangedD [OF assms(1,2)] by (cases; simp)+
qed

lemma keys_from_sorted:
  assumes inv: "tree_inv kss kl t D U"
  shows "sorted (concat (map (keys_from t 0) D))"
proof -
  have "sorted (concat (map (keys_from t 0) D'))" if "D = A @ D'" for A D'
    using that
  proof (induction D' arbitrary: A)
    case (Cons e D')
    have "sorted_keys (ents t (snd e))" using tree_invD(3) [OF inv, of e] Cons.prems sa_repD(11) by (auto simp: leaf_ok_def)
    then have s: "sorted (map fst (ents t (snd e)))"
      by (simp add: sorted_wrt_map sorted_wrt_iff_nth_less less_imp_le)
    have "sorted (keys_from t 0 e)"
    proof (cases "fst e")
      case (Some m)
      have "\<forall>x\<in>set (ents t (snd e)). fst e \<le> Some (fst x)" using rangedD(1) [OF tree_invD(4) [OF inv], of e] Cons.prems by simp
      then show ?thesis using s Some by (simp add: keys_from_def)
    qed (use s in \<open>simp add: keys_from_def\<close>)
    moreover have "x \<le> y" if x: "x \<in> set (keys_from t 0 e)" and y: "y \<in> set (concat (map (keys_from t 0) D'))" for x y
    proof -
      obtain e' where e': "e' \<in> set D'" "y \<in> set (keys_from t 0 e')" using y by auto
      have "fst e < fst e'" using shapeD(2) [OF tree_invD(1) [OF inv]] Cons.prems e'(1) by (auto simp: sorted_wrt_append)
      then have "Some x < fst e'" using keys_from_bounds(2) [OF tree_invD(4) [OF inv] _ x] e'(1) Cons.prems by simp
      moreover have "fst e' \<le> Some y" using keys_from_bounds(1) [OF tree_invD(4) [OF inv] _ e'(2)] e'(1) Cons.prems by simp
      ultimately have "Some x < Some y" by (rule less_le_trans)
      then show ?thesis by simp
    qed
    ultimately show ?case using Cons.IH [of "A @ [e]"] Cons.prems by (auto simp: sorted_append)
  qed simp
  then show ?thesis by force
qed

lemma keys_from_content: "subseq (map fst (content t D)) (concat (map (keys_from t 0) D))"
proof (induction D)
  case (Cons e D)
  have "subseq (map fst (ents t (snd e))) (keys_from t 0 e)" by (auto simp: keys_from_def intro: list_emb_Cons split: option.splits)
  with Cons show ?case by (simp add: list_emb_append_mono)
qed simp

section \<open>Properties\<close>

text \<open>
  C23: printing: the depth-first search of \<^verbatim>\<open>print_tree\<close> ends without violating its assertion on every well-formed tree, also after deletions; the
  keys that it prints ascend, and they include all stored keys in order, each formatted by \<^verbatim>\<open>get_string_key\<close>.
\<close>

theorem print_tree_succeeds:
  assumes "tree_rep kss kl t xs"
  shows "\<exists>ls ks. print_tree t = Some ls \<and> key_lines ls = map (key_text kl) ks \<and> sorted ks \<and> subseq (map fst xs) ks"
proof -
  obtain D U where inv: "tree_inv kss kl t D U" and xs: "xs = content t D" using assms by (auto simp: tree_rep_def)
  note sh = shapeD [OF tree_invD(1) [OF inv]]
  let ?r = "root_node t" and ?ks = "concat (map (keys_from t 0) D)"
  obtain h where h: "length U = Suc h" using tree_invD(2) [OF inv] by (cases U) auto
  have ok: "node_ok kss kl t (Suc h) ?r" using node_ok_levels [OF sh(1), of 0] tree_invD(3) [OF inv] by (simp add: h)
  have ks: "?ks = walk t (Suc h) ?r" using keys_from_levels [OF sh(1), of 0] by (simp add: h)
  have "prints kl (print_nodes t (PrintInternalNode 0 ?r)) ?ks"
    unfolding ks by (rule print_internal_node_prints [OF sh(5)]) (use ok print_node_prints [OF sh(5)] in auto)
  moreover have "ready kl (None, []) ?ks"
    using keys_from_sorted [OF inv] walk_lengths [OF ok] by (simp add: ready_def ks)
  ultimately obtain st where "print_nodes t (PrintInternalNode 0 ?r) (None, []) = Some st" "printed kl (None, []) ?ks st"
    unfolding prints_def by blast
  then show ?thesis using keys_from_sorted [OF inv] keys_from_content [of t D] xs by (auto simp: print_tree_def printed_def)
qed

theorem print_tree_succeeds_witness:
  "\<exists>ls ks. print_tree sample_tree = Some ls \<and> key_lines ls = map (key_text 2) ks \<and> sorted ks \<and> subseq (map fst sample_content) ks"
  by (rule print_tree_succeeds [OF sample_tree_rep])

end
