(* ===== verification/Plugin_Interface.thy ===== *)
theory Plugin_Interface
  imports Nldb_Prelude
begin

text \<open>
  The types that the database layer and its table plugins exchange (\<^verbatim>\<open>nldb_common.h\<close>, \<^verbatim>\<open>nldb_plugin.h\<close>), the
  in-memory representation of fixed-width integers, and the contract of a table plugin: what
  \<^verbatim>\<open>table_put\<close>, \<^verbatim>\<open>table_get\<close> and \<^verbatim>\<open>table_del\<close> do to the sorted list of key and value byte strings that a table stands for.

  Integers are stored little-endian with the sizes of the LP64 ABI: \<^verbatim>\<open>int\<close> and an enum have 4 bytes, \<^verbatim>\<open>size_t\<close>, \<^verbatim>\<open>long long\<close> and
  pointers have 8, \<^verbatim>\<open>unsigned short\<close> has 2.
\<close>

section \<open>Return codes of the database layer\<close>

abbreviation (input) NLDB_ERROR :: nldb_rc_t where "NLDB_ERROR \<equiv> - 1"
abbreviation (input) NLDB_ERROR_INVALID_ARGUMENT :: nldb_rc_t where "NLDB_ERROR_INVALID_ARGUMENT \<equiv> - 2"
abbreviation (input) NLDB_ERROR_DB_ALREADY_EXISTS :: nldb_rc_t where "NLDB_ERROR_DB_ALREADY_EXISTS \<equiv> - 3"
abbreviation (input) NLDB_ERROR_DB_NOT_FOUND :: nldb_rc_t where "NLDB_ERROR_DB_NOT_FOUND \<equiv> - 4"
abbreviation (input) NLDB_ERROR_TX_NOT_ENDED :: nldb_rc_t where "NLDB_ERROR_TX_NOT_ENDED \<equiv> - 9"
abbreviation (input) NLDB_ERROR_TX_ALREADY_INITIALIZED :: nldb_rc_t where "NLDB_ERROR_TX_ALREADY_INITIALIZED \<equiv> - 14"
abbreviation (input) NLDB_ERROR_TX_ALREADY_DESTROYED :: nldb_rc_t where "NLDB_ERROR_TX_ALREADY_DESTROYED \<equiv> - 15"
abbreviation (input) NLDB_ERROR_PLUGIN_NO_MORE_SLOT :: nldb_rc_t where "NLDB_ERROR_PLUGIN_NO_MORE_SLOT \<equiv> - 16"

section \<open>Keys, values and cursor directions\<close>

text \<open>The pointer \<^verbatim>\<open>data\<close> is represented by the bytes it points to.\<close>

record nldb_key_t =
  key_data :: "byte list"
  key_len :: "16 word"

record nldb_value_t =
  value_data :: "byte list"
  value_len :: "16 word"

type_synonym nldb_cursor_direction_t = int

abbreviation (input) NLDB_CURSOR_FORWARD :: nldb_cursor_direction_t where "NLDB_CURSOR_FORWARD \<equiv> 1"
abbreviation (input) NLDB_CURSOR_BACKWARD :: nldb_cursor_direction_t where "NLDB_CURSOR_BACKWARD \<equiv> 2"

text \<open>A key and a value that describe exactly the given bytes.\<close>

definition the_key :: "byte list \<Rightarrow> nldb_key_t" where
  "the_key k = \<lparr>key_data = k, key_len = of_nat (length k)\<rparr>"

definition the_value :: "byte list \<Rightarrow> nldb_value_t" where
  "the_value v = \<lparr>value_data = v, value_len = of_nat (length v)\<rparr>"

lemma the_key_simps [simp]: "key_data (the_key k) = k" "key_len (the_key k) = of_nat (length k)"
  by (simp_all add: the_key_def)

lemma the_value_simps [simp]: "value_data (the_value v) = v" "value_len (the_value v) = of_nat (length v)"
  by (simp_all add: the_value_def)

text \<open>A key or value whose pointer leads to the given bytes, possibly with more memory behind them.\<close>

definition describes_key :: "nldb_key_t \<Rightarrow> byte list \<Rightarrow> bool" where
  "describes_key key k \<longleftrightarrow> key_len key = of_nat (length k) \<and> length k < 2 ^ 16 \<and> (\<exists>rest. key_data key = k @ rest)"

definition describes_value :: "nldb_value_t \<Rightarrow> byte list \<Rightarrow> bool" where
  "describes_value value v \<longleftrightarrow> value_len value = of_nat (length v) \<and> length v < 2 ^ 16 \<and> (\<exists>rest. value_data value = v @ rest)"

lemma describes_the_key: "length k < 2 ^ 16 \<Longrightarrow> describes_key (the_key k) k"
  by (simp add: describes_key_def)

lemma describes_the_value: "length v < 2 ^ 16 \<Longrightarrow> describes_value (the_value v) v"
  by (simp add: describes_value_def)

lemma described_length:
  shows "describes_key key k \<Longrightarrow> unat (key_len key) = length k"
    and "describes_value value v \<Longrightarrow> unat (value_len value) = length v"
  by (simp_all add: describes_key_def describes_value_def unat_of_nat take_bit_eq_mod)

lemma described_bytes:
  shows "describes_key key k \<Longrightarrow> mem_read (key_data key) 0 (int (length k)) = Some k"
    and "describes_value value v \<Longrightarrow> mem_read (value_data value) 0 (int (length v)) = Some v"
  using mem_read_append [of 0 "[]" "int (length k)" k] mem_read_append [of 0 "[]" "int (length v)" v]
  by (auto simp: describes_key_def describes_value_def)

lemma described_read:
  shows "describes_key key k \<Longrightarrow> mem_read (key_data key) 0 (int (unat (key_len key))) = Some k"
    and "describes_value value v \<Longrightarrow> mem_read (value_data value) 0 (int (unat (value_len value))) = Some v"
  by (simp_all add: described_length described_bytes del: of_nat_unat)

text \<open>The table descriptor that a plugin fills in and the meta table stores.\<close>

record nldb_plugin_table_desc_t =
  desc_length :: "32 word"
  table_desc :: "byte list"

section \<open>Integers in memory\<close>

primrec le_bytes :: "nat \<Rightarrow> nat \<Rightarrow> byte list" where
  "le_bytes 0 x = []"
| "le_bytes (Suc n) x = of_nat x # le_bytes n (x div 256)"

primrec le_value :: "byte list \<Rightarrow> nat" where
  "le_value [] = 0"
| "le_value (b # bs) = unat b + 256 * le_value bs"

lemma length_le_bytes [simp]: "length (le_bytes n x) = n"
  by (induction n arbitrary: x) simp_all

lemma le_value_le_bytes: "le_value (le_bytes n x) = x mod 256 ^ n"
proof (induction n arbitrary: x)
  case (Suc n)
  have "x mod 256 ^ Suc n = 256 * (x div 256 mod 256 ^ n) + x mod 256" by (simp add: mod_mult2_eq)
  then show ?case by (simp add: Suc unat_of_nat take_bit_eq_mod)
qed simp

lemma byte_bound: "unat (b :: byte) < 256"
  using unsigned_less [where 'a = nat, of b] by simp

lemma le_value_bound: "le_value bs < 256 ^ length bs"
proof (induction bs)
  case (Cons b bs)
  then show ?case using byte_bound [of b] by simp
qed simp

lemma le_bytes_le_value: "le_bytes (length bs) (le_value bs) = bs"
proof (induction bs)
  case (Cons b bs)
  have "(of_nat (unat b + 256 * le_value bs) :: byte) = b"
  proof -
    have "(of_nat (256 * le_value bs) :: byte) = 0" by (subst word_of_nat_eq_0_iff) simp
    then show ?thesis by (simp add: of_nat_add del: of_nat_mult)
  qed
  then show ?case using Cons byte_bound [of b] by simp
qed simp

end
