(* ===== verification/Plugin_Array_Tree.thy ===== *)
theory Plugin_Array_Tree
  imports Array_Tree Plugin_Interface
begin

text \<open>
  Model of \<^verbatim>\<open>nldb_plugin_array_tree.cpp\<close> and \<^verbatim>\<open>nldb_object_pool.h\<close>: the volatile table plugin. A table context holds an
  array tree whose values are pointers to value objects (length, bytes, tail magic) in a pool. The tree is
  initialised by the first \<^verbatim>\<open>table_put\<close>, which fixes the key length of the table.

  The pool is a map from addresses to objects; \<^verbatim>\<open>malloc\<close> takes the next unused address. Its fresh memory is filled
  with zeros here, and every byte of an object is overwritten before it is read. A function whose
  \<^verbatim>\<open>tx_assert\<close> fails does not return (\<^term>\<open>None\<close>). The tree reads \<^verbatim>\<open>key_length_\<close> bytes at the pointer \<^verbatim>\<open>key.data\<close>.
\<close>

section \<open>The object pool\<close>

record object_pool =
  pool_objects :: "ptr \<rightharpoonup> byte list"
  pool_next :: ptr

definition pool_new :: object_pool where
  "pool_new = \<lparr>pool_objects = Map.empty, pool_next = 1\<rparr>"

definition pool_malloc :: "object_pool \<Rightarrow> int \<Rightarrow> ptr \<times> object_pool" where
  "pool_malloc pool object_size =
     (pool_next pool,
      \<lparr>pool_objects = (pool_objects pool)(pool_next pool \<mapsto> replicate (nat object_size) 0), pool_next = pool_next pool + 1\<rparr>)"

definition pool_free :: "object_pool \<Rightarrow> ptr \<Rightarrow> object_pool option" where
  "pool_free pool p =
     (if p = NULL \<or> pool_objects pool p = None then None
      else Some (pool\<lparr>pool_objects := (pool_objects pool)(p := None)\<rparr>))"

section \<open>Value objects\<close>

definition NLDB_VALUE_TAIL_MAGIC :: "32 word" where
  "NLDB_VALUE_TAIL_MAGIC = 0xcafe7777"

definition pack_value_object :: "object_pool \<Rightarrow> 16 word \<Rightarrow> byte list \<Rightarrow> (ptr \<times> object_pool) option" where
  "pack_value_object pool value_length value =
     (let value_object_size = 2 + int (unat value_length) + 4;
          (p, pool1) = pool_malloc pool value_object_size
      in do {
        obj \<leftarrow> pool_objects pool1 p;
        obj1 \<leftarrow> mem_write obj 0 (le_bytes 2 (unat value_length));
        bytes \<leftarrow> mem_read value 0 (int (unat value_length));
        obj2 \<leftarrow> mem_write obj1 2 bytes;
        obj3 \<leftarrow> mem_write obj2 (2 + int (unat value_length)) (le_bytes 4 (unat NLDB_VALUE_TAIL_MAGIC));
        Some (p, pool1\<lparr>pool_objects := (pool_objects pool1)(p \<mapsto> obj3)\<rparr>) })"

definition unpack_value_object :: "object_pool \<Rightarrow> ptr \<Rightarrow> nldb_value_t option" where
  "unpack_value_object pool p =
     do { obj \<leftarrow> pool_objects pool p;
          len \<leftarrow> mem_read obj 0 2;
          let value_length = (of_nat (le_value len) :: 16 word);
          if value_length = 0 then None
          else do {
            magic \<leftarrow> mem_read obj (2 + int (unat value_length)) 4;
            if of_nat (le_value magic) \<noteq> NLDB_VALUE_TAIL_MAGIC then None
            else do {
              bytes \<leftarrow> mem_read obj 2 (int (unat value_length));
              Some \<lparr>value_data = bytes, value_len = value_length\<rparr> } } }"

section \<open>Table contexts\<close>

abbreviation (input) KEY_SPACE_SIZE :: nat where
  "KEY_SPACE_SIZE \<equiv> 64"

record table_context =
  ctx_tree :: array_tree
  ctx_value_pool :: "object_pool option"
  ctx_initialized :: bool
  ctx_key_length :: "16 word"

definition table_context_new :: table_context where
  "table_context_new =
     \<lparr>ctx_tree = tree_new KEY_SPACE_SIZE, ctx_value_pool = None, ctx_initialized = False, ctx_key_length = 0\<rparr>"

definition table_context_init :: "table_context \<Rightarrow> 16 word \<Rightarrow> table_context option" where
  "table_context_init ctx key_length =
     (if ctx_initialized ctx then None
      else do { t \<leftarrow> tree_init (ctx_tree ctx) (int (unat key_length));
                Some (ctx\<lparr>ctx_key_length := key_length, ctx_tree := t, ctx_value_pool := Some pool_new,
                          ctx_initialized := True\<rparr>) })"

definition table_context_destroy :: "table_context \<Rightarrow> table_context" where
  "table_context_destroy ctx = ctx\<lparr>ctx_value_pool := None, ctx_tree := tree_destroy (ctx_tree ctx)\<rparr>"

definition at_table_create :: "nldb_plugin_table_desc_t \<Rightarrow> nldb_rc_t \<times> nldb_plugin_table_desc_t" where
  "at_table_create desc = (NLDB_OK, desc\<lparr>desc_length := 0\<rparr>)"

definition at_table_drop :: "nldb_plugin_table_desc_t \<Rightarrow> nldb_rc_t" where
  "at_table_drop desc = NLDB_OK"

definition at_table_open :: "nldb_plugin_table_desc_t \<Rightarrow> nldb_rc_t \<times> table_context" where
  "at_table_open desc = (NLDB_OK, table_context_new)"

text \<open>The context as \<^verbatim>\<open>table_close\<close> leaves it before it is deleted.\<close>

definition at_table_close :: "table_context \<Rightarrow> nldb_rc_t \<times> table_context" where
  "at_table_close ctx = (NLDB_OK, if ctx_initialized ctx then table_context_destroy ctx else ctx)"

definition check_context_initialized :: "table_context \<Rightarrow> 16 word \<Rightarrow> (nldb_rc_t \<times> table_context) option" where
  "check_context_initialized ctx key_length =
     (if ctx_initialized ctx
      then if ctx_key_length ctx \<noteq> key_length then Some (NLDB_ERROR_VARIABLE_KEY_SIZE_NOT_SUPPORTED, ctx)
           else Some (NLDB_OK, ctx)
      else do { ctx' \<leftarrow> table_context_init ctx key_length; Some (NLDB_OK, ctx') })"

definition check_key_length :: "table_context \<Rightarrow> 16 word \<Rightarrow> nldb_rc_t" where
  "check_key_length ctx key_length =
     (if ctx_key_length ctx \<noteq> key_length then NLDB_ERROR_VARIABLE_KEY_SIZE_NOT_SUPPORTED else NLDB_OK)"

text \<open>The bytes that the tree reads at \<^verbatim>\<open>key.data\<close>.\<close>

definition key_bytes :: "table_context \<Rightarrow> nldb_key_t \<Rightarrow> byte list option" where
  "key_bytes ctx k = mem_read (key_data k) 0 (int (unat (ctx_key_length ctx)))"

section \<open>Table operations\<close>

definition at_table_put :: "table_context \<Rightarrow> nldb_key_t \<Rightarrow> nldb_value_t \<Rightarrow> (nldb_rc_t \<times> table_context) option" where
  "at_table_put ctx key value =
     do { (rc, ctx1) \<leftarrow> check_context_initialized ctx (key_len key);
          if rc \<noteq> NLDB_OK then None
          else do {
            pool \<leftarrow> ctx_value_pool ctx1;
            (packed_value_ptr, pool') \<leftarrow> pack_value_object pool (value_len value) (value_data value);
            k \<leftarrow> key_bytes ctx1 key;
            t \<leftarrow> tree_put (ctx_tree ctx1) k packed_value_ptr;
            Some (NLDB_OK, ctx1\<lparr>ctx_value_pool := Some pool', ctx_tree := t\<rparr>) } }"

text \<open>\<^verbatim>\<open>table_get\<close> by key: the return code, the value and, when \<^verbatim>\<open>order\<close> is not null, what is stored in \<^verbatim>\<open>*order\<close>.\<close>

definition at_table_get ::
    "table_context \<Rightarrow> nldb_key_t \<Rightarrow> bool \<Rightarrow> (nldb_rc_t \<times> nldb_value_t option \<times> int option) option" where
  "at_table_get ctx key want_order =
     (if \<not> ctx_initialized ctx then Some (NLDB_ERROR_KEY_NOT_FOUND, None, None)
      else do {
        k \<leftarrow> key_bytes ctx key;
        (packed_value_ptr, n) \<leftarrow> tree_get (ctx_tree ctx) k want_order;
        let order = (if want_order then Some n else None);
        if packed_value_ptr \<noteq> NULL
        then do { pool \<leftarrow> ctx_value_pool ctx;
                  value \<leftarrow> unpack_value_object pool packed_value_ptr;
                  Some (NLDB_OK, Some value, order) }
        else Some (NLDB_ERROR_KEY_NOT_FOUND, None, order) })"

definition at_table_get_by_order ::
    "table_context \<Rightarrow> int \<Rightarrow> (nldb_rc_t \<times> (nldb_key_t \<times> nldb_value_t) option) option" where
  "at_table_get_by_order ctx order =
     (if \<not> ctx_initialized ctx then Some (NLDB_ERROR_KEY_NOT_FOUND, None)
      else do {
        (rc, entry) \<leftarrow> tree_get_by_order (ctx_tree ctx) order;
        if rc \<noteq> NLDB_OK then Some (rc, None)
        else do { (k, packed_value_ptr) \<leftarrow> entry;
                  pool \<leftarrow> ctx_value_pool ctx;
                  value \<leftarrow> unpack_value_object pool packed_value_ptr;
                  Some (NLDB_OK, Some (\<lparr>key_data = k, key_len = ctx_key_length ctx\<rparr>, value)) } })"

definition at_table_del :: "table_context \<Rightarrow> nldb_key_t \<Rightarrow> (nldb_rc_t \<times> table_context) option" where
  "at_table_del ctx key =
     (if \<not> ctx_initialized ctx then Some (NLDB_ERROR_KEY_NOT_FOUND, ctx)
      else do {
        k \<leftarrow> key_bytes ctx key;
        (packed_value_ptr, t) \<leftarrow> tree_del (ctx_tree ctx) k;
        if packed_value_ptr \<noteq> NULL
        then do { pool \<leftarrow> ctx_value_pool ctx;
                  pool' \<leftarrow> pool_free pool packed_value_ptr;
                  Some (NLDB_OK, ctx\<lparr>ctx_tree := t, ctx_value_pool := Some pool'\<rparr>) }
        else Some (NLDB_ERROR_KEY_NOT_FOUND, ctx\<lparr>ctx_tree := t\<rparr>) })"

definition at_table_stat :: "table_context \<Rightarrow> (nldb_rc_t \<times> int) option" where
  "at_table_stat ctx =
     (if ctx_initialized ctx then do { key_count \<leftarrow> tree_get_key_count (ctx_tree ctx); Some (NLDB_OK, key_count) }
      else Some (NLDB_OK, 0))"

text \<open>The return code, and the value (key) as the call leaves it: this plugin frees nothing.\<close>

definition at_value_free :: "nldb_value_t \<Rightarrow> nldb_rc_t \<times> nldb_value_t" where
  "at_value_free value = (NLDB_OK, value)"

definition at_key_free :: "nldb_key_t \<Rightarrow> nldb_rc_t \<times> nldb_key_t" where
  "at_key_free key = (NLDB_OK, key)"

section \<open>Cursors\<close>

text \<open>
  A cursor refers to its table context, which is an argument of the operations below. Its other members are
  not initialised by the constructor: \<open>garbage\<close> is the content of the fresh memory.
\<close>

record cursor_context =
  cur_iter :: tree_iterator
  cur_dir :: nldb_cursor_direction_t
  cur_key_order :: int

definition at_cursor_open :: "cursor_context \<Rightarrow> nldb_rc_t \<times> cursor_context" where
  "at_cursor_open garbage = (NLDB_OK, garbage)"

definition at_cursor_seek ::
    "table_context \<Rightarrow> cursor_context \<Rightarrow> nldb_cursor_direction_t \<Rightarrow> nldb_key_t \<Rightarrow> (nldb_rc_t \<times> cursor_context) option" where
  "at_cursor_seek ctx cur direction key =
     (if \<not> ctx_initialized ctx then Some (NLDB_OK, cur)
      else if check_key_length ctx (key_len key) \<noteq> NLDB_OK then Some (check_key_length ctx (key_len key), cur)
      else do {
        k \<leftarrow> key_bytes ctx key;
        it \<leftarrow> (if direction = NLDB_CURSOR_FORWARD then tree_seek_forward (ctx_tree ctx) k
               else if direction = NLDB_CURSOR_BACKWARD then tree_seek_backward (ctx_tree ctx) k
               else None);
        (_, key_order) \<leftarrow> tree_get (ctx_tree ctx) k True;
        Some (NLDB_OK, cur\<lparr>cur_iter := it, cur_dir := direction, cur_key_order := key_order\<rparr>) })"

definition at_cursor_seek_order ::
    "table_context \<Rightarrow> cursor_context \<Rightarrow> nldb_cursor_direction_t \<Rightarrow> int \<Rightarrow> (nldb_rc_t \<times> cursor_context) option" where
  "at_cursor_seek_order ctx cur direction order =
     (if \<not> ctx_initialized ctx then Some (NLDB_OK, cur)
      else do {
        (rc, it) \<leftarrow> (if direction = NLDB_CURSOR_FORWARD then tree_seek_forward_order (ctx_tree ctx) order (cur_iter cur)
                     else if direction = NLDB_CURSOR_BACKWARD
                     then tree_seek_backward_order (ctx_tree ctx) order (cur_iter cur)
                     else None);
        if rc \<noteq> NLDB_OK then Some (rc, cur\<lparr>cur_iter := it\<rparr>)
        else Some (NLDB_OK, cur\<lparr>cur_iter := it, cur_dir := direction, cur_key_order := order\<rparr>) })"

text \<open>
  \<^verbatim>\<open>cursor_fetch\<close>: \<open>want_value\<close> says whether \<^verbatim>\<open>o_value\<close> is not null. The tree never sets \<^verbatim>\<open>end_of_iteration\<close>; it reports the end
  by its return code, which is handed on before the order is advanced.
\<close>

definition at_cursor_fetch ::
    "table_context \<Rightarrow> cursor_context \<Rightarrow> bool
      \<Rightarrow> (nldb_rc_t \<times> (nldb_key_t \<times> nldb_value_t option \<times> int) option \<times> cursor_context) option" where
  "at_cursor_fetch ctx cur want_value =
     (if \<not> ctx_initialized ctx then Some (NLDB_ERROR_END_OF_ITERATION, None, cur)
      else do {
        (rc, entry, it) \<leftarrow>
          (if cur_dir cur = NLDB_CURSOR_FORWARD then tree_move_forward (ctx_tree ctx) (cur_iter cur)
           else if cur_dir cur = NLDB_CURSOR_BACKWARD then tree_move_backward (ctx_tree ctx) (cur_iter cur)
           else None);
        if rc \<noteq> NLDB_OK then Some (rc, None, cur\<lparr>cur_iter := it\<rparr>)
        else do {
          (k, packed_value_ptr) \<leftarrow> entry;
          let order = cur_key_order cur;
          let cur' = cur\<lparr>cur_iter := it,
                         cur_key_order := (if cur_dir cur = NLDB_CURSOR_FORWARD then order + 1 else order - 1)\<rparr>;
          value \<leftarrow> (if want_value
                    then do { pool \<leftarrow> ctx_value_pool ctx; v \<leftarrow> unpack_value_object pool packed_value_ptr; Some (Some v) }
                    else Some None);
          Some (NLDB_OK, Some (\<lparr>key_data = k, key_len = ctx_key_length ctx\<rparr>, value, order), cur') } })"

definition at_cursor_close :: "cursor_context \<Rightarrow> nldb_rc_t" where
  "at_cursor_close cur = NLDB_OK"

end
