(* ===== verification/Plugins.thy ===== *)
theory Plugins
  imports Plugin_Array_Tree
begin

text \<open>
  The plugin interface \<^verbatim>\<open>nldb_plugin_t\<close> of \<^verbatim>\<open>nldb_plugin.h\<close> and its implementations as the database layer sees them: a plugin is a
  record of its virtual functions, and a \<^verbatim>\<open>void*\<close> context of an open table or cursor is a handle into the memory of the process.

  The LevelDB plugin (\<^verbatim>\<open>nldb_plugin_leveldb.cpp\<close>) and the Tokyo Cabinet plugin (\<^verbatim>\<open>nldb_plugin_tc.cpp\<close>) call libraries that are not part of the
  program: their functions are parameters, collected in the records \<open>leveldb\<close> and \<open>tokyo_cabinet\<close>, acting on states \<open>'l\<close> and \<open>'t\<close> of which
  nothing is known here. The \<^verbatim>\<open>malloc\<close> calls by which the LevelDB plugin copies keys and values are taken to succeed.
\<close>

section \<open>The interface\<close>

record 'w nldb_plugin_t =
  pl_table_create :: "'w \<Rightarrow> int \<Rightarrow> int \<Rightarrow> nldb_plugin_table_desc_t \<Rightarrow> (nldb_rc_t \<times> nldb_plugin_table_desc_t \<times> 'w) option"
  pl_table_drop :: "'w \<Rightarrow> nldb_plugin_table_desc_t \<Rightarrow> (nldb_rc_t \<times> 'w) option"
  pl_table_open :: "'w \<Rightarrow> nldb_plugin_table_desc_t \<Rightarrow> (nldb_rc_t \<times> ptr \<times> 'w) option"
  pl_table_close :: "'w \<Rightarrow> ptr \<Rightarrow> (nldb_rc_t \<times> 'w) option"
  pl_table_put :: "'w \<Rightarrow> ptr \<Rightarrow> nldb_key_t \<Rightarrow> nldb_value_t \<Rightarrow> (nldb_rc_t \<times> 'w) option"
  pl_table_get :: "'w \<Rightarrow> ptr \<Rightarrow> nldb_key_t \<Rightarrow> bool \<Rightarrow> (nldb_rc_t \<times> nldb_value_t option \<times> int option) option"
  pl_table_get_by_order :: "'w \<Rightarrow> ptr \<Rightarrow> int \<Rightarrow> (nldb_rc_t \<times> (nldb_key_t \<times> nldb_value_t) option) option"
  pl_table_del :: "'w \<Rightarrow> ptr \<Rightarrow> nldb_key_t \<Rightarrow> (nldb_rc_t \<times> 'w) option"
  pl_table_stat :: "'w \<Rightarrow> ptr \<Rightarrow> (nldb_rc_t \<times> int option) option"
  pl_value_free :: "nldb_value_t \<Rightarrow> nldb_rc_t \<times> nldb_value_t"
  pl_key_free :: "nldb_key_t \<Rightarrow> nldb_rc_t \<times> nldb_key_t"
  pl_cursor_open :: "'w \<Rightarrow> ptr \<Rightarrow> (nldb_rc_t \<times> ptr \<times> 'w) option"
  pl_cursor_seek :: "'w \<Rightarrow> ptr \<Rightarrow> nldb_cursor_direction_t \<Rightarrow> nldb_key_t \<Rightarrow> (nldb_rc_t \<times> 'w) option"
  pl_cursor_seek_order :: "'w \<Rightarrow> ptr \<Rightarrow> nldb_cursor_direction_t \<Rightarrow> int \<Rightarrow> (nldb_rc_t \<times> 'w) option"
  pl_cursor_fetch :: "'w \<Rightarrow> ptr \<Rightarrow> bool \<Rightarrow> bool
     \<Rightarrow> (nldb_rc_t \<times> (nldb_key_t \<times> nldb_value_t option \<times> int option) option \<times> 'w) option"
  pl_cursor_close :: "'w \<Rightarrow> ptr \<Rightarrow> ptr \<Rightarrow> (nldb_rc_t \<times> 'w) option"

section \<open>The memory of the process\<close>

record ('l, 't) world =
  w_leveldb :: 'l
  w_tc :: 't
  w_tables :: "ptr \<rightharpoonup> table_context"
  w_cursors :: "ptr \<rightharpoonup> ptr \<times> cursor_context"
  w_leveldb_cursors :: "ptr \<rightharpoonup> ptr \<times> nldb_cursor_direction_t"
  w_next :: ptr

section \<open>The array tree plugin\<close>

text \<open>Allocation of a context takes the next unused handle; \<open>garbage\<close> is the initial content of a cursor.\<close>

definition atw_table_open ::
    "('l, 't) world \<Rightarrow> nldb_plugin_table_desc_t \<Rightarrow> (nldb_rc_t \<times> ptr \<times> ('l, 't) world) option" where
  "atw_table_open w desc =
     (let (rc, ctx) = at_table_open desc; h = w_next w
      in Some (rc, h, w\<lparr>w_tables := (w_tables w)(h \<mapsto> ctx), w_next := h + 1\<rparr>))"

definition atw_table_close :: "('l, 't) world \<Rightarrow> ptr \<Rightarrow> (nldb_rc_t \<times> ('l, 't) world) option" where
  "atw_table_close w h =
     do { ctx \<leftarrow> w_tables w h; Some (fst (at_table_close ctx), w\<lparr>w_tables := (w_tables w)(h := None)\<rparr>) }"

definition atw_table_put ::
    "('l, 't) world \<Rightarrow> ptr \<Rightarrow> nldb_key_t \<Rightarrow> nldb_value_t \<Rightarrow> (nldb_rc_t \<times> ('l, 't) world) option" where
  "atw_table_put w h key value =
     do { ctx \<leftarrow> w_tables w h;
          (rc, ctx') \<leftarrow> at_table_put ctx key value;
          Some (rc, w\<lparr>w_tables := (w_tables w)(h \<mapsto> ctx')\<rparr>) }"

definition atw_table_get ::
    "('l, 't) world \<Rightarrow> ptr \<Rightarrow> nldb_key_t \<Rightarrow> bool \<Rightarrow> (nldb_rc_t \<times> nldb_value_t option \<times> int option) option" where
  "atw_table_get w h key want_order = do { ctx \<leftarrow> w_tables w h; at_table_get ctx key want_order }"

definition atw_table_get_by_order ::
    "('l, 't) world \<Rightarrow> ptr \<Rightarrow> int \<Rightarrow> (nldb_rc_t \<times> (nldb_key_t \<times> nldb_value_t) option) option" where
  "atw_table_get_by_order w h order = do { ctx \<leftarrow> w_tables w h; at_table_get_by_order ctx order }"

definition atw_table_del :: "('l, 't) world \<Rightarrow> ptr \<Rightarrow> nldb_key_t \<Rightarrow> (nldb_rc_t \<times> ('l, 't) world) option" where
  "atw_table_del w h key =
     do { ctx \<leftarrow> w_tables w h;
          (rc, ctx') \<leftarrow> at_table_del ctx key;
          Some (rc, w\<lparr>w_tables := (w_tables w)(h \<mapsto> ctx')\<rparr>) }"

definition atw_table_stat :: "('l, 't) world \<Rightarrow> ptr \<Rightarrow> (nldb_rc_t \<times> int option) option" where
  "atw_table_stat w h = do { ctx \<leftarrow> w_tables w h; (rc, n) \<leftarrow> at_table_stat ctx; Some (rc, Some n) }"

definition atw_cursor_open ::
    "cursor_context \<Rightarrow> ('l, 't) world \<Rightarrow> ptr \<Rightarrow> (nldb_rc_t \<times> ptr \<times> ('l, 't) world) option" where
  "atw_cursor_open garbage w h =
     (let (rc, cur) = at_cursor_open garbage; c = w_next w
      in Some (rc, c, w\<lparr>w_cursors := (w_cursors w)(c \<mapsto> (h, cur)), w_next := c + 1\<rparr>))"

definition atw_cursor_seek ::
    "('l, 't) world \<Rightarrow> ptr \<Rightarrow> nldb_cursor_direction_t \<Rightarrow> nldb_key_t \<Rightarrow> (nldb_rc_t \<times> ('l, 't) world) option" where
  "atw_cursor_seek w c direction key =
     do { (h, cur) \<leftarrow> w_cursors w c;
          ctx \<leftarrow> w_tables w h;
          (rc, cur') \<leftarrow> at_cursor_seek ctx cur direction key;
          Some (rc, w\<lparr>w_cursors := (w_cursors w)(c \<mapsto> (h, cur'))\<rparr>) }"

definition atw_cursor_seek_order ::
    "('l, 't) world \<Rightarrow> ptr \<Rightarrow> nldb_cursor_direction_t \<Rightarrow> int \<Rightarrow> (nldb_rc_t \<times> ('l, 't) world) option" where
  "atw_cursor_seek_order w c direction order =
     do { (h, cur) \<leftarrow> w_cursors w c;
          ctx \<leftarrow> w_tables w h;
          (rc, cur') \<leftarrow> at_cursor_seek_order ctx cur direction order;
          Some (rc, w\<lparr>w_cursors := (w_cursors w)(c \<mapsto> (h, cur'))\<rparr>) }"

definition atw_cursor_fetch ::
    "('l, 't) world \<Rightarrow> ptr \<Rightarrow> bool \<Rightarrow> bool
      \<Rightarrow> (nldb_rc_t \<times> (nldb_key_t \<times> nldb_value_t option \<times> int option) option \<times> ('l, 't) world) option" where
  "atw_cursor_fetch w c want_value want_order =
     do { (h, cur) \<leftarrow> w_cursors w c;
          ctx \<leftarrow> w_tables w h;
          (rc, item, cur') \<leftarrow> at_cursor_fetch ctx cur want_value;
          Some (rc, map_option (\<lambda>(k, v, n). (k, v, if want_order then Some n else None)) item,
                w\<lparr>w_cursors := (w_cursors w)(c \<mapsto> (h, cur'))\<rparr>) }"

definition atw_cursor_close :: "('l, 't) world \<Rightarrow> ptr \<Rightarrow> ptr \<Rightarrow> (nldb_rc_t \<times> ('l, 't) world) option" where
  "atw_cursor_close w h c =
     do { (_, cur) \<leftarrow> w_cursors w c; Some (at_cursor_close cur, w\<lparr>w_cursors := (w_cursors w)(c := None)\<rparr>) }"

definition plugin_array_tree :: "cursor_context \<Rightarrow> ('l, 't) world nldb_plugin_t" where
  "plugin_array_tree garbage =
     \<lparr>pl_table_create = (\<lambda>w db_id table_id desc. let (rc, desc') = at_table_create desc in Some (rc, desc', w)),
      pl_table_drop = (\<lambda>w desc. Some (at_table_drop desc, w)),
      pl_table_open = atw_table_open, pl_table_close = atw_table_close, pl_table_put = atw_table_put,
      pl_table_get = atw_table_get, pl_table_get_by_order = atw_table_get_by_order, pl_table_del = atw_table_del,
      pl_table_stat = atw_table_stat, pl_value_free = at_value_free, pl_key_free = at_key_free,
      pl_cursor_open = atw_cursor_open garbage, pl_cursor_seek = atw_cursor_seek,
      pl_cursor_seek_order = atw_cursor_seek_order, pl_cursor_fetch = atw_cursor_fetch, pl_cursor_close = atw_cursor_close\<rparr>"

end
