(* ===== verification/Plugin_Values.thy ===== *)
theory Plugin_Values
  imports Plugin_Array_Tree
begin

text \<open>
  Value objects of the array tree plugin: packing a value and unpacking the object gives the value back, provided that it is
  not empty, and allocation leaves the other objects of the pool alone.
\<close>

definition value_object :: "byte list \<Rightarrow> byte list" where
  "value_object v = le_bytes 2 (length v) @ v @ le_bytes 4 (unat NLDB_VALUE_TAIL_MAGIC)"

definition pool_ok :: "object_pool \<Rightarrow> bool" where
  "pool_ok pool \<longleftrightarrow> 0 < pool_next pool \<and> (\<forall>p. pool_objects pool p \<noteq> None \<longrightarrow> 0 < p \<and> p < pool_next pool)"

definition pool_add :: "object_pool \<Rightarrow> byte list \<Rightarrow> object_pool" where
  "pool_add pool v =
     \<lparr>pool_objects = (pool_objects pool)(pool_next pool \<mapsto> value_object v), pool_next = pool_next pool + 1\<rparr>"

lemma pool_ok_new: "pool_ok pool_new"
  by (simp add: pool_ok_def pool_new_def)

lemma pool_ok_add: "pool_ok pool \<Longrightarrow> pool_ok (pool_add pool v)"
  by (auto simp: pool_ok_def pool_add_def less_Suc_eq)

lemma pool_ok_free: "pool_ok pool \<Longrightarrow> pool_free pool p = Some pool' \<Longrightarrow> pool_ok pool'"
  by (auto simp: pool_ok_def pool_free_def split: if_splits)

lemma pack_value_object_spec:
  assumes "unat len \<le> length v"
  shows "pack_value_object pool len v = Some (pool_next pool, pool_add pool (take (unat len) v))"
proof -
  let ?n = "unat len" and ?m = "le_bytes 4 (unat NLDB_VALUE_TAIL_MAGIC)"
  let ?z = "\<lambda>n. replicate n (0 :: byte)"
  have fresh: "replicate (nat (2 + int ?n + 4)) 0 = ?z 2 @ ?z ?n @ ?z 4"
    by (simp only: replicate_add [symmetric]) (simp add: nat_add_distrib)
  have w: "mem_write (?z 2 @ ?z ?n @ ?z 4) 0 (le_bytes 2 ?n) = Some (le_bytes 2 ?n @ ?z ?n @ ?z 4)"
      "mem_write (le_bytes 2 ?n @ ?z ?n @ ?z 4) 2 (take ?n v) = Some (le_bytes 2 ?n @ take ?n v @ ?z 4)"
    using mem_write_append [of 0 "[]" "le_bytes 2 ?n" "?z 2" "?z ?n @ ?z 4"]
      mem_write_append [of 2 "le_bytes 2 ?n" "take ?n v" "?z ?n" "?z 4"] assms by simp_all
  have w': "mem_write (le_bytes 2 ?n @ take ?n v @ ?z 4) (2 + int ?n) ?m = Some (le_bytes 2 ?n @ take ?n v @ ?m)"
    using mem_write_append [of "2 + int ?n" "le_bytes 2 ?n @ take ?n v" ?m "?z 4" "[]"] assms by simp
  have r: "mem_read v 0 (int ?n) = Some (take ?n v)" using mem_read_nat [of 0 ?n v] assms by simp
  show ?thesis
    unfolding pack_value_object_def pool_malloc_def Let_def prod.case fresh
    using assms by (simp add: w w' r pool_add_def value_object_def del: of_nat_unat)
qed

lemma unpack_value_object_spec:
  assumes "pool_objects pool p = Some (value_object v)" "length v < 2 ^ 16"
  shows "unpack_value_object pool p = (if v = [] then None else Some (the_value v))"
proof -
  let ?m = "le_bytes 4 (unat NLDB_VALUE_TAIL_MAGIC)"
  have len: "unat (of_nat (length v) :: 16 word) = length v"
    using assms(2) by (simp add: unat_of_nat take_bit_eq_mod)
  have z: "(of_nat (length v) :: 16 word) = 0 \<longleftrightarrow> v = []" using assms(2) nat_dvd_not_less by (auto simp: word_of_nat_eq_0_iff)
  have r: "mem_read (value_object v) 0 2 = Some (le_bytes 2 (length v))"
      "mem_read (value_object v) (2 + int (length v)) 4 = Some ?m"
      "mem_read (value_object v) 2 (int (length v)) = Some v"
    using mem_read_append [of 0 "[]" 2 "le_bytes 2 (length v)" "v @ ?m"]
      mem_read_append [of "2 + int (length v)" "le_bytes 2 (length v) @ v" 4 ?m "[]"]
      mem_read_append [of 2 "le_bytes 2 (length v)" "int (length v)" v ?m]
    by (simp_all add: value_object_def)
  have l: "(of_nat (le_value (le_bytes 2 (length v))) :: 16 word) = of_nat (length v)"
    using assms(2) by (simp add: le_value_le_bytes)
  have m: "of_nat (le_value ?m) = NLDB_VALUE_TAIL_MAGIC"
    using unsigned_less [where 'a = nat, of NLDB_VALUE_TAIL_MAGIC] by (simp add: le_value_le_bytes)
  show ?thesis
    unfolding unpack_value_object_def Let_def by (simp add: assms(1) r l m len z the_value_def)
qed

end
