(* ===== verification/Plugin_Tables.thy ===== *)
theory Plugin_Tables
  imports Plugin_Values Tree_Properties
begin

text \<open>
  A table of the array tree plugin stands for a strictly sorted list of keys and value byte strings: the tree
  maps each key to the address of its value object, and no two keys share an object. The operations of the plugin act on
  this list as \<^const>\<open>ord_put\<close>, \<^const>\<open>ord_del\<close> and \<^const>\<open>map_of\<close>.
\<close>

type_synonym table_content = "(key \<times> byte list) list"

section \<open>The representation\<close>

abbreviation located :: "(key \<Rightarrow> ptr) \<Rightarrow> table_content \<Rightarrow> entries" where
  "located loc ys \<equiv> map (\<lambda>e. (fst e, loc (fst e))) ys"

definition stored :: "object_pool \<Rightarrow> (key \<Rightarrow> ptr) \<Rightarrow> table_content \<Rightarrow> bool" where
  "stored pool loc ys \<longleftrightarrow> inj_on loc (fst ` set ys) \<and>
     (\<forall>(k, v)\<in>set ys. pool_objects pool (loc k) = Some (value_object v) \<and> length v < 2 ^ 16)"

text \<open>
  The tree is described by \<open>R\<close>: \<^term>\<open>tree_rep KEY_SPACE_SIZE kl\<close> for a table in general, \<^term>\<open>tree_filled_rep KEY_SPACE_SIZE kl\<close> for one
  whose tree has no empty leaf beside others, as cursors need it.
\<close>

definition live_rep :: "(array_tree \<Rightarrow> entries \<Rightarrow> bool) \<Rightarrow> nat \<Rightarrow> table_context \<Rightarrow> table_content \<Rightarrow> bool" where
  "live_rep R kl ctx ys \<longleftrightarrow> ctx_initialized ctx \<and> ctx_key_length ctx = of_nat kl \<and> (\<forall>e\<in>set ys. length (fst e) = kl) \<and>
     (\<exists>pool loc. ctx_value_pool ctx = Some pool \<and> pool_ok pool \<and> R (ctx_tree ctx) (located loc ys) \<and>
        stored pool loc ys)"

definition table_rep_of :: "(array_tree \<Rightarrow> entries \<Rightarrow> bool) \<Rightarrow> nat \<Rightarrow> table_context \<Rightarrow> table_content \<Rightarrow> bool" where
  "table_rep_of R kl ctx ys \<longleftrightarrow> 0 < kl \<and> 3 * kl \<le> KEY_SPACE_SIZE \<and>
     (live_rep R kl ctx ys \<or> ctx = table_context_new \<and> ys = [])"

abbreviation table_rep :: "nat \<Rightarrow> table_context \<Rightarrow> table_content \<Rightarrow> bool" where
  "table_rep kl \<equiv> table_rep_of (tree_rep KEY_SPACE_SIZE kl) kl"

abbreviation dense_table_rep :: "nat \<Rightarrow> table_context \<Rightarrow> table_content \<Rightarrow> bool" where
  "dense_table_rep kl \<equiv> table_rep_of (tree_filled_rep KEY_SPACE_SIZE kl) kl"

lemma live_repE:
  assumes "live_rep R kl ctx ys"
  obtains pool loc where "ctx_value_pool ctx = Some pool" "pool_ok pool"
    "R (ctx_tree ctx) (located loc ys)" "stored pool loc ys"
  using assms by (auto simp: live_rep_def)

lemma live_repI:
  assumes "ctx_initialized ctx" "ctx_key_length ctx = of_nat kl" "\<And>e. e \<in> set ys \<Longrightarrow> length (fst e) = kl"
    "ctx_value_pool ctx = Some pool" "pool_ok pool" "R (ctx_tree ctx) (located loc ys)" "stored pool loc ys"
  shows "live_rep R kl ctx ys"
  using assms by (auto simp: live_rep_def)

lemma live_repD:
  assumes "live_rep R kl ctx ys"
  shows "ctx_initialized ctx" "ctx_key_length ctx = of_nat kl" "e \<in> set ys \<Longrightarrow> length (fst e) = kl"
  using assms by (auto simp: live_rep_def)

lemma key_length_of_nat: "3 * kl \<le> KEY_SPACE_SIZE \<Longrightarrow> unat (of_nat kl :: 16 word) = kl"
  by (simp add: unat_of_nat take_bit_eq_mod)

lemma table_rep_cases:
  assumes "table_rep_of R kl ctx ys"
  obtains (live) "live_rep R kl ctx ys" "0 < kl" "3 * kl \<le> 64" "unat (of_nat kl :: 16 word) = kl"
  | (fresh) "ctx = table_context_new" "ys = []" "0 < kl" "3 * kl \<le> 64" "unat (of_nat kl :: 16 word) = kl"
  using assms key_length_of_nat unfolding table_rep_of_def by blast

lemma key_bytes_the_key:
  assumes "live_rep R kl ctx ys" "3 * kl \<le> KEY_SPACE_SIZE" "length k = kl"
  shows "key_bytes ctx (the_key k) = Some k"
  using assms key_length_of_nat [OF assms(2)] mem_read_nat [of 0 kl k]
  by (simp add: key_bytes_def live_rep_def del: of_nat_unat)

lemma map_of_located: "map_of (located loc ys) k = map_option (\<lambda>_. loc k) (map_of ys k)"
  by (induction ys) auto

lemma ord_put_located: "ord_put k p (located loc ys) = located (loc(k := p)) (ord_put k v ys)"
  by (auto simp: ord_put_def filter_map comp_def)

lemma ord_del_located: "ord_del k (located loc ys) = located loc (ord_del k ys)"
  by (simp add: ord_del_def filter_map comp_def)

lemma stored_lookup:
  assumes "stored pool loc ys" "map_of ys k = Some v"
  shows "pool_objects pool (loc k) = Some (value_object v)" "length v < 2 ^ 16"
  using assms map_of_SomeD [OF assms(2)] by (auto simp: stored_def)

lemma stored_not_null:
  assumes "stored pool loc ys" "pool_ok pool" "map_of ys k = Some v"
  shows "loc k \<noteq> NULL"
  using stored_lookup(1) [OF assms(1,3)] assms(2) unfolding pool_ok_def by (metis less_numeral_extra(3) option.distinct(1))

lemma inj_on_upd_insert: "inj_on f S \<Longrightarrow> y \<notin> f ` S \<Longrightarrow> inj_on (f(x := y)) (insert x S)"
  by (auto simp: inj_on_def)

lemma stored_put:
  assumes st: "stored pool loc ys" and ok: "pool_ok pool" and v: "length v < 2 ^ 16"
  shows "stored (pool_add pool v) (loc(k := pool_next pool)) (ord_put k v ys)"
proof -
  have fresh: "loc j \<noteq> pool_next pool" if "j \<in> fst ` set ys" for j
  proof -
    from that obtain w where "(j, w) \<in> set ys" by auto
    then have "pool_objects pool (loc j) \<noteq> None" using st by (auto simp: stored_def)
    then show ?thesis using ok unfolding pool_ok_def by fastforce
  qed
  have keys: "fst ` set (ord_put k v ys) = insert k (fst ` set ys)" by (auto simp: set_ord_put)
  have "inj_on (loc(k := pool_next pool)) (insert k (fst ` set ys))"
  proof (rule inj_on_upd_insert)
    show "inj_on loc (fst ` set ys)" using st by (simp add: stored_def)
    show "pool_next pool \<notin> loc ` fst ` set ys" using fresh by (metis imageE)
  qed
  moreover have "pool_objects (pool_add pool v) ((loc(k := pool_next pool)) j) = Some (value_object w) \<and> length w < 2 ^ 16"
    if "(j, w) \<in> set (ord_put k v ys)" for j w
  proof (cases "j = k")
    case True
    then show ?thesis using that v by (auto simp: set_ord_put pool_add_def)
  next
    case False
    then have "(j, w) \<in> set ys" using that by (auto simp: set_ord_put)
    then show ?thesis using st False fresh [of j] by (force simp: stored_def pool_add_def)
  qed
  ultimately show ?thesis unfolding stored_def keys by blast
qed

lemma stored_del:
  assumes st: "stored pool loc ys" and k: "map_of ys k = Some v" and free: "pool_free pool (loc k) = Some pool'"
  shows "stored pool' loc (ord_del k ys)"
proof -
  have inj: "inj_on loc (fst ` set ys)" using st by (simp add: stored_def)
  have kin: "k \<in> fst ` set ys" using k by (metis domI dom_map_of_conv_image_fst)
  have objs: "pool_objects pool' = (pool_objects pool)(loc k := None)" using free by (auto simp: pool_free_def split: if_splits)
  have "pool_objects pool' (loc j) = Some (value_object w) \<and> length w < 2 ^ 16" if "(j, w) \<in> set (ord_del k ys)" for j w
  proof -
    have j: "(j, w) \<in> set ys" "j \<noteq> k" using that by (auto simp: set_ord_del)
    then have "loc j \<noteq> loc k" using inj kin by (metis fst_conv image_eqI inj_on_contraD)
    then show ?thesis using st j(1) by (auto simp: stored_def objs)
  qed
  moreover have "inj_on loc (fst ` set (ord_del k ys))" by (rule inj_on_subset [OF inj]) (auto simp: set_ord_del)
  ultimately show ?thesis unfolding stored_def by blast
qed

section \<open>The operations\<close>

lemma check_context_ok:
  assumes "table_rep_of R kl ctx ys" and init: "\<exists>t. tree_init (tree_new 64) (int kl) = Some t \<and> R t []"
  shows "\<exists>ctx'. check_context_initialized ctx (of_nat kl) = Some (NLDB_OK, ctx') \<and> live_rep R kl ctx' ys"
  using assms(1)
proof (cases rule: table_rep_cases)
  case live
  then show ?thesis by (simp add: check_context_initialized_def live_rep_def)
next
  case fresh
  obtain t where t: "tree_init (tree_new 64) (int kl) = Some t" "R t []"
    using init by auto
  then have "check_context_initialized ctx (of_nat kl) =
      Some (NLDB_OK, \<lparr>ctx_tree = t, ctx_value_pool = Some pool_new, ctx_initialized = True, ctx_key_length = of_nat kl\<rparr>)"
    using fresh by (simp add: check_context_initialized_def table_context_init_def table_context_new_def del: of_nat_unat)
  then show ?thesis using fresh t(2) pool_ok_new by (auto simp: live_rep_def stored_def)
qed

lemma at_table_put_of:
  assumes rep: "table_rep_of R kl ctx ys" and k: "length k = kl" and v: "length v < 2 ^ 16" and room: "length ys < 2 ^ 31 - 1"
    and init: "\<exists>t. tree_init (tree_new 64) (int kl) = Some t \<and> R t []"
    and put: "\<And>t xs p. R t xs \<Longrightarrow> length xs < 2 ^ 31 - 1 \<Longrightarrow> \<exists>t'. tree_put t k p = Some t' \<and> R t' (ord_put k p xs)"
  shows "\<exists>ctx'. at_table_put ctx (the_key k) (the_value v) = Some (NLDB_OK, ctx') \<and> table_rep_of R kl ctx' (ord_put k v ys)"
proof -
  have kl: "0 < kl" "3 * kl \<le> 64" using rep by (auto simp: table_rep_of_def)
  obtain ctx1 where c: "check_context_initialized ctx (of_nat kl) = Some (NLDB_OK, ctx1)" "live_rep R kl ctx1 ys"
    using check_context_ok [OF rep init] by blast
  obtain pool loc where p: "ctx_value_pool ctx1 = Some pool" "pool_ok pool"
      "R (ctx_tree ctx1) (located loc ys)" "stored pool loc ys"
    by (rule live_repE [OF c(2)])
  obtain t where t: "tree_put (ctx_tree ctx1) k (pool_next pool) = Some t"
      "R t (ord_put k (pool_next pool) (located loc ys))"
    using put [OF p(3)] room by auto
  have pack: "pack_value_object pool (of_nat (length v)) v = Some (pool_next pool, pool_add pool v)"
    using pack_value_object_spec [of "of_nat (length v)" v pool] v by (simp add: unat_of_nat take_bit_eq_mod)
  let ?ctx = "ctx1\<lparr>ctx_value_pool := Some (pool_add pool v), ctx_tree := t\<rparr>"
  have "at_table_put ctx (the_key k) (the_value v) = Some (NLDB_OK, ?ctx)"
    using c p(1) t(1) pack key_bytes_the_key [OF c(2) kl(2) k] by (simp add: at_table_put_def k)
  moreover have "live_rep R kl ?ctx (ord_put k v ys)"
  proof (rule live_repI)
    show "R (ctx_tree ?ctx) (located (loc(k := pool_next pool)) (ord_put k v ys))"
      using t(2) by (simp only: ord_put_located [where v = v]) simp
    show "stored (pool_add pool v) (loc(k := pool_next pool)) (ord_put k v ys)" by (rule stored_put [OF p(4,2) v])
  qed (use k live_repD [OF c(2)] pool_ok_add [OF p(2)] in \<open>auto simp: set_ord_put\<close>)
  ultimately show ?thesis using kl by (auto simp: table_rep_of_def)
qed

lemma at_table_put_spec:
  assumes rep: "table_rep kl ctx ys" and k: "length k = kl" and v: "length v < 2 ^ 16" and room: "length ys < 2 ^ 31 - 1"
  shows "\<exists>ctx'. at_table_put ctx (the_key k) (the_value v) = Some (NLDB_OK, ctx') \<and> table_rep kl ctx' (ord_put k v ys)"
proof (rule at_table_put_of [OF assms])
  show "\<exists>t. tree_init (tree_new 64) (int kl) = Some t \<and> tree_rep 64 kl t []"
    using rep tree_init_spec [of kl 64] by (simp add: table_rep_of_def)
qed (rule tree_put_spec [OF _ k])

lemma at_table_put_dense:
  assumes rep: "dense_table_rep kl ctx ys" and k: "length k = kl" and v: "length v < 2 ^ 16" and room: "length ys < 2 ^ 31 - 1"
  shows "\<exists>ctx'. at_table_put ctx (the_key k) (the_value v) = Some (NLDB_OK, ctx') \<and> dense_table_rep kl ctx' (ord_put k v ys)"
proof (rule at_table_put_of [OF assms])
  show "\<exists>t. tree_init (tree_new 64) (int kl) = Some t \<and> tree_filled_rep 64 kl t []"
    using rep tree_init_inv [of kl 64] unfolding table_rep_of_def tree_filled_rep_def by metis
qed (rule tree_filled_rep_put [OF _ k])

lemma at_table_get_spec:
  assumes rep: "table_rep kl ctx ys" and k: "length k = kl"
  shows "map_of ys k = None \<Longrightarrow> \<exists>n. at_table_get ctx (the_key k) want = Some (NLDB_ERROR_KEY_NOT_FOUND, None, n)"
    and "map_of ys k = Some v \<Longrightarrow> v \<noteq> [] \<Longrightarrow> at_table_get ctx (the_key k) want =
           Some (NLDB_OK, Some (the_value v), if want then Some (int (rank_le k ys)) else None)"
    and "map_of ys k = Some [] \<Longrightarrow> at_table_get ctx (the_key k) want = None"
proof -
  have *: "(map_of ys k = None \<longrightarrow> (\<exists>n. at_table_get ctx (the_key k) want = Some (NLDB_ERROR_KEY_NOT_FOUND, None, n))) \<and>
      (\<forall>v. map_of ys k = Some v \<longrightarrow> at_table_get ctx (the_key k) want = (if v = [] then None else
           Some (NLDB_OK, Some (the_value v), if want then Some (int (rank_le k ys)) else None)))"
    using rep
  proof (cases rule: table_rep_cases)
    case live
    obtain pool loc where p: "ctx_value_pool ctx = Some pool" "pool_ok pool"
        "tree_rep 64 kl (ctx_tree ctx) (located loc ys)" "stored pool loc ys"
      by (rule live_repE [OF live(1)])
    have init: "ctx_initialized ctx" using live(1) by (simp add: live_rep_def)
    have rank: "rank_le k (located loc ys) = rank_le k ys" by (simp add: rank_le_def filter_map comp_def)
    note kb = key_bytes_the_key [OF live(1,3) k] and get = tree_get_spec [OF p(3) k, of want]
    show ?thesis
    proof (cases "map_of ys k")
      case None
      then show ?thesis using get init kb by (auto simp: map_of_located at_table_get_def)
    next
      case (Some v)
      note unpack = unpack_value_object_spec [OF stored_lookup [OF p(4) Some]]
      show ?thesis
        using get init kb unpack Some p(1) stored_not_null [OF p(4,2) Some]
        by (auto simp: map_of_located at_table_get_def rank)
    qed
  next
    case fresh
    then show ?thesis by (simp add: at_table_get_def table_context_new_def)
  qed
  then show "map_of ys k = None \<Longrightarrow> \<exists>n. at_table_get ctx (the_key k) want = Some (NLDB_ERROR_KEY_NOT_FOUND, None, n)"
    and "map_of ys k = Some v \<Longrightarrow> v \<noteq> [] \<Longrightarrow> at_table_get ctx (the_key k) want =
           Some (NLDB_OK, Some (the_value v), if want then Some (int (rank_le k ys)) else None)"
    and "map_of ys k = Some [] \<Longrightarrow> at_table_get ctx (the_key k) want = None"
    by simp_all
qed

lemma at_table_del_spec:
  assumes rep: "table_rep kl ctx ys" and k: "length k = kl" and v: "map_of ys k = Some v"
  shows "\<exists>ctx'. at_table_del ctx (the_key k) = Some (NLDB_OK, ctx') \<and> table_rep kl ctx' (ord_del k ys)"
  using rep
proof (cases rule: table_rep_cases)
  case live
  obtain pool loc where p: "ctx_value_pool ctx = Some pool" "pool_ok pool"
      "tree_rep 64 kl (ctx_tree ctx) (located loc ys)" "stored pool loc ys"
    by (rule live_repE [OF live(1)])
  obtain t where t: "tree_del (ctx_tree ctx) k = Some (loc k, t)" "tree_rep 64 kl t (ord_del k (located loc ys))"
    using tree_del_spec [OF p(3) k, of "loc k"] v by (auto simp: map_of_located)
  note nn = stored_not_null [OF p(4,2) v]
  obtain pool' where free: "pool_free pool (loc k) = Some pool'"
    using nn stored_lookup(1) [OF p(4) v] by (simp add: pool_free_def)
  let ?ctx = "ctx\<lparr>ctx_tree := t, ctx_value_pool := Some pool'\<rparr>"
  have "at_table_del ctx (the_key k) = Some (NLDB_OK, ?ctx)"
    using live(1) key_bytes_the_key [OF live(1,3) k] t(1) nn p(1) free by (simp add: at_table_del_def live_rep_def)
  moreover have "live_rep (tree_rep 64 kl) kl ?ctx (ord_del k ys)"
  proof (rule live_repI)
    show "tree_rep 64 kl (ctx_tree ?ctx) (located loc (ord_del k ys))" using t(2) by (simp add: ord_del_located)
    show "stored pool' loc (ord_del k ys)" by (rule stored_del [OF p(4) v free])
  qed (use live_repD [OF live(1)] pool_ok_free [OF p(2) free] in \<open>auto simp: set_ord_del\<close>)
  ultimately show ?thesis using live by (auto simp: table_rep_of_def)
next
  case fresh
  then show ?thesis using v by simp
qed

lemma at_table_get_by_order_spec:
  assumes rep: "table_rep kl ctx ys"
  shows "\<not> (1 \<le> i \<and> i \<le> int (length ys)) \<Longrightarrow> at_table_get_by_order ctx i = Some (NLDB_ERROR_KEY_NOT_FOUND, None)"
    and "1 \<le> i \<Longrightarrow> i \<le> int (length ys) \<Longrightarrow> ys ! nat (i - 1) = (k, v) \<Longrightarrow> v \<noteq> [] \<Longrightarrow>
           at_table_get_by_order ctx i = Some (NLDB_OK, Some (the_key k, the_value v))"
proof -
  show "\<not> (1 \<le> i \<and> i \<le> int (length ys)) \<Longrightarrow> at_table_get_by_order ctx i = Some (NLDB_ERROR_KEY_NOT_FOUND, None)"
    using rep
  proof (cases rule: table_rep_cases)
    case live
    obtain pool loc where "tree_rep 64 kl (ctx_tree ctx) (located loc ys)" by (rule live_repE [OF live(1)])
    moreover assume "\<not> (1 \<le> i \<and> i \<le> int (length ys))"
    ultimately show ?thesis using tree_get_by_order_spec [of 64 kl "ctx_tree ctx" _ i] live(1)
      by (auto simp: at_table_get_by_order_def live_rep_def)
  qed (simp add: at_table_get_by_order_def table_context_new_def)
  assume i: "1 \<le> i" "i \<le> int (length ys)" and e: "ys ! nat (i - 1) = (k, v)" "v \<noteq> []"
  have "nat (i - 1) < length ys" using i by linarith
  then have mem: "(k, v) \<in> set ys" using e(1) by (metis nth_mem)
  show "at_table_get_by_order ctx i = Some (NLDB_OK, Some (the_key k, the_value v))"
    using rep
  proof (cases rule: table_rep_cases)
    case live
    obtain pool loc where p: "ctx_value_pool ctx = Some pool" "pool_ok pool"
        "tree_rep 64 kl (ctx_tree ctx) (located loc ys)" "stored pool loc ys"
      by (rule live_repE [OF live(1)])
    have "tree_get_by_order (ctx_tree ctx) i = Some (NLDB_OK, Some (k, loc k))"
      using tree_get_by_order_spec [OF p(3), of i] i e(1) by (simp add: nat_less_iff)
    moreover have "unpack_value_object pool (loc k) = Some (the_value v)"
      using unpack_value_object_spec [of pool "loc k" v] p(4) mem e(2) by (auto simp: stored_def)
    moreover have "length k = kl" "ctx_initialized ctx" "ctx_key_length ctx = of_nat kl"
      using live(1) mem by (auto simp: live_rep_def)
    ultimately show ?thesis using p(1) by (simp add: at_table_get_by_order_def the_key_def)
  next
    case fresh
    then show ?thesis using i by simp
  qed
qed

lemma at_table_stat_spec:
  assumes "table_rep kl ctx ys"
  shows "at_table_stat ctx = Some (NLDB_OK, int (length ys))"
  using assms
proof (cases rule: table_rep_cases)
  case live
  obtain pool loc where "tree_rep 64 kl (ctx_tree ctx) (located loc ys)" by (rule live_repE [OF live(1)])
  then obtain D U where inv: "tree_inv 64 kl (ctx_tree ctx) D U" and c: "content (ctx_tree ctx) D = located loc ys"
    unfolding tree_rep_def by metis
  then have "tree_get_key_count (ctx_tree ctx) = Some (int (length ys))"
    using root_key_count [OF inv] by (simp add: tree_get_key_count_def c)
  then show ?thesis using live(1) by (simp add: at_table_stat_def live_rep_def)
qed (simp add: at_table_stat_def table_context_new_def)

section \<open>Keys and values in a larger memory\<close>

text \<open>The plugin reads only the bytes that a key and a value describe, not what lies behind them in memory.\<close>

lemma check_context_key_length:
  "check_context_initialized ctx kl = Some (NLDB_OK, ctx') \<Longrightarrow> ctx_key_length ctx' = kl"
  by (auto simp: check_context_initialized_def table_context_init_def split: if_splits Option.bind_splits)

lemma key_bytes_described:
  assumes "describes_key key k" "ctx_key_length ctx = of_nat (length k)"
  shows "key_bytes ctx key = Some k"
  using described_bytes(1) [OF assms(1)] described_length(1) [OF assms(1)] assms
  by (simp add: key_bytes_def describes_key_def del: of_nat_unat)

lemma pack_described:
  assumes "describes_value value v"
  shows "pack_value_object pool (value_len value) (value_data value) = Some (pool_next pool, pool_add pool v)"
  using pack_value_object_spec [of "value_len value" "value_data value" pool] described_length(2) [OF assms] assms
  by (auto simp: describes_value_def)

lemma at_table_put_described:
  assumes "describes_key key k" "describes_value value v"
  shows "at_table_put ctx key value = at_table_put ctx (the_key k) (the_value v)"
proof -
  have d: "describes_key (the_key k) k" "describes_value (the_value v) v"
    using assms by (simp_all add: describes_key_def describes_value_def)
  have len: "key_len key = of_nat (length k)" "key_len (the_key k) = of_nat (length k)" using assms(1) by (simp_all add: describes_key_def)
  show ?thesis
    unfolding at_table_put_def len
    by (auto simp: pack_described [OF assms(2)] pack_described [OF d(2)] key_bytes_described [OF assms(1)] key_bytes_described [OF d(1)]
        check_context_key_length simp del: the_key_simps the_value_simps split: Option.bind_split)
qed

lemma at_table_get_del_described:
  assumes "describes_key key k" "table_rep kl ctx ys" "length k = kl"
  shows "at_table_get ctx key want = at_table_get ctx (the_key k) want" "at_table_del ctx key = at_table_del ctx (the_key k)"
proof -
  have "describes_key (the_key k) k" using assms(1) by (simp add: describes_key_def)
  then have "ctx_initialized ctx \<Longrightarrow> key_bytes ctx key = key_bytes ctx (the_key k)"
    using assms key_bytes_described live_repD(2) by (auto simp: table_rep_of_def table_context_new_def)
  then show "at_table_get ctx key want = at_table_get ctx (the_key k) want" "at_table_del ctx key = at_table_del ctx (the_key k)"
    by (simp_all add: at_table_get_def at_table_del_def)
qed

end
