(* ===== verification/Plugin_Contract.thy ===== *)
theory Plugin_Contract
  imports Plugins Plugin_Tables Ordered_Table
begin

text \<open>
  The contract between the database layer and a table plugin, stated on the virtual functions of \<^verbatim>\<open>nldb_plugin_t\<close>: \<open>rep w h kl ys\<close> says
  that in the memory \<open>w\<close> the table context \<open>h\<close> holds the pairs \<open>ys\<close>, with keys of \<open>kl\<close> bytes. Each update changes the table it is applied
  to and no other. A value is at most \<open>2 ^ 16 - 1\<close> bytes long, and it can be read back when it is not empty. The contract is
  extended for plugins that know the order of their keys; the array tree plugin is an interpretation of both.
\<close>

section \<open>The contract\<close>

text \<open>Other tables are left alone by a step from \<open>w\<close> to \<open>w'\<close>.\<close>

definition frame :: "('w \<Rightarrow> ptr \<Rightarrow> nat \<Rightarrow> table_content \<Rightarrow> bool) \<Rightarrow> ptr \<Rightarrow> 'w \<Rightarrow> 'w \<Rightarrow> bool" where
  "frame rep h w w' \<longleftrightarrow> (\<forall>h' kl ys. h' \<noteq> h \<longrightarrow> rep w h' kl ys \<longrightarrow> rep w' h' kl ys)"

lemma frameD: "frame rep h w w' \<Longrightarrow> h' \<noteq> h \<Longrightarrow> rep w h' kl ys \<Longrightarrow> rep w' h' kl ys"
  by (auto simp: frame_def)

fun plugin_op :: "'w nldb_plugin_t \<Rightarrow> ptr \<Rightarrow> byte list table_op \<Rightarrow> 'w \<Rightarrow> (nldb_rc_t \<times> 'w) option" where
  "plugin_op pl h (Put k v) w = pl_table_put pl w h (the_key k) (the_value v)"
| "plugin_op pl h (Del k) w = pl_table_del pl w h (the_key k)"

fun plugin_ops :: "'w nldb_plugin_t \<Rightarrow> ptr \<Rightarrow> byte list table_op list \<Rightarrow> 'w \<Rightarrow> 'w option" where
  "plugin_ops pl h [] w = Some w"
| "plugin_ops pl h (p # ps) w = do { (rc, w') \<leftarrow> plugin_op pl h p w; if rc \<noteq> NLDB_OK then None else plugin_ops pl h ps w' }"

fun value_ok :: "byte list table_op \<Rightarrow> bool" where
  "value_ok (Put k v) \<longleftrightarrow> length v < 2 ^ 16"
| "value_ok (Del k) \<longleftrightarrow> True"

locale table_plugin =
  fixes pl :: "'w nldb_plugin_t" and cap :: nat and rep :: "'w \<Rightarrow> ptr \<Rightarrow> nat \<Rightarrow> table_content \<Rightarrow> bool"
  assumes put_law: "rep w h kl ys \<Longrightarrow> describes_key key k \<Longrightarrow> length k = kl \<Longrightarrow> describes_value value v \<Longrightarrow> length ys < cap \<Longrightarrow>
      \<exists>w'. pl_table_put pl w h key value = Some (NLDB_OK, w') \<and> rep w' h kl (ord_put k v ys) \<and> frame rep h w w'"
    and del_law: "rep w h kl ys \<Longrightarrow> describes_key key k \<Longrightarrow> length k = kl \<Longrightarrow> map_of ys k \<noteq> None \<Longrightarrow>
      \<exists>w'. pl_table_del pl w h key = Some (NLDB_OK, w') \<and> rep w' h kl (ord_del k ys) \<and> frame rep h w w'"
    and get_absent_law: "rep w h kl ys \<Longrightarrow> describes_key key k \<Longrightarrow> length k = kl \<Longrightarrow> map_of ys k = None \<Longrightarrow>
      \<exists>n. pl_table_get pl w h key False = Some (NLDB_ERROR_KEY_NOT_FOUND, None, n)"
    and get_present_law: "rep w h kl ys \<Longrightarrow> describes_key key k \<Longrightarrow> length k = kl \<Longrightarrow> map_of ys k = Some v \<Longrightarrow> v \<noteq> [] \<Longrightarrow>
      \<exists>n. pl_table_get pl w h key False = Some (NLDB_OK, Some (the_value v), n)"
    and rep_key_length: "rep w h kl ys \<Longrightarrow> kl < 2 ^ 16"
begin

lemma op_law:
  assumes "rep w h kl ys" "op_ok kl cap p ys" "value_ok p"
  obtains w' where "plugin_op pl h p w = Some (NLDB_OK, w')" "rep w' h kl (apply_op p ys)" "frame rep h w w'"
proof (cases p)
  case (Put k v)
  then show ?thesis
    using put_law [OF assms(1), of "the_key k" k "the_value v" v] describes_the_key [of k] describes_the_value [of v]
      rep_key_length [OF assms(1)] assms(2,3) that by auto
next
  case (Del k)
  then show ?thesis
    using del_law [OF assms(1), of "the_key k" k] describes_the_key [of k] rep_key_length [OF assms(1)] assms(2) that by auto
qed

lemma ops_law:
  "rep w h kl ys \<Longrightarrow> ops_ok kl cap ps ys \<Longrightarrow> list_all value_ok ps \<Longrightarrow>
     \<exists>w'. plugin_ops pl h ps w = Some w' \<and> rep w' h kl (fold apply_op ps ys) \<and> frame rep h w w'"
proof (induction ps arbitrary: w ys)
  case (Cons p ps)
  obtain w1 where w1: "plugin_op pl h p w = Some (NLDB_OK, w1)" "rep w1 h kl (apply_op p ys)" "frame rep h w w1"
    using op_law [OF Cons.prems(1), of p] Cons.prems(2,3) by auto
  then show ?case using Cons.IH [OF w1(2)] Cons.prems(2,3) by (auto simp: frame_def)
qed (simp add: frame_def)

text \<open>What a client reads after any permitted sequence of updates: the value of the last update of the key.\<close>

lemma get_after_ops:
  assumes "rep w h kl ys" "ops_ok kl cap ps ys" "list_all value_ok ps" "length k = kl"
  shows "\<exists>w'. plugin_ops pl h ps w = Some w' \<and>
     (case history ps (map_of ys) k of
        None \<Rightarrow> \<exists>n. pl_table_get pl w' h (the_key k) False = Some (NLDB_ERROR_KEY_NOT_FOUND, None, n)
      | Some v \<Rightarrow> v = [] \<or> (\<exists>n. pl_table_get pl w' h (the_key k) False = Some (NLDB_OK, Some (the_value v), n)))"
proof -
  obtain w' where w': "plugin_ops pl h ps w = Some w'" "rep w' h kl (fold apply_op ps ys)"
    using ops_law [OF assms(1-3)] by blast
  have d: "describes_key (the_key k) k" using rep_key_length [OF assms(1)] assms(4) by (intro describes_the_key) simp
  show ?thesis
    using w'(1) get_absent_law [OF w'(2) d assms(4)] get_present_law [OF w'(2) d assms(4)]
    by (intro exI [of _ w']) (auto simp: map_of_fold_apply_op split: option.split)
qed

end

text \<open>
  A plugin that also knows the order of its keys: it reports the order of a key with its value, finds a pair by its order and counts the pairs.
\<close>

lemma nth_sorted_keys:
  fixes ys :: "(key \<times> 'v) list"
  assumes "sorted_keys ys" "i < length ys" "ys ! i = (k, v)"
  shows "map_of ys k = Some v" "rank_le k ys = Suc i"
proof -
  have d: "distinct (map fst ys)" by (rule sorted_keys_distinct [OF assms(1)])
  show "map_of ys k = Some v" using d nth_mem [OF assms(2)] assms(3) by simp
  have "k \<in> fst ` set ys" using nth_mem [OF assms(2)] assms(3) by force
  then have r: "0 < rank_le k ys" "fst (ys ! (rank_le k ys - 1)) = k" using rank_le_last [OF assms(1)] by auto
  then have "rank_le k ys - 1 = i"
    using nth_eq_iff_index_eq [OF d, of "rank_le k ys - 1" i] rank_le_length [of k ys] assms(2,3) by simp
  then show "rank_le k ys = Suc i" using r(1) by simp
qed

locale ranked_plugin = table_plugin pl cap rep
  for pl :: "'w nldb_plugin_t" and cap :: nat and rep :: "'w \<Rightarrow> ptr \<Rightarrow> nat \<Rightarrow> table_content \<Rightarrow> bool" +
  assumes get_absent_order: "rep w h kl ys \<Longrightarrow> describes_key key k \<Longrightarrow> length k = kl \<Longrightarrow> map_of ys k = None \<Longrightarrow>
      \<exists>n. pl_table_get pl w h key True = Some (NLDB_ERROR_KEY_NOT_FOUND, None, n)"
    and get_present_order: "rep w h kl ys \<Longrightarrow> describes_key key k \<Longrightarrow> length k = kl \<Longrightarrow> map_of ys k = Some v \<Longrightarrow> v \<noteq> [] \<Longrightarrow>
      pl_table_get pl w h key True = Some (NLDB_OK, Some (the_value v), Some (int (rank_le k ys)))"
    and order_outside: "rep w h kl ys \<Longrightarrow> \<not> (1 \<le> j \<and> j \<le> int (length ys)) \<Longrightarrow>
      pl_table_get_by_order pl w h j = Some (NLDB_ERROR_KEY_NOT_FOUND, None)"
    and order_inside: "rep w h kl ys \<Longrightarrow> i < length ys \<Longrightarrow> ys ! i = (k, v) \<Longrightarrow> v \<noteq> [] \<Longrightarrow>
      pl_table_get_by_order pl w h (int i + 1) = Some (NLDB_OK, Some (the_key k, the_value v))"
    and stat_law: "rep w h kl ys \<Longrightarrow> pl_table_stat pl w h = Some (NLDB_OK, Some (int (length ys)))"
    and rep_sorted: "rep w h kl ys \<Longrightarrow> sorted_keys ys \<and> (\<forall>e\<in>set ys. length (fst e) = kl)"
begin

lemma get_present_any:
  assumes "rep w h kl ys" "describes_key key k" "length k = kl" "map_of ys k = Some v" "v \<noteq> []"
  shows "\<exists>n. pl_table_get pl w h key want = Some (NLDB_OK, Some (the_value v), n)"
  using get_present_law [OF assms] get_present_order [OF assms] by (cases want) auto

lemma get_absent_any:
  assumes "rep w h kl ys" "describes_key key k" "length k = kl" "map_of ys k = None"
  shows "\<exists>n. pl_table_get pl w h key want = Some (NLDB_ERROR_KEY_NOT_FOUND, None, n)"
  using get_absent_law [OF assms] get_absent_order [OF assms] by (cases want) auto

lemma get_any_after_ops:
  assumes "rep w h kl ys" "ops_ok kl cap ps ys" "list_all value_ok ps" "length k = kl"
  shows "\<exists>w'. plugin_ops pl h ps w = Some w' \<and> rep w' h kl (fold apply_op ps ys) \<and>
     (case history ps (map_of ys) k of
        None \<Rightarrow> \<exists>n. pl_table_get pl w' h (the_key k) want = Some (NLDB_ERROR_KEY_NOT_FOUND, None, n)
      | Some v \<Rightarrow> v = [] \<or> (\<exists>n. pl_table_get pl w' h (the_key k) want = Some (NLDB_OK, Some (the_value v), n)))"
proof -
  obtain w' where w': "plugin_ops pl h ps w = Some w'" "rep w' h kl (fold apply_op ps ys)"
    using ops_law [OF assms(1-3)] by blast
  have d: "describes_key (the_key k) k" using rep_key_length [OF assms(1)] assms(4) by (intro describes_the_key) simp
  show ?thesis
    using w' get_absent_any [OF w'(2) d assms(4)] get_present_any [OF w'(2) d assms(4)]
    by (intro exI [of _ w']) (auto simp: map_of_fold_apply_op split: option.split)
qed

lemma order_roundtrip:
  assumes rep: "rep w h kl ys" and i: "i < length ys" "ys ! i = (k, v)" "v \<noteq> []"
  shows "pl_table_get pl w h (the_key k) True = Some (NLDB_OK, Some (the_value v), Some (int i + 1))"
    "pl_table_get_by_order pl w h (int i + 1) = Some (NLDB_OK, Some (the_key k, the_value v))"
proof -
  have len: "length k = kl" using rep_sorted [OF rep] nth_mem [OF i(1)] i(2) by fastforce
  then have d: "describes_key (the_key k) k" using rep_key_length [OF rep] by (intro describes_the_key) simp
  have m: "map_of ys k = Some v" "rank_le k ys = Suc i" using nth_sorted_keys [OF _ i(1,2)] rep_sorted [OF rep] by auto
  show "pl_table_get pl w h (the_key k) True = Some (NLDB_OK, Some (the_value v), Some (int i + 1))"
    using get_present_order [OF rep d len m(1) i(3)] m(2) by simp
  show "pl_table_get_by_order pl w h (int i + 1) = Some (NLDB_OK, Some (the_key k, the_value v))" by (rule order_inside [OF rep i])
qed

end

section \<open>The array tree plugin\<close>

definition at_rep :: "('l, 't) world \<Rightarrow> ptr \<Rightarrow> nat \<Rightarrow> table_content \<Rightarrow> bool" where
  "at_rep w h kl ys \<longleftrightarrow> (\<exists>ctx. w_tables w h = Some ctx \<and> table_rep kl ctx ys)"

lemma at_rep_update:
  assumes "table_rep kl ctx ys"
  shows "at_rep (w\<lparr>w_tables := (w_tables w)(h \<mapsto> ctx)\<rparr>) h kl ys"
    and "frame at_rep h w (w\<lparr>w_tables := (w_tables w)(h \<mapsto> ctx)\<rparr>)"
  using assms by (auto simp: at_rep_def frame_def)

lemma table_rep_sorted:
  assumes "table_rep kl ctx ys"
  shows "sorted_keys ys \<and> (\<forall>e\<in>set ys. length (fst e) = kl)"
proof (cases "ys = []")
  case False
  then have live: "live_rep (tree_rep 64 kl) kl ctx ys" using assms by (auto simp: table_rep_of_def)
  obtain pool loc where "tree_rep 64 kl (ctx_tree ctx) (located loc ys)" by (rule live_repE [OF live])
  then show ?thesis using tree_rep_sorted live_repD(3) [OF live] by (fastforce simp: comp_def)
qed simp

interpretation at: ranked_plugin "plugin_array_tree garbage" "2 ^ 31 - 1" at_rep
  for garbage
proof unfold_locales
  fix w :: "('l, 't) world" and h kl ys
  assume rep: "at_rep w h kl ys"
  obtain ctx where ctx: "w_tables w h = Some ctx" "table_rep kl ctx ys" using rep by (auto simp: at_rep_def)
  then show "kl < 2 ^ 16" by (simp add: table_rep_of_def)
  fix key and k v :: "byte list" and want
  assume key: "describes_key key k" "length k = kl"
  note same = at_table_get_del_described [OF key(1) ctx(2) key(2)]
  let ?pl = "plugin_array_tree garbage"
  show "\<exists>w'. pl_table_put ?pl w h key val = Some (NLDB_OK, w') \<and> at_rep w' h kl (ord_put k v ys) \<and> frame at_rep h w w'"
    if vl: "describes_value val v" "length ys < 2 ^ 31 - 1" for val
  proof -
    have "length v < 2 ^ 16" using vl(1) by (simp add: describes_value_def)
    then obtain ctx' where c: "at_table_put ctx (the_key k) (the_value v) = Some (NLDB_OK, ctx')" "table_rep kl ctx' (ord_put k v ys)"
      using at_table_put_spec [OF ctx(2) key(2) _ vl(2)] by blast
    then show ?thesis
      using ctx(1) at_rep_update(1) [OF c(2), of w h] at_rep_update(2) [OF c(2), of h w] at_table_put_described [OF key(1) vl(1)]
      by (simp add: plugin_array_tree_def atw_table_put_def)
  qed
  show "\<exists>w'. pl_table_del ?pl w h key = Some (NLDB_OK, w') \<and> at_rep w' h kl (ord_del k ys) \<and> frame at_rep h w w'"
    if present: "map_of ys k \<noteq> None"
  proof -
    obtain ctx' where c: "at_table_del ctx (the_key k) = Some (NLDB_OK, ctx')" "table_rep kl ctx' (ord_del k ys)"
      using at_table_del_spec [OF ctx(2) key(2)] present by blast
    then show ?thesis
      using ctx(1) at_rep_update(1) [OF c(2), of w h] at_rep_update(2) [OF c(2), of h w] same(2)
      by (simp add: plugin_array_tree_def atw_table_del_def)
  qed
  have absent: "\<exists>n. pl_table_get ?pl w h key want = Some (NLDB_ERROR_KEY_NOT_FOUND, None, n)" if "map_of ys k = None" for want
    using at_table_get_spec(1) [OF ctx(2) key(2) that] ctx(1) same(1) by (simp add: plugin_array_tree_def atw_table_get_def)
  have present: "pl_table_get ?pl w h key want = Some (NLDB_OK, Some (the_value v), if want then Some (int (rank_le k ys)) else None)"
    if "map_of ys k = Some v" "v \<noteq> []" for want
    using at_table_get_spec(2) [OF ctx(2) key(2) that] ctx(1) same(1) by (simp add: plugin_array_tree_def atw_table_get_def)
  show "\<exists>n. pl_table_get ?pl w h key False = Some (NLDB_ERROR_KEY_NOT_FOUND, None, n)"
      "\<exists>n. pl_table_get ?pl w h key True = Some (NLDB_ERROR_KEY_NOT_FOUND, None, n)" if "map_of ys k = None"
    by (rule absent [OF that])+
  show "\<exists>n. pl_table_get ?pl w h key False = Some (NLDB_OK, Some (the_value v), n)"
      "pl_table_get ?pl w h key True = Some (NLDB_OK, Some (the_value v), Some (int (rank_le k ys)))" if "map_of ys k = Some v" "v \<noteq> []"
    using present [OF that] by simp_all
next
  fix w :: "('l, 't) world" and h kl ys
  assume rep: "at_rep w h kl ys"
  obtain ctx where ctx: "w_tables w h = Some ctx" "table_rep kl ctx ys" using rep by (auto simp: at_rep_def)
  let ?pl = "plugin_array_tree garbage"
  show "pl_table_get_by_order ?pl w h j = Some (NLDB_ERROR_KEY_NOT_FOUND, None)" if "\<not> (1 \<le> j \<and> j \<le> int (length ys))" for j
    using at_table_get_by_order_spec(1) [OF ctx(2) that] ctx(1) by (simp add: plugin_array_tree_def atw_table_get_by_order_def)
  show "pl_table_get_by_order ?pl w h (int i + 1) = Some (NLDB_OK, Some (the_key k, the_value v))"
    if "i < length ys" "ys ! i = (k, v)" "v \<noteq> []" for i k v
    using at_table_get_by_order_spec(2) [OF ctx(2), of "int i + 1" k v] that ctx(1)
    by (simp add: plugin_array_tree_def atw_table_get_by_order_def)
  show "pl_table_stat ?pl w h = Some (NLDB_OK, Some (int (length ys)))"
    using at_table_stat_spec [OF ctx(2)] ctx(1) by (simp add: plugin_array_tree_def atw_table_stat_def)
  show "sorted_keys ys \<and> (\<forall>e\<in>set ys. length (fst e) = kl)" by (rule table_rep_sorted [OF ctx(2)])
qed

text \<open>A table that was just opened is empty, for every key length that the tree supports.\<close>

lemma at_rep_open:
  assumes "0 < kl" "3 * kl \<le> KEY_SPACE_SIZE"
  shows "\<exists>w'. pl_table_open (plugin_array_tree garbage) w desc = Some (NLDB_OK, w_next w, w') \<and> at_rep w' (w_next w) kl [] \<and>
     frame at_rep (w_next w) w w'"
  using assms at_rep_update [of kl table_context_new "[]"]
  by (auto simp: plugin_array_tree_def atw_table_open_def at_table_open_def at_rep_def table_rep_of_def frame_def Let_def)

end
