(* ===== verification/Plugin_Cursors.thy ===== *)
theory Plugin_Cursors
  imports Plugin_Tables
begin

text \<open>
  Cursors of the array tree plugin. On a table whose tree has no empty leaf beside others, repeated \<^verbatim>\<open>cursor_fetch\<close> after a seek
  delivers the pairs of the table from the sought position on, each with its order.
\<close>

text \<open>Fetching until the cursor reports an error or the end.\<close>

partial_function (option) at_cursor_scan ::
    "table_context \<Rightarrow> cursor_context \<Rightarrow> (nldb_key_t \<times> nldb_value_t option \<times> int) list option" where
  "at_cursor_scan ctx cur =
     do { (rc, item, cur') \<leftarrow> at_cursor_fetch ctx cur True;
          case item of None \<Rightarrow> Some []
          | Some x \<Rightarrow> do { xs \<leftarrow> at_cursor_scan ctx cur'; Some (x # xs) } }"

declare at_cursor_scan.simps [code]

definition cursor_item :: "table_content \<Rightarrow> nat \<Rightarrow> nldb_key_t \<times> nldb_value_t option \<times> int" where
  "cursor_item ys i = (the_key (fst (ys ! i)), Some (the_value (snd (ys ! i))), int i + 1)"

definition cursor_table :: "nat \<Rightarrow> table_context \<Rightarrow> table_content \<Rightarrow> level \<Rightarrow> bool" where
  "cursor_table kl ctx ys D \<longleftrightarrow> live_rep (\<lambda>t xs. (\<exists>U. tree_inv 64 kl t D U) \<and> xs = content t D \<and> filled t D) kl ctx ys \<and>
     3 * kl \<le> 64 \<and> (\<forall>e\<in>set ys. snd e \<noteq> [])"

lemma cursor_tableE:
  assumes "cursor_table kl ctx ys D"
  obtains pool loc U where "ctx_value_pool ctx = Some pool" "tree_inv 64 kl (ctx_tree ctx) D U"
    "content (ctx_tree ctx) D = located loc ys" "filled (ctx_tree ctx) D" "ctx_initialized ctx"
    "\<forall>i<length ys. unpack_value_object pool (loc (fst (ys ! i))) = Some (the_value (snd (ys ! i)))"
    "\<forall>i<length ys. \<lparr>key_data = fst (ys ! i), key_len = ctx_key_length ctx\<rparr> = the_key (fst (ys ! i))"
proof -
  have live: "live_rep (\<lambda>t xs. (\<exists>U. tree_inv 64 kl t D U) \<and> xs = content t D \<and> filled t D) kl ctx ys"
    and ne: "\<forall>e\<in>set ys. snd e \<noteq> []" using assms by (auto simp: cursor_table_def)
  obtain pool loc where p: "ctx_value_pool ctx = Some pool" "stored pool loc ys"
      "(\<exists>U. tree_inv 64 kl (ctx_tree ctx) D U) \<and> located loc ys = content (ctx_tree ctx) D \<and> filled (ctx_tree ctx) D"
    by (rule live_repE [OF live])
  have "unpack_value_object pool (loc (fst (ys ! i))) = Some (the_value (snd (ys ! i)))" if "i < length ys" for i
    using unpack_value_object_spec [of pool "loc (fst (ys ! i))" "snd (ys ! i)"] p(2) ne nth_mem [OF that]
    by (fastforce simp: stored_def)
  moreover have "\<lparr>key_data = fst (ys ! i), key_len = ctx_key_length ctx\<rparr> = the_key (fst (ys ! i))" if "i < length ys" for i
    using live_repD(2) [OF live] live_repD(3) [OF live nth_mem [OF that]] by (simp add: the_key_def)
  ultimately show ?thesis using that [OF p(1) _ _ _ live_repD(1) [OF live]] p(3) by (metis (no_types, lifting))
qed

lemma dense_cursor_table:
  assumes "dense_table_rep kl ctx ys" "ys \<noteq> []" "\<forall>e\<in>set ys. snd e \<noteq> []"
  obtains D where "cursor_table kl ctx ys D"
proof -
  have live: "live_rep (tree_filled_rep 64 kl) kl ctx ys" "3 * kl \<le> 64" using assms(1,2) by (auto simp: table_rep_of_def)
  obtain pool loc where p: "ctx_value_pool ctx = Some pool" "pool_ok pool"
      "tree_filled_rep 64 kl (ctx_tree ctx) (located loc ys)" "stored pool loc ys"
    by (rule live_repE [OF live(1)])
  then obtain D U where "tree_inv 64 kl (ctx_tree ctx) D U" "located loc ys = content (ctx_tree ctx) D" "filled (ctx_tree ctx) D"
    unfolding tree_filled_rep_def by blast
  then have "live_rep (\<lambda>t xs. (\<exists>U. tree_inv 64 kl t D U) \<and> xs = content t D \<and> filled t D) kl ctx ys"
    using live_repI [of ctx kl ys pool "\<lambda>t xs. (\<exists>U. tree_inv 64 kl t D U) \<and> xs = content t D \<and> filled t D" loc] live_repD [OF live(1)] p(1,2,4)
    by blast
  then show ?thesis using that live(2) assms(3) by (simp add: cursor_table_def)
qed

section \<open>Steps\<close>

lemma cursor_fetch_forward:
  assumes tab: "cursor_table kl ctx ys D" and cur: "cur_dir cur = NLDB_CURSOR_FORWARD" "cur_key_order cur = int i + 1"
    "fwd_at kl (ctx_tree ctx) D (cur_iter cur) i"
  shows "i < length ys \<Longrightarrow> \<exists>it. at_cursor_fetch ctx cur True =
           Some (NLDB_OK, Some (cursor_item ys i), cur\<lparr>cur_iter := it, cur_key_order := int i + 2\<rparr>) \<and>
           fwd_at kl (ctx_tree ctx) D it (Suc i)"
    and "i = length ys \<Longrightarrow> \<exists>cur'. at_cursor_fetch ctx cur True = Some (NLDB_ERROR_END_OF_ITERATION, None, cur')"
proof -
  obtain pool loc U where t: "ctx_value_pool ctx = Some pool" "tree_inv 64 kl (ctx_tree ctx) D U"
      "content (ctx_tree ctx) D = located loc ys" "filled (ctx_tree ctx) D" "ctx_initialized ctx"
    and u: "\<forall>i<length ys. unpack_value_object pool (loc (fst (ys ! i))) = Some (the_value (snd (ys ! i)))"
      "\<forall>i<length ys. \<lparr>key_data = fst (ys ! i), key_len = ctx_key_length ctx\<rparr> = the_key (fst (ys ! i))"
    by (rule cursor_tableE [OF tab])
  { assume i: "i < length ys"
    then obtain it where it: "tree_move_forward (ctx_tree ctx) (cur_iter cur) =
        Some (NLDB_OK, Some (fst (ys ! i), loc (fst (ys ! i))), it)" "fwd_at kl (ctx_tree ctx) D it (Suc i)"
      using tree_move_forward_step [OF t(2,4) cur(3)] by (auto simp: t(3))
    then show "\<exists>it. at_cursor_fetch ctx cur True =
           Some (NLDB_OK, Some (cursor_item ys i), cur\<lparr>cur_iter := it, cur_key_order := int i + 2\<rparr>) \<and>
           fwd_at kl (ctx_tree ctx) D it (Suc i)"
      using cur t u i by (intro exI [of _ it]) (simp add: at_cursor_fetch_def cursor_item_def) }
  { assume "i = length ys"
    then show "\<exists>cur'. at_cursor_fetch ctx cur True = Some (NLDB_ERROR_END_OF_ITERATION, None, cur')"
      using tree_move_forward_end [OF t(2,4), of "cur_iter cur"] cur t by (auto simp: at_cursor_fetch_def) }
qed

lemma cursor_fetch_backward:
  assumes tab: "cursor_table kl ctx ys D" and cur: "cur_dir cur = NLDB_CURSOR_BACKWARD" "cur_key_order cur = int i"
    "bwd_at kl (ctx_tree ctx) D (cur_iter cur) i" and len: "i \<le> length ys"
  shows "i = Suc j \<Longrightarrow> \<exists>it. at_cursor_fetch ctx cur True =
           Some (NLDB_OK, Some (cursor_item ys j), cur\<lparr>cur_iter := it, cur_key_order := int j\<rparr>) \<and>
           bwd_at kl (ctx_tree ctx) D it j"
    and "i = 0 \<Longrightarrow> \<exists>cur'. at_cursor_fetch ctx cur True = Some (NLDB_ERROR_END_OF_ITERATION, None, cur')"
proof -
  obtain pool loc U where t: "ctx_value_pool ctx = Some pool" "tree_inv 64 kl (ctx_tree ctx) D U"
      "content (ctx_tree ctx) D = located loc ys" "filled (ctx_tree ctx) D" "ctx_initialized ctx"
    and u: "\<forall>i<length ys. unpack_value_object pool (loc (fst (ys ! i))) = Some (the_value (snd (ys ! i)))"
      "\<forall>i<length ys. \<lparr>key_data = fst (ys ! i), key_len = ctx_key_length ctx\<rparr> = the_key (fst (ys ! i))"
    by (rule cursor_tableE [OF tab])
  { assume i: "i = Suc j"
    then have j: "j < length ys" using len by simp
    then obtain it where it: "tree_move_backward (ctx_tree ctx) (cur_iter cur) =
        Some (NLDB_OK, Some (fst (ys ! j), loc (fst (ys ! j))), it)" "bwd_at kl (ctx_tree ctx) D it j"
      using tree_move_backward_step [OF t(2,4) cur(3) [unfolded i]] by (auto simp: t(3))
    then show "\<exists>it. at_cursor_fetch ctx cur True =
           Some (NLDB_OK, Some (cursor_item ys j), cur\<lparr>cur_iter := it, cur_key_order := int j\<rparr>) \<and>
           bwd_at kl (ctx_tree ctx) D it j"
      using cur t u j i by (auto simp: at_cursor_fetch_def cursor_item_def) }
  { assume "i = 0"
    then show "\<exists>cur'. at_cursor_fetch ctx cur True = Some (NLDB_ERROR_END_OF_ITERATION, None, cur')"
      using tree_move_backward_end [OF t(2,4), of "cur_iter cur"] cur t by (auto simp: at_cursor_fetch_def) }
qed

section \<open>Scans\<close>

lemma cursor_scan_forward:
  assumes tab: "cursor_table kl ctx ys D" and "i \<le> length ys" "cur_dir cur = NLDB_CURSOR_FORWARD" "cur_key_order cur = int i + 1"
    "fwd_at kl (ctx_tree ctx) D (cur_iter cur) i"
  shows "at_cursor_scan ctx cur = Some (map (cursor_item ys) [i..<length ys])"
  using assms(2-)
proof (induction i arbitrary: cur rule: inc_induct)
  case base
  then show ?case using cursor_fetch_forward(2) [OF tab base] by (subst at_cursor_scan.simps) auto
next
  case (step i)
  obtain it where it: "at_cursor_fetch ctx cur True =
      Some (NLDB_OK, Some (cursor_item ys i), cur\<lparr>cur_iter := it, cur_key_order := int i + 2\<rparr>)" "fwd_at kl (ctx_tree ctx) D it (Suc i)"
    using cursor_fetch_forward(1) [OF tab step.prems step.hyps(2)] by blast
  have "at_cursor_scan ctx (cur\<lparr>cur_iter := it, cur_key_order := int i + 2\<rparr>) = Some (map (cursor_item ys) [Suc i..<length ys])"
    using step.prems(1) it(2) by (intro step.IH) simp_all
  then show ?case using it(1) step.hyps(2) by (subst at_cursor_scan.simps) (simp add: upt_conv_Cons)
qed

lemma cursor_scan_backward:
  assumes tab: "cursor_table kl ctx ys D" and "i \<le> length ys" "cur_dir cur = NLDB_CURSOR_BACKWARD" "cur_key_order cur = int i"
    "bwd_at kl (ctx_tree ctx) D (cur_iter cur) i"
  shows "at_cursor_scan ctx cur = Some (map (cursor_item ys) (rev [0..<i]))"
  using assms(2-)
proof (induction i arbitrary: cur)
  case 0
  then show ?case using cursor_fetch_backward(2) [OF tab 0(2-4,1)] by (subst at_cursor_scan.simps) auto
next
  case (Suc j)
  obtain it where it: "at_cursor_fetch ctx cur True =
      Some (NLDB_OK, Some (cursor_item ys j), cur\<lparr>cur_iter := it, cur_key_order := int j\<rparr>)" "bwd_at kl (ctx_tree ctx) D it j"
    using cursor_fetch_backward(1) [OF tab Suc.prems(2-4,1), of j] by blast
  have "at_cursor_scan ctx (cur\<lparr>cur_iter := it, cur_key_order := int j\<rparr>) = Some (map (cursor_item ys) (rev [0..<j]))"
    using Suc.prems it(2) by (intro Suc.IH) simp_all
  then show ?case using it(1) by (subst at_cursor_scan.simps) simp
qed

lemma cursor_seek_order_scan:
  assumes tab: "cursor_table kl ctx ys D" and m: "1 \<le> m" "m \<le> length ys"
  shows "\<exists>cur'. at_cursor_seek_order ctx cur NLDB_CURSOR_FORWARD (int m) = Some (NLDB_OK, cur') \<and>
           at_cursor_scan ctx cur' = Some (map (cursor_item ys) [m - 1..<length ys])"
    and "\<exists>cur'. at_cursor_seek_order ctx cur NLDB_CURSOR_BACKWARD (int m) = Some (NLDB_OK, cur') \<and>
           at_cursor_scan ctx cur' = Some (map (cursor_item ys) (rev [0..<m]))"
proof -
  obtain pool loc U where t: "tree_inv 64 kl (ctx_tree ctx) D U" "content (ctx_tree ctx) D = located loc ys" "ctx_initialized ctx"
    by (rule cursor_tableE [OF tab])
  have m': "m \<le> length (content (ctx_tree ctx) D)" using m(2) t(2) by simp
  obtain f b where f: "tree_seek_forward_order (ctx_tree ctx) (int m) (cur_iter cur) = Some (NLDB_OK, f)" "fwd_at kl (ctx_tree ctx) D f (m - 1)"
    and b: "tree_seek_backward_order (ctx_tree ctx) (int m) (cur_iter cur) = Some (NLDB_OK, b)" "bwd_at kl (ctx_tree ctx) D b m"
    using tree_seek_order_spec [OF t(1) m(1) m'] by blast
  let ?f = "cur\<lparr>cur_iter := f, cur_dir := NLDB_CURSOR_FORWARD, cur_key_order := int m\<rparr>"
  let ?b = "cur\<lparr>cur_iter := b, cur_dir := NLDB_CURSOR_BACKWARD, cur_key_order := int m\<rparr>"
  have "at_cursor_scan ctx ?f = Some (map (cursor_item ys) [m - 1..<length ys])"
    by (rule cursor_scan_forward [OF tab]) (use m f(2) in simp_all)
  then show "\<exists>cur'. at_cursor_seek_order ctx cur NLDB_CURSOR_FORWARD (int m) = Some (NLDB_OK, cur') \<and>
           at_cursor_scan ctx cur' = Some (map (cursor_item ys) [m - 1..<length ys])"
    using f(1) t(3) by (auto simp: at_cursor_seek_order_def)
  have "at_cursor_scan ctx ?b = Some (map (cursor_item ys) (rev [0..<m]))"
    by (rule cursor_scan_backward [OF tab]) (use m b(2) in simp_all)
  then show "\<exists>cur'. at_cursor_seek_order ctx cur NLDB_CURSOR_BACKWARD (int m) = Some (NLDB_OK, cur') \<and>
           at_cursor_scan ctx cur' = Some (map (cursor_item ys) (rev [0..<m]))"
    using b(1) t(3) by (auto simp: at_cursor_seek_order_def)
qed

lemma cursor_seek_key_scan:
  assumes tab: "cursor_table kl ctx ys D" and k: "map_of ys k = Some v" "length k = kl"
  shows "\<exists>cur'. at_cursor_seek ctx cur NLDB_CURSOR_FORWARD (the_key k) = Some (NLDB_OK, cur') \<and>
           at_cursor_scan ctx cur' = Some (map (cursor_item ys) [rank_lt k ys..<length ys])"
    and "\<exists>cur'. at_cursor_seek ctx cur NLDB_CURSOR_BACKWARD (the_key k) = Some (NLDB_OK, cur') \<and>
           at_cursor_scan ctx cur' = Some (map (cursor_item ys) (rev [0..<Suc (rank_lt k ys)]))"
proof -
  obtain pool loc U where t: "tree_inv 64 kl (ctx_tree ctx) D U" "content (ctx_tree ctx) D = located loc ys" "ctx_initialized ctx"
    by (rule cursor_tableE [OF tab])
  have tr: "tree_rep 64 kl (ctx_tree ctx) (located loc ys)" using t(1,2) unfolding tree_rep_def by metis
  have rank: "rank_le k (located loc ys) = rank_le k ys" "rank_lt k (located loc ys) = rank_lt k ys"
    by (simp_all add: rank_le_def rank_lt_def filter_map comp_def)
  have kin: "k \<in> fst ` set ys" using k(1) by (metis domI dom_map_of_conv_image_fst)
  have sorted: "sorted_keys ys" using tree_rep_sorted [OF tr] by (simp add: comp_def)
  have r: "rank_le k ys = Suc (rank_lt k ys)" using rank_le_present [OF sorted kin] by simp
  have "rank_lt k ys < length ys" using r rank_le_length [of k ys] by simp
  have live: "ctx_key_length ctx = of_nat kl" "key_bytes ctx (the_key k) = Some k"
    using tab live_repD(2) key_bytes_the_key k(2) unfolding cursor_table_def by blast+
  have get: "tree_get (ctx_tree ctx) k True = Some (loc k, int (rank_lt k ys) + 1)"
    using tree_get_spec [OF tr k(2), of True] k(1) by (simp add: map_of_located rank r)
  obtain f b where f: "tree_seek_forward (ctx_tree ctx) k = Some f" "fwd_at kl (ctx_tree ctx) D f (rank_lt k ys)"
    and b: "tree_seek_backward (ctx_tree ctx) k = Some b" "bwd_at kl (ctx_tree ctx) D b (Suc (rank_lt k ys))"
    using tree_seek_forward_spec [OF t(1) k(2)] by (auto simp: t(2) rank r)
  let ?f = "cur\<lparr>cur_iter := f, cur_dir := NLDB_CURSOR_FORWARD, cur_key_order := int (rank_lt k ys) + 1\<rparr>"
  let ?b = "cur\<lparr>cur_iter := b, cur_dir := NLDB_CURSOR_BACKWARD, cur_key_order := int (rank_lt k ys) + 1\<rparr>"
  have "at_cursor_scan ctx ?f = Some (map (cursor_item ys) [rank_lt k ys..<length ys])"
    by (rule cursor_scan_forward [OF tab]) (use rank_lt_length f(2) in simp_all)
  then show "\<exists>cur'. at_cursor_seek ctx cur NLDB_CURSOR_FORWARD (the_key k) = Some (NLDB_OK, cur') \<and>
           at_cursor_scan ctx cur' = Some (map (cursor_item ys) [rank_lt k ys..<length ys])"
    using f(1) t(3) live get k(2) by (simp add: at_cursor_seek_def check_key_length_def)
  have "at_cursor_scan ctx ?b = Some (map (cursor_item ys) (rev [0..<Suc (rank_lt k ys)]))"
    by (rule cursor_scan_backward [OF tab]) (use \<open>rank_lt k ys < length ys\<close> b(2) in simp_all)
  then show "\<exists>cur'. at_cursor_seek ctx cur NLDB_CURSOR_BACKWARD (the_key k) = Some (NLDB_OK, cur') \<and>
           at_cursor_scan ctx cur' = Some (map (cursor_item ys) (rev [0..<Suc (rank_lt k ys)]))"
    using b(1) t(3) live get k(2) by (simp add: at_cursor_seek_def check_key_length_def)
qed

text \<open>After a seek to an absent key the order of the cursor is too small.\<close>

lemma cursor_seek_absent:
  assumes tab: "cursor_table kl ctx ys D" and k: "map_of ys k = None" "length k = kl" and more: "rank_lt k ys < length ys"
  shows "\<exists>cur' cur'' n. at_cursor_seek ctx cur NLDB_CURSOR_FORWARD (the_key k) = Some (NLDB_OK, cur') \<and>
     at_cursor_fetch ctx cur' True =
       Some (NLDB_OK, Some (the_key (fst (ys ! rank_lt k ys)), Some (the_value (snd (ys ! rank_lt k ys))), int n), cur'') \<and>
     n \<le> rank_lt k ys"
proof -
  obtain pool loc U where t: "ctx_value_pool ctx = Some pool" "tree_inv 64 kl (ctx_tree ctx) D U"
      "content (ctx_tree ctx) D = located loc ys" "filled (ctx_tree ctx) D" "ctx_initialized ctx"
    and u: "\<forall>i<length ys. unpack_value_object pool (loc (fst (ys ! i))) = Some (the_value (snd (ys ! i)))"
      "\<forall>i<length ys. \<lparr>key_data = fst (ys ! i), key_len = ctx_key_length ctx\<rparr> = the_key (fst (ys ! i))"
    by (rule cursor_tableE [OF tab])
  have tr: "tree_rep 64 kl (ctx_tree ctx) (located loc ys)" using t(2,3) unfolding tree_rep_def by metis
  have rank: "rank_lt k (located loc ys) = rank_lt k ys" by (simp add: rank_lt_def filter_map comp_def)
  have live: "ctx_key_length ctx = of_nat kl" "key_bytes ctx (the_key k) = Some k"
    using tab live_repD(2) key_bytes_the_key k(2) unfolding cursor_table_def by blast+
  obtain n where n: "tree_get (ctx_tree ctx) k True = Some (NULL, int n)" "n \<le> rank_lt k ys"
    using tree_get_absent_order [OF tr k(2)] k(1) rank by (auto simp: map_of_located)
  obtain f where f: "tree_seek_forward (ctx_tree ctx) k = Some f" "fwd_at kl (ctx_tree ctx) D f (rank_lt k ys)"
    using tree_seek_forward_spec(1) [OF t(2) k(2)] by (auto simp: t(3) rank)
  obtain it where it: "tree_move_forward (ctx_tree ctx) f =
      Some (NLDB_OK, Some (fst (ys ! rank_lt k ys), loc (fst (ys ! rank_lt k ys))), it)"
    using tree_move_forward_step [OF t(2,4) f(2)] more by (auto simp: t(3))
  let ?c = "cur\<lparr>cur_iter := f, cur_dir := NLDB_CURSOR_FORWARD, cur_key_order := int n\<rparr>"
  have "at_cursor_seek ctx cur NLDB_CURSOR_FORWARD (the_key k) = Some (NLDB_OK, ?c)"
    using f(1) t(5) live n(1) k(2) by (simp add: at_cursor_seek_def check_key_length_def)
  moreover have "\<exists>c. at_cursor_fetch ctx ?c True =
      Some (NLDB_OK, Some (the_key (fst (ys ! rank_lt k ys)), Some (the_value (snd (ys ! rank_lt k ys))), int n), c)"
    using it t u more by (simp add: at_cursor_fetch_def Let_def)
  ultimately show ?thesis using n(2) by blast
qed

end
