(* ===== verification/Plugin_Properties.thy ===== *)
theory Plugin_Properties
  imports Plugin_Contract Plugin_Cursors
begin

text \<open>
  What the volatile table plugin promises: it is an ordered map from byte strings of one length to byte strings, with ranks
  and cursors; and how it behaves outside of the contract.
\<close>

section \<open>Example\<close>

definition plugin_sample_ops :: "byte list table_op list" where
  "plugin_sample_ops = [Put [0, 4] [40], Put [0, 2] [20, 21], Put [0, 6] [60], Put [0, 2] [22]]"

lemma plugin_sample_ops_ok: "ops_ok 2 (2 ^ 31 - 1) plugin_sample_ops []" "list_all value_ok plugin_sample_ops"
  by (simp_all add: plugin_sample_ops_def ord_put_def)

fun put_all :: "byte list table_op list \<Rightarrow> table_context \<Rightarrow> table_context option" where
  "put_all (Put k v # ps) ctx = do { (rc, ctx') \<leftarrow> at_table_put ctx (the_key k) (the_value v); put_all ps ctx' }"
| "put_all _ ctx = Some ctx"

abbreviation plugin_sample_content :: table_content where
  "plugin_sample_content \<equiv> [([0, 2], [22]), ([0, 4], [40]), ([0, 6], [60])]"

lemma put_all_dense:
  "dense_table_rep kl ctx ys \<Longrightarrow> ops_ok kl (2 ^ 31 - 1) ps ys \<Longrightarrow> list_all value_ok ps \<Longrightarrow> \<forall>p\<in>set ps. \<exists>k v. p = Put k v \<Longrightarrow>
     \<exists>ctx'. put_all ps ctx = Some ctx' \<and> dense_table_rep kl ctx' (fold apply_op ps ys)"
proof (induction ps arbitrary: ctx ys)
  case (Cons p ps)
  then obtain k v where p: "p = Put k v" by auto
  obtain ctx1 where "at_table_put ctx (the_key k) (the_value v) = Some (NLDB_OK, ctx1)" "dense_table_rep kl ctx1 (ord_put k v ys)"
    using at_table_put_dense [OF Cons.prems(1), of k v] Cons.prems(2,3) p by auto
  then show ?case using Cons.IH [of ctx1 "ord_put k v ys"] Cons.prems p by simp
qed simp

lemma dense_table_rep_is_table_rep: "dense_table_rep kl ctx ys \<Longrightarrow> table_rep kl ctx ys"
proof -
  have "tree_filled_rep 64 kl t xs \<Longrightarrow> tree_rep 64 kl t xs" for t xs unfolding tree_filled_rep_def tree_rep_def by metis
  then have "live_rep (tree_filled_rep 64 kl) kl ctx ys \<Longrightarrow> live_rep (tree_rep 64 kl) kl ctx ys" unfolding live_rep_def by blast
  then show "dense_table_rep kl ctx ys \<Longrightarrow> table_rep kl ctx ys" by (auto simp: table_rep_of_def)
qed

lemma plugin_sample: "\<exists>ctx. put_all plugin_sample_ops table_context_new = Some ctx \<and> dense_table_rep 2 ctx plugin_sample_content"
proof -
  have "dense_table_rep 2 table_context_new []" by (simp add: table_rep_of_def)
  moreover have "\<forall>p\<in>set plugin_sample_ops. \<exists>k v. p = Put k v" by (simp add: plugin_sample_ops_def)
  moreover have "fold apply_op plugin_sample_ops [] = plugin_sample_content" by (simp add: plugin_sample_ops_def ord_put_def)
  ultimately show ?thesis using put_all_dense [of 2 table_context_new "[]" plugin_sample_ops] plugin_sample_ops_ok by auto
qed

section \<open>Properties\<close>

lemma at_get_empty:
  assumes "at_rep w h kl ys" "length k = kl" "map_of ys k = Some []"
  shows "pl_table_get (plugin_array_tree garbage) w h (the_key k) want = None"
  using assms at_table_get_spec(3) by (fastforce simp: at_rep_def plugin_array_tree_def atw_table_get_def)

text \<open>
  C4: a table that was just opened, updated by any permitted sequence of put and del through the virtual functions of the
  plugin, answers a lookup with the value of the last update of the key, and with an error code for a key that is not stored; the lookup of a
  key whose last value is empty does not return, because \<^verbatim>\<open>unpack_value_object\<close> asserts that the length is positive.
\<close>

theorem plugin_get_after_updates:
  assumes "0 < kl" "3 * kl \<le> KEY_SPACE_SIZE" "ops_ok kl (2 ^ 31 - 1) ps []" "list_all value_ok ps" "length k = kl"
  shows "\<exists>h w1 w2. pl_table_open (plugin_array_tree garbage) w desc = Some (NLDB_OK, h, w1) \<and>
     plugin_ops (plugin_array_tree garbage) h ps w1 = Some w2 \<and>
     (case history ps Map.empty k of
        None \<Rightarrow> \<exists>n. pl_table_get (plugin_array_tree garbage) w2 h (the_key k) want = Some (NLDB_ERROR_KEY_NOT_FOUND, None, n)
      | Some [] \<Rightarrow> pl_table_get (plugin_array_tree garbage) w2 h (the_key k) want = None
      | Some v \<Rightarrow> \<exists>n. pl_table_get (plugin_array_tree garbage) w2 h (the_key k) want = Some (NLDB_OK, Some (the_value v), n))"
proof -
  let ?pl = "plugin_array_tree garbage"
  obtain w1 where w1: "pl_table_open ?pl w desc = Some (NLDB_OK, w_next w, w1)" "at_rep w1 (w_next w) kl []"
    using at_rep_open [OF assms(1,2), of garbage w desc] by blast
  obtain w2 where w2: "plugin_ops ?pl (w_next w) ps w1 = Some w2" "at_rep w2 (w_next w) kl (fold apply_op ps [])"
      "case history ps Map.empty k of
        None \<Rightarrow> \<exists>n. pl_table_get ?pl w2 (w_next w) (the_key k) want = Some (NLDB_ERROR_KEY_NOT_FOUND, None, n)
      | Some v \<Rightarrow> v = [] \<or> (\<exists>n. pl_table_get ?pl w2 (w_next w) (the_key k) want = Some (NLDB_OK, Some (the_value v), n))"
    using at.get_any_after_ops [OF w1(2) assms(3,4,5), of garbage want] by auto
  have "map_of (fold apply_op ps []) k = history ps Map.empty k" by (simp add: map_of_fold_apply_op)
  then have "history ps Map.empty k = Some [] \<Longrightarrow> pl_table_get ?pl w2 (w_next w) (the_key k) want = None"
    using at_get_empty [OF w2(2) assms(5)] by simp
  then show ?thesis using w1(1) w2(1,3)
    by (intro exI [of _ "w_next w"] exI [of _ w1] exI [of _ w2]) (auto split: option.splits list.splits)
qed

theorem plugin_get_after_updates_witness:
  "\<forall>w :: (unit, unit) world. \<forall>garbage desc. \<exists>h w1 w2 n. pl_table_open (plugin_array_tree garbage) w desc = Some (NLDB_OK, h, w1) \<and>
     plugin_ops (plugin_array_tree garbage) h plugin_sample_ops w1 = Some w2 \<and>
     pl_table_get (plugin_array_tree garbage) w2 h (the_key [0, 2]) False = Some (NLDB_OK, Some (the_value [22]), n)"
proof (intro allI)
  fix w :: "(unit, unit) world" and garbage desc
  have h: "history plugin_sample_ops Map.empty [0, 2] = Some [22]" by (simp add: plugin_sample_ops_def)
  from plugin_get_after_updates [of 2 plugin_sample_ops "[0, 2]" garbage w desc False]
  show "\<exists>h w1 w2 n. pl_table_open (plugin_array_tree garbage) w desc = Some (NLDB_OK, h, w1) \<and>
     plugin_ops (plugin_array_tree garbage) h plugin_sample_ops w1 = Some w2 \<and>
     pl_table_get (plugin_array_tree garbage) w2 h (the_key [0, 2]) False = Some (NLDB_OK, Some (the_value [22]), n)"
    using plugin_sample_ops_ok h by auto
qed

text \<open>
  C18: ranks: the order that \<^verbatim>\<open>table_get\<close> reports for a key is its position in the table, counted from 1; \<^verbatim>\<open>table_get\<close> by that order gives key and
  value back; an order outside of the table is reported as not found; and \<^verbatim>\<open>table_stat\<close> gives the number of pairs.
\<close>

theorem plugin_order_roundtrip:
  assumes "at_rep w h kl ys" "i < length ys" "ys ! i = (k, v)" "v \<noteq> []" "\<not> (1 \<le> j \<and> j \<le> int (length ys))"
  shows "pl_table_get (plugin_array_tree garbage) w h (the_key k) True = Some (NLDB_OK, Some (the_value v), Some (int i + 1)) \<and>
     pl_table_get_by_order (plugin_array_tree garbage) w h (int i + 1) = Some (NLDB_OK, Some (the_key k, the_value v)) \<and>
     pl_table_get_by_order (plugin_array_tree garbage) w h j = Some (NLDB_ERROR_KEY_NOT_FOUND, None) \<and>
     pl_table_stat (plugin_array_tree garbage) w h = Some (NLDB_OK, Some (int (length ys)))"
  using at.order_roundtrip [OF assms(1-4)] at.order_outside [OF assms(1,5)] at.stat_law [OF assms(1)] by blast

theorem plugin_order_roundtrip_witness:
  "\<exists>ctx. \<exists>w :: (unit, unit) world. put_all plugin_sample_ops table_context_new = Some ctx \<and> w_tables w 7 = Some ctx \<and>
     (\<forall>garbage. pl_table_get (plugin_array_tree garbage) w 7 (the_key [0, 4]) True = Some (NLDB_OK, Some (the_value [40]), Some 2) \<and>
        pl_table_get_by_order (plugin_array_tree garbage) w 7 2 = Some (NLDB_OK, Some (the_key [0, 4], the_value [40])) \<and>
        pl_table_get_by_order (plugin_array_tree garbage) w 7 4 = Some (NLDB_ERROR_KEY_NOT_FOUND, None) \<and>
        pl_table_stat (plugin_array_tree garbage) w 7 = Some (NLDB_OK, Some 3))"
proof -
  obtain ctx where ctx: "put_all plugin_sample_ops table_context_new = Some ctx" "dense_table_rep 2 ctx plugin_sample_content"
    using plugin_sample by blast
  define w :: "(unit, unit) world" where "w = \<lparr>w_leveldb = (), w_tc = (), w_tables = [7 \<mapsto> ctx], w_cursors = Map.empty,
     w_leveldb_cursors = Map.empty, w_next = 8\<rparr>"
  have w: "w_tables w 7 = Some ctx" by (simp add: w_def)
  then have rep: "at_rep w 7 2 plugin_sample_content" using dense_table_rep_is_table_rep [OF ctx(2)] by (auto simp: at_rep_def)
  show ?thesis by (rule exI [of _ ctx], rule exI [of _ w]) (use plugin_order_roundtrip [OF rep, of 1 "[0, 4]" "[40]" 4] ctx(1) w in simp)
qed

text \<open>
  C17: cursors: on a table that has only been put to, a cursor positioned at a stored key or at an order delivers the pairs from there on, upwards
  or downwards, each with its order, and then reports the end.
\<close>

theorem plugin_cursor_scans:
  assumes "dense_table_rep kl ctx ys" "\<forall>e\<in>set ys. snd e \<noteq> []" "i < length ys"
  shows "\<exists>c1 c2 c3 c4. at_cursor_seek ctx cur NLDB_CURSOR_FORWARD (the_key (fst (ys ! i))) = Some (NLDB_OK, c1) \<and>
     at_cursor_scan ctx c1 = Some (map (cursor_item ys) [i..<length ys]) \<and>
     at_cursor_seek ctx cur NLDB_CURSOR_BACKWARD (the_key (fst (ys ! i))) = Some (NLDB_OK, c2) \<and>
     at_cursor_scan ctx c2 = Some (map (cursor_item ys) (rev [0..<Suc i])) \<and>
     at_cursor_seek_order ctx cur NLDB_CURSOR_FORWARD (int i + 1) = Some (NLDB_OK, c3) \<and>
     at_cursor_scan ctx c3 = Some (map (cursor_item ys) [i..<length ys]) \<and>
     at_cursor_seek_order ctx cur NLDB_CURSOR_BACKWARD (int i + 1) = Some (NLDB_OK, c4) \<and>
     at_cursor_scan ctx c4 = Some (map (cursor_item ys) (rev [0..<Suc i]))"
proof -
  have ne: "ys \<noteq> []" using assms(3) by auto
  obtain D where tab: "cursor_table kl ctx ys D" by (rule dense_cursor_table [OF assms(1) ne assms(2)])
  obtain k v where kv: "ys ! i = (k, v)" by (cases "ys ! i")
  have live: "live_rep (tree_rep 64 kl) kl ctx ys"
    using dense_table_rep_is_table_rep [OF assms(1)] assms(3) by (auto simp: table_rep_of_def)
  have len: "length k = kl" using live_repD(3) [OF live nth_mem [OF assms(3)]] kv by simp
  obtain pool loc where "tree_rep 64 kl (ctx_tree ctx) (located loc ys)" by (rule live_repE [OF live])
  then have sorted: "sorted_keys ys" using tree_rep_sorted by (fastforce simp: comp_def)
  note m = nth_sorted_keys [OF sorted assms(3) kv]
  have "k \<in> fst ` set ys" using nth_mem [OF assms(3)] kv by force
  then have r: "rank_lt k ys = i" using rank_le_present [OF sorted] m(2) by simp
  have i: "1 \<le> Suc i" "Suc i \<le> length ys" "int (Suc i) = int i + 1" using assms(3) by simp_all
  show ?thesis
    using cursor_seek_key_scan [OF tab m(1) len, of cur] cursor_seek_order_scan [OF tab i(1,2), of cur] kv
    unfolding r i(3) by simp
qed

theorem plugin_cursor_scans_witness:
  "\<exists>ctx. put_all plugin_sample_ops table_context_new = Some ctx \<and>
     (\<forall>cur. \<exists>c1 c2. at_cursor_seek ctx cur NLDB_CURSOR_FORWARD (the_key [0, 4]) = Some (NLDB_OK, c1) \<and>
        at_cursor_scan ctx c1 = Some [(the_key [0, 4], Some (the_value [40]), 2), (the_key [0, 6], Some (the_value [60]), 3)] \<and>
        at_cursor_seek_order ctx cur NLDB_CURSOR_BACKWARD 2 = Some (NLDB_OK, c2) \<and>
        at_cursor_scan ctx c2 = Some [(the_key [0, 4], Some (the_value [40]), 2), (the_key [0, 2], Some (the_value [22]), 1)])"
proof -
  obtain ctx where ctx: "put_all plugin_sample_ops table_context_new = Some ctx" "dense_table_rep 2 ctx plugin_sample_content"
    using plugin_sample by blast
  have u: "[1..<length plugin_sample_content] = [1, 2]" "rev [0..<Suc 1] = [1, 0]" by (simp_all add: upt_rec)
  have "\<exists>c1 c2. at_cursor_seek ctx cur NLDB_CURSOR_FORWARD (the_key [0, 4]) = Some (NLDB_OK, c1) \<and>
        at_cursor_scan ctx c1 = Some [(the_key [0, 4], Some (the_value [40]), 2), (the_key [0, 6], Some (the_value [60]), 3)] \<and>
        at_cursor_seek_order ctx cur NLDB_CURSOR_BACKWARD 2 = Some (NLDB_OK, c2) \<and>
        at_cursor_scan ctx c2 = Some [(the_key [0, 4], Some (the_value [40]), 2), (the_key [0, 2], Some (the_value [22]), 1)]" for cur
    using plugin_cursor_scans [OF ctx(2), of 1 cur] unfolding u by (auto simp: cursor_item_def)
  with ctx(1) show ?thesis by blast
qed

text \<open>
  a seek to a key that is not stored finds the next larger key, but the order delivered with it is smaller than
  its order in the table.
\<close>

theorem cursor_seek_absent_key_misreports_order:
  assumes "dense_table_rep kl ctx ys" "\<forall>e\<in>set ys. snd e \<noteq> []" "length k = kl" "map_of ys k = None" "rank_lt k ys < length ys"
  shows "\<exists>c1 c2 n. at_cursor_seek ctx cur NLDB_CURSOR_FORWARD (the_key k) = Some (NLDB_OK, c1) \<and>
     at_cursor_fetch ctx c1 True =
       Some (NLDB_OK, Some (the_key (fst (ys ! rank_lt k ys)), Some (the_value (snd (ys ! rank_lt k ys))), n), c2) \<and>
     n < int (rank_lt k ys) + 1"
proof -
  have ne: "ys \<noteq> []" using assms(5) by auto
  obtain D where tab: "cursor_table kl ctx ys D" by (rule dense_cursor_table [OF assms(1) ne assms(2)])
  from cursor_seek_absent [OF tab assms(4,3,5), of cur] show ?thesis by force
qed

theorem cursor_seek_absent_key_misreports_order_witness:
  "\<exists>ctx. put_all plugin_sample_ops table_context_new = Some ctx \<and>
     (\<forall>cur. \<exists>c1 c2 n. at_cursor_seek ctx cur NLDB_CURSOR_FORWARD (the_key [0, 5]) = Some (NLDB_OK, c1) \<and>
        at_cursor_fetch ctx c1 True = Some (NLDB_OK, Some (the_key [0, 6], Some (the_value [60]), n), c2) \<and> n < 3)"
proof -
  obtain ctx where ctx: "put_all plugin_sample_ops table_context_new = Some ctx" "dense_table_rep 2 ctx plugin_sample_content"
    using plugin_sample by blast
  have r: "rank_lt [0, 5] plugin_sample_content = 2" by (simp add: rank_lt_def)
  have "\<exists>c1 c2 n. at_cursor_seek ctx cur NLDB_CURSOR_FORWARD (the_key [0, 5]) = Some (NLDB_OK, c1) \<and>
        at_cursor_fetch ctx c1 True = Some (NLDB_OK, Some (the_key [0, 6], Some (the_value [60]), n), c2) \<and> n < 3" for cur
    using cursor_seek_absent_key_misreports_order [OF ctx(2), of "[0, 5]" cur] by (simp add: r)
  with ctx(1) show ?thesis by blast
qed

text \<open>
  A packed value object is unpacked to the value it was made of, and packing leaves every other object of the pool as it was.
\<close>

theorem value_object_roundtrip:
  assumes "pool_ok pool" "v \<noteq> []" "length v < 2 ^ 16"
  shows "\<exists>p pool'. pack_value_object pool (of_nat (length v)) v = Some (p, pool') \<and> unpack_value_object pool' p = Some (the_value v) \<and>
     pool_ok pool' \<and> (\<forall>q. pool_objects pool q \<noteq> None \<longrightarrow> q \<noteq> p \<and> unpack_value_object pool' q = unpack_value_object pool q)"
proof -
  have len: "unat (of_nat (length v) :: 16 word) = length v" using assms(3) by (simp add: unat_of_nat take_bit_eq_mod)
  have p: "pack_value_object pool (of_nat (length v)) v = Some (pool_next pool, pool_add pool v)"
    using pack_value_object_spec [of "of_nat (length v)" v pool] len by simp
  have "unpack_value_object (pool_add pool v) (pool_next pool) = Some (the_value v)"
    using unpack_value_object_spec [of "pool_add pool v" "pool_next pool" v] assms(2,3) by (simp add: pool_add_def)
  moreover have "q \<noteq> pool_next pool \<and> unpack_value_object (pool_add pool v) q = unpack_value_object pool q"
    if "pool_objects pool q \<noteq> None" for q
  proof -
    have "q \<noteq> pool_next pool" using that assms(1) by (auto simp: pool_ok_def)
    then show ?thesis by (simp add: unpack_value_object_def pool_add_def)
  qed
  ultimately show ?thesis using p pool_ok_add [OF assms(1)] by blast
qed

theorem value_object_roundtrip_witness:
  "\<exists>p pool'. pack_value_object pool_new 3 [1, 2, 3] = Some (p, pool') \<and> unpack_value_object pool' p = Some (the_value [1, 2, 3])"
  using value_object_roundtrip [OF pool_ok_new, of "[1, 2, 3]"] by auto

text \<open>
  the plugin fixes the length of the keys at the first put. A later put with a key of another length does not return (the assertion
  around \<^verbatim>\<open>check_context_initialized\<close> fails), while a seek with such a key is answered by an error code.
\<close>

theorem key_length_is_fixed:
  assumes "table_rep kl ctx ys" "ys \<noteq> []" "key_len key \<noteq> of_nat kl"
  shows "at_table_put ctx key val = None \<and>
     at_cursor_seek ctx cur direction key = Some (NLDB_ERROR_VARIABLE_KEY_SIZE_NOT_SUPPORTED, cur)"
proof -
  have "live_rep (tree_rep 64 kl) kl ctx ys" using assms(1,2) by (auto simp: table_rep_of_def)
  then show ?thesis
    using assms(3) live_repD(1,2) by (fastforce simp: at_table_put_def check_context_initialized_def at_cursor_seek_def check_key_length_def)
qed

theorem key_length_is_fixed_witness:
  "\<exists>ctx. put_all plugin_sample_ops table_context_new = Some ctx \<and> at_table_put ctx (the_key [1, 2, 3]) (the_value [1]) = None"
proof -
  obtain ctx where ctx: "put_all plugin_sample_ops table_context_new = Some ctx" "dense_table_rep 2 ctx plugin_sample_content"
    using plugin_sample by blast
  from key_length_is_fixed [OF dense_table_rep_is_table_rep [OF ctx(2)], of "the_key [1, 2, 3]" "the_value [1]"] ctx(1)
  show ?thesis by simp
qed

text \<open>
  an empty value can be put, but looking its key up afterwards does not return: \<^verbatim>\<open>unpack_value_object\<close> asserts that the length is positive.
\<close>

theorem empty_value_cannot_be_read:
  assumes "table_rep kl ctx ys" "length k = kl" "length ys < 2 ^ 31 - 1"
  shows "\<exists>ctx'. at_table_put ctx (the_key k) (the_value []) = Some (NLDB_OK, ctx') \<and> at_table_get ctx' (the_key k) want = None"
proof -
  obtain ctx' where c: "at_table_put ctx (the_key k) (the_value []) = Some (NLDB_OK, ctx')" "table_rep kl ctx' (ord_put k [] ys)"
    using at_table_put_spec [OF assms(1,2) _ assms(3), of "[]"] by auto
  then show ?thesis using at_table_get_spec(3) [OF c(2) assms(2)] by (simp add: map_of_ord_put)
qed

theorem empty_value_cannot_be_read_witness:
  "\<exists>ctx. at_table_put table_context_new (the_key [1, 2]) (the_value []) = Some (NLDB_OK, ctx) \<and> at_table_get ctx (the_key [1, 2]) False = None"
proof -
  have "table_rep 2 table_context_new []" by (simp add: table_rep_of_def)
  from empty_value_cannot_be_read [OF this, of "[1, 2]" False] show ?thesis by simp
qed

end
