(* ===== verification/Log_Buffer.thy ===== *)
theory Log_Buffer
  imports Plugin_Interface
begin

unbundle bit_operations_syntax

text \<open>
  Model of \<^verbatim>\<open>nldb_transaction_log_buffer.h\<close>: the buffer in which a transaction collects the log records of its updates and which is
  sent to the slaves as one replication message.

  The buffer is the byte array \<^verbatim>\<open>replicationMessageBuffer_\<close>; an address within it (\<^verbatim>\<open>nextLogAddr_\<close>, the address of a log record, of a
  key or of a value) is its offset. \<^verbatim>\<open>size_t\<close> is a \<^typ>\<open>64 word\<close>, so sizes are computed modulo \<open>2 ^ 64\<close> as in the code. The
  replication message that the master builds with \<^verbatim>\<open>xs_msg_init_data\<close> has no bytes of its own: it is a reference to the buffer, and its bytes
  are those that the buffer has when they are read. A message that a slave has received is the list of its bytes. The function that redoes the
  records of a message is part of the theory on replication, as it calls the database layer.
\<close>

section \<open>State\<close>

abbreviation (input) TX_REPLICATION_MESSAGE_SIZE :: nat where
  "TX_REPLICATION_MESSAGE_SIZE \<equiv> 65536"

abbreviation (input) NLDB_MAX_TABLE_COUNT_PER_DB :: int where
  "NLDB_MAX_TABLE_COUNT_PER_DB \<equiv> 65536"

type_synonym log_type_t = int

abbreviation (input) LT_PUT :: log_type_t where "LT_PUT \<equiv> 1"
abbreviation (input) LT_DEL :: log_type_t where "LT_DEL \<equiv> 2"

record log_buffer =
  replicationMessageBuffer :: "byte list"
  nextLogAddr :: int
  totalLogSize :: "64 word"
  transactionId :: int
  totalLogCount :: "64 word"
  isFinalized :: bool

text \<open>The two structs that are written into the buffer, with their sizes.\<close>

definition message_header_bytes :: "int \<Rightarrow> 64 word \<Rightarrow> byte list" where
  "message_header_bytes txId logSize = le_bytes 8 (nat (txId mod 2 ^ 64)) @ le_bytes 8 (unat logSize)"

definition record_header_bytes :: "int \<Rightarrow> log_type_t \<Rightarrow> 64 word \<Rightarrow> 64 word \<Rightarrow> byte list" where
  "record_header_bytes tableId logType keyLength valueLength =
     le_bytes 4 (nat (tableId mod 2 ^ 32)) @ le_bytes 4 (nat (logType mod 2 ^ 32)) @
     le_bytes 8 (unat keyLength) @ le_bytes 8 (unat valueLength)"

abbreviation (input) sizeof_message_header :: "64 word" where "sizeof_message_header \<equiv> 16"
abbreviation (input) sizeof_record_header :: "64 word" where "sizeof_record_header \<equiv> 24"

section \<open>Operations\<close>

definition TX_ALIGN8_UP :: "64 word \<Rightarrow> 64 word" where
  "TX_ALIGN8_UP x = (x + 7) AND NOT 7"

definition calcLogSize :: "64 word \<Rightarrow> 64 word \<Rightarrow> 64 word" where
  "calcLogSize keyLength valueLength =
     TX_ALIGN8_UP sizeof_record_header + TX_ALIGN8_UP keyLength + TX_ALIGN8_UP valueLength"

definition getKeyAddress :: "int \<Rightarrow> int" where
  "getKeyAddress logAddress = logAddress + uint (TX_ALIGN8_UP sizeof_record_header)"

definition getValueAddress :: "int \<Rightarrow> 64 word \<Rightarrow> int" where
  "getValueAddress logAddress keyLength =
     logAddress + uint (TX_ALIGN8_UP sizeof_record_header) + uint (TX_ALIGN8_UP keyLength)"

definition clearLog :: "log_buffer \<Rightarrow> log_buffer" where
  "clearLog lb = lb\<lparr>nextLogAddr := 16, totalLogCount := 0, totalLogSize := 0, isFinalized := False\<rparr>"

definition reset :: "log_buffer \<Rightarrow> log_buffer" where
  "reset lb = (clearLog lb)\<lparr>transactionId := 0\<rparr>"

text \<open>The constructor: \<open>mem\<close> is the content of the fresh memory.\<close>

definition log_buffer_new :: "byte list \<Rightarrow> log_buffer" where
  "log_buffer_new mem = reset \<lparr>replicationMessageBuffer = mem, nextLogAddr = 0, totalLogSize = 0, transactionId = 0,
     totalLogCount = 0, isFinalized = False\<rparr>"

definition isClear :: "log_buffer \<Rightarrow> bool" where
  "isClear lb \<longleftrightarrow> totalLogCount lb = 0 \<and> \<not> isFinalized lb"

definition setTransactionId :: "log_buffer \<Rightarrow> int \<Rightarrow> log_buffer option" where
  "setTransactionId lb txId = (if transactionId lb \<noteq> 0 then None else Some (lb\<lparr>transactionId := txId\<rparr>))"

definition getTransactionId :: "log_buffer \<Rightarrow> int option" where
  "getTransactionId lb = (if transactionId lb = 0 then None else Some (transactionId lb))"

definition appendLog ::
    "log_buffer \<Rightarrow> int \<Rightarrow> log_type_t \<Rightarrow> byte list \<Rightarrow> 64 word \<Rightarrow> byte list \<Rightarrow> 64 word \<Rightarrow> log_buffer option" where
  "appendLog lb tableId logType keyData keyLength valueData valueLength =
     (let logSize = calcLogSize keyLength valueLength in
      if \<not> (sizeof_message_header + totalLogSize lb + logSize < 65536) then None
      else do {
        m1 \<leftarrow> mem_write (replicationMessageBuffer lb) (nextLogAddr lb)
                (record_header_bytes tableId logType keyLength valueLength);
        k \<leftarrow> mem_read keyData 0 (uint keyLength);
        m2 \<leftarrow> mem_write m1 (getKeyAddress (nextLogAddr lb)) k;
        m3 \<leftarrow> (if valueLength > 0
               then do { v \<leftarrow> mem_read valueData 0 (uint valueLength);
                         mem_write m2 (getValueAddress (nextLogAddr lb) keyLength) v }
               else Some m2);
        Some (lb\<lparr>replicationMessageBuffer := m3, nextLogAddr := nextLogAddr lb + uint logSize,
                 totalLogSize := totalLogSize lb + logSize, totalLogCount := totalLogCount lb + 1\<rparr>) })"

text \<open>
  The header of a log record, and the addresses of its key and value (\<^term>\<open>None\<close> for a null value).
\<close>

record parsed_log =
  pl_tableId :: int
  pl_logType :: log_type_t
  pl_keyData :: int
  pl_keyLength :: "64 word"
  pl_valueData :: "int option"
  pl_valueLength :: "64 word"

definition parseLog :: "byte list \<Rightarrow> int \<Rightarrow> parsed_log option" where
  "parseLog mem logRecord =
     do { b1 \<leftarrow> mem_read mem logRecord 4;
          b2 \<leftarrow> mem_read mem (logRecord + 4) 4;
          b3 \<leftarrow> mem_read mem (logRecord + 8) 8;
          b4 \<leftarrow> mem_read mem (logRecord + 16) 8;
          let tableId = to_int32 (int (le_value b1));
          let keyLength = (of_nat (le_value b3) :: 64 word);
          let valueLength = (of_nat (le_value b4) :: 64 word);
          if tableId \<le> 0 \<or> tableId > NLDB_MAX_TABLE_COUNT_PER_DB then None
          else Some \<lparr>pl_tableId = tableId, pl_logType = to_int32 (int (le_value b2)),
                 pl_keyData = getKeyAddress logRecord, pl_keyLength = keyLength,
                 pl_valueData = (if valueLength > 0 then Some (getValueAddress logRecord keyLength) else None),
                 pl_valueLength = valueLength\<rparr> }"

definition finalize :: "log_buffer \<Rightarrow> log_buffer option" where
  "finalize lb =
     (if \<not> transactionId lb > 0 then None
      else do {
        m \<leftarrow> mem_write (replicationMessageBuffer lb) 0 (message_header_bytes (transactionId lb) (totalLogSize lb));
        Some (lb\<lparr>replicationMessageBuffer := m, isFinalized := True\<rparr>) })"

text \<open>
  A message of the messaging library (\<^verbatim>\<open>xs_msg_t\<close>) that was made with \<^verbatim>\<open>xs_msg_init_data\<close>: the address of the memory and the number of bytes.
  The library does not copy the memory; an empty message refers to nothing.
\<close>

record xs_msg =
  xm_data :: int
  xm_size :: int

definition xs_msg_empty :: xs_msg where
  "xs_msg_empty = \<lparr>xm_data = 0, xm_size = 0\<rparr>"

text \<open>The return codes of the functions of the library that the publisher calls for a message.\<close>

record xs_sender =
  xo_msg_init_data :: "int \<Rightarrow> int \<Rightarrow> int"
  xo_sendmsg :: "byte list \<Rightarrow> int"
  xo_msg_close :: "xs_msg \<Rightarrow> int"

text \<open>\<open>this\<close> is the address of the array \<^verbatim>\<open>replicationMessageBuffer_\<close> of the log buffer.\<close>

definition buildReplicationMessage :: "xs_sender \<Rightarrow> int \<Rightarrow> log_buffer \<Rightarrow> xs_msg option" where
  "buildReplicationMessage xs this lb =
     (if \<not> nextLogAddr lb > 0 then None
      else let messageSize = nextLogAddr lb in
      if \<not> messageSize \<le> int TX_REPLICATION_MESSAGE_SIZE then None
      else if xo_msg_init_data xs this messageSize \<noteq> 0 then None
      else Some \<lparr>xm_data = this, xm_size = messageSize\<rparr>)"

definition destroyReplicationMessage :: "xs_sender \<Rightarrow> xs_msg \<Rightarrow> unit option" where
  "destroyReplicationMessage xs replicationMessage = (if xo_msg_close xs replicationMessage \<noteq> 0 then None else Some ())"

text \<open>The bytes behind \<^verbatim>\<open>xs_msg_data\<close>, up to \<^verbatim>\<open>xs_msg_size\<close>, of a message that was made of the buffer of \<open>lb\<close>.\<close>

definition message_bytes :: "log_buffer \<Rightarrow> xs_msg \<Rightarrow> byte list option" where
  "message_bytes lb msg = mem_read (replicationMessageBuffer lb) 0 (xm_size msg)"

text \<open>\<^verbatim>\<open>checkReplicationMessage\<close>: the size in the header fits into the message (the sum wraps as in the code).\<close>

definition message_logSize :: "byte list \<Rightarrow> 64 word option" where
  "message_logSize msg = do { b \<leftarrow> mem_read msg 8 8; Some (of_nat (le_value b)) }"

definition checkReplicationMessage :: "byte list \<Rightarrow> unit option" where
  "checkReplicationMessage msg =
     do { logSize \<leftarrow> message_logSize msg;
          if TX_ALIGN8_UP sizeof_message_header + logSize \<le> of_nat (length msg) then Some () else None }"

end
