(* ===== verification/Log_Format.thy ===== *)
theory Log_Format
  imports Log_Buffer
begin

text \<open>
  The format of a replication message: what sequence of log records the bytes of a log buffer stand for. \<^verbatim>\<open>appendLog\<close> adds one
  record, \<^verbatim>\<open>finalize\<close> completes the header, and \<^verbatim>\<open>parseLog\<close> reads the record back that was written at its address.
\<close>

section \<open>Alignment\<close>

definition al :: "nat \<Rightarrow> nat" where
  "al n = 8 * ((n + 7) div 8)"

lemma al_ge: "n \<le> al n"
  and al_less: "al n < n + 8"
  unfolding al_def by presburger+

lemma uint_unat: "uint w = int (unat w)"
  by simp

lemma and_not_7: "w AND - 8 = push_bit 3 (drop_bit 3 w)" for w :: "64 word"
proof -
  have m: "- 8 = NOT (mask 3 :: 64 word)" by (simp add: mask_eq_exp_minus_1)
  show ?thesis unfolding m by (rule bit_word_eqI) (auto simp: bit_simps)
qed

lemma unat_and_not_7: "unat (w AND - 8) = 8 * (unat w div 8)" for w :: "64 word"
proof -
  have "8 * (unat w div 8) < 2 ^ 64" using unsigned_less [where 'a = nat, of w] by simp
  then show ?thesis
    unfolding and_not_7 unsigned_push_bit_eq unat_drop_bit_eq
    by (simp add: push_bit_eq_mult drop_bit_eq_div take_bit_eq_mod)
qed

lemma unat_add_bounded: "unat x + unat y < 2 ^ 64 \<Longrightarrow> unat (x + y) = unat x + unat y" for x y :: "64 word"
  by (simp add: unat_word_ariths)

lemma unat_TX_ALIGN8_UP:
  assumes "unat x + 7 < 2 ^ 64"
  shows "unat (TX_ALIGN8_UP x) = al (unat x)"
  using unat_add_bounded [of x 7] assms by (simp add: TX_ALIGN8_UP_def unat_and_not_7 al_def)

lemma TX_ALIGN8_UP_24 [simp]: "TX_ALIGN8_UP 24 = 24"
  by (simp add: TX_ALIGN8_UP_def)

lemma TX_ALIGN8_UP_16 [simp]: "TX_ALIGN8_UP 16 = 16"
  by (simp add: TX_ALIGN8_UP_def)

lemma unat_of_nat64: "n < 2 ^ 64 \<Longrightarrow> unat (of_nat n :: 64 word) = n"
  by (simp add: unat_of_nat take_bit_eq_mod)

lemma unat_calcLogSize:
  assumes "k < 2 ^ 16" "v < 2 ^ 16"
  shows "unat (calcLogSize (of_nat k) (of_nat v)) = 24 + al k + al v"
proof -
  have a: "unat (TX_ALIGN8_UP (of_nat n)) = al n" if "n < 2 ^ 16" for n
    using that unat_TX_ALIGN8_UP [of "of_nat n"] by (simp add: unat_of_nat64)
  have "unat (24 + TX_ALIGN8_UP (of_nat k)) = 24 + al k"
    using unat_add_bounded [of 24 "TX_ALIGN8_UP (of_nat k)"] a [OF assms(1)] al_less [of k] assms(1) by simp
  then show ?thesis
    using unat_add_bounded [of "24 + TX_ALIGN8_UP (of_nat k)" "TX_ALIGN8_UP (of_nat v)"] a [OF assms(2)]
      al_less [of k] al_less [of v] assms by (simp add: calcLogSize_def)
qed

lemma uint_TX_ALIGN8_UP: "n < 2 ^ 16 \<Longrightarrow> uint (TX_ALIGN8_UP (of_nat n)) = int (al n)"
  using unat_TX_ALIGN8_UP [of "of_nat n"] by (simp add: unat_of_nat64 uint_unat del: of_nat_unat)

section \<open>Log records\<close>

record log_record =
  lr_table :: int
  lr_type :: log_type_t
  lr_key :: "byte list"
  lr_value :: "byte list"

definition record_ok :: "log_record \<Rightarrow> bool" where
  "record_ok r \<longleftrightarrow> 0 < lr_table r \<and> lr_table r \<le> NLDB_MAX_TABLE_COUNT_PER_DB \<and> 0 \<le> lr_type r \<and> lr_type r < 2 ^ 31 \<and>
     length (lr_key r) < 2 ^ 16 \<and> length (lr_value r) < 2 ^ 16"

definition record_size :: "log_record \<Rightarrow> nat" where
  "record_size r = 24 + al (length (lr_key r)) + al (length (lr_value r))"

definition record_header :: "log_record \<Rightarrow> byte list" where
  "record_header r = record_header_bytes (lr_table r) (lr_type r) (of_nat (length (lr_key r))) (of_nat (length (lr_value r)))"

text \<open>The bytes of a record; the padding behind key and value is arbitrary.\<close>

definition log_image :: "log_record \<Rightarrow> byte list \<Rightarrow> bool" where
  "log_image r bs \<longleftrightarrow> (\<exists>p1 p2. bs = record_header r @ lr_key r @ p1 @ lr_value r @ p2 \<and>
     length p1 = al (length (lr_key r)) - length (lr_key r) \<and> length p2 = al (length (lr_value r)) - length (lr_value r))"

fun logs_image :: "log_record list \<Rightarrow> byte list \<Rightarrow> bool" where
  "logs_image [] bs \<longleftrightarrow> bs = []"
| "logs_image (r # rs) bs \<longleftrightarrow> (\<exists>b bs'. bs = b @ bs' \<and> log_image r b \<and> logs_image rs bs')"

lemma length_record_header [simp]: "length (record_header r) = 24"
  by (simp add: record_header_def record_header_bytes_def)

lemma length_message_header [simp]: "length (message_header_bytes tx n) = 16"
  by (simp add: message_header_bytes_def)

lemma log_image_length: "log_image r bs \<Longrightarrow> length bs = record_size r"
  using al_ge [of "length (lr_key r)"] al_ge [of "length (lr_value r)"] by (auto simp: log_image_def record_size_def)

lemma logs_image_append: "logs_image rs bs \<Longrightarrow> log_image r b \<Longrightarrow> logs_image (rs @ [r]) (bs @ b)"
proof (induction rs arbitrary: bs)
  case (Cons q rs)
  then obtain c cs where "bs = c @ cs" "log_image q c" "logs_image rs cs" by auto
  with Cons.IH [of cs] Cons.prems(2) show ?case by (metis append.assoc append_Cons logs_image.simps(2))
qed simp

lemma logs_image_length: "logs_image rs bs \<Longrightarrow> length bs = sum_list (map record_size rs)"
  by (induction rs arbitrary: bs) (auto simp: log_image_length)

section \<open>What a buffer holds\<close>

definition holds_logs :: "log_buffer \<Rightarrow> log_record list \<Rightarrow> bool" where
  "holds_logs lb rs \<longleftrightarrow> (\<exists>hd body tl. replicationMessageBuffer lb = hd @ body @ tl \<and> length hd = 16 \<and> logs_image rs body \<and>
     length (hd @ body @ tl) = TX_REPLICATION_MESSAGE_SIZE \<and> 16 + length body < TX_REPLICATION_MESSAGE_SIZE \<and> nextLogAddr lb = 16 + int (length body) \<and>
     unat (totalLogSize lb) = length body \<and> totalLogCount lb = of_nat (length rs) \<and> list_all record_ok rs)"

definition append_record :: "log_buffer \<Rightarrow> log_record \<Rightarrow> log_buffer option" where
  "append_record lb r = appendLog lb (lr_table r) (lr_type r) (lr_key r) (of_nat (length (lr_key r)))
     (lr_value r) (of_nat (length (lr_value r)))"

abbreviation logs_size :: "log_record list \<Rightarrow> nat" where
  "logs_size rs \<equiv> sum_list (map record_size rs)"

lemma append_guard:
  assumes "holds_logs lb rs" "record_ok r"
  shows "sizeof_message_header + totalLogSize lb + calcLogSize (of_nat (length (lr_key r))) (of_nat (length (lr_value r))) < 65536
     \<longleftrightarrow> 16 + logs_size rs + record_size r < TX_REPLICATION_MESSAGE_SIZE"
    and "uint (calcLogSize (of_nat (length (lr_key r))) (of_nat (length (lr_value r)))) = int (record_size r)"
proof -
  let ?c = "calcLogSize (of_nat (length (lr_key r))) (of_nat (length (lr_value r)))"
  obtain hd body tl where b: "logs_image rs body" "length (hd @ body @ tl) = 65536" "unat (totalLogSize lb) = length body"
    using assms(1) unfolding holds_logs_def by blast
  have t: "unat (totalLogSize lb) = logs_size rs" "logs_size rs \<le> 65536" using b logs_image_length [OF b(1)] by simp_all
  have c: "unat ?c = record_size r" using assms(2) by (simp add: unat_calcLogSize record_ok_def record_size_def)
  have s: "record_size r \<le> 24 + 65536 + 8 + 65536 + 8"
    using al_less [of "length (lr_key r)"] al_less [of "length (lr_value r)"] assms(2) by (simp add: record_size_def record_ok_def)
  show "uint ?c = int (record_size r)" using c by (simp only: uint_unat)
  have "unat (16 + totalLogSize lb) = 16 + logs_size rs"
    using unat_add_bounded [of 16 "totalLogSize lb"] t by simp
  then have "unat (16 + totalLogSize lb + ?c) = 16 + logs_size rs + record_size r"
    using unat_add_bounded [of "16 + totalLogSize lb" ?c] t c s by simp
  then show "16 + totalLogSize lb + ?c < 65536 \<longleftrightarrow> 16 + logs_size rs + record_size r < 65536"
    by (simp add: word_less_nat_alt)
qed

lemma prefix_of_length: "n \<le> length xs \<Longrightarrow> \<exists>as bs. xs = as @ bs \<and> length as = n"
  by (metis append_take_drop_id length_take min.absorb2)

lemma append_record_full:
  assumes "holds_logs lb rs" "record_ok r" "16 + logs_size rs + record_size r \<ge> TX_REPLICATION_MESSAGE_SIZE"
  shows "append_record lb r = None"
  using append_guard(1) [OF assms(1,2)] assms(3) by (simp add: append_record_def appendLog_def)

lemma carve_record:
  assumes "record_size r \<le> length bs"
  obtains h k0 p1 v0 p2 t5 where "bs = h @ k0 @ p1 @ v0 @ p2 @ t5" "length h = 24" "length k0 = length (lr_key r)"
    "length p1 = al (length (lr_key r)) - length (lr_key r)" "length v0 = length (lr_value r)"
    "length p2 = al (length (lr_value r)) - length (lr_value r)"
proof -
  let ?k = "lr_key r" and ?v = "lr_value r"
  let ?a = "al (length ?k)" and ?b = "al (length ?v)"
  note ge = al_ge [of "length ?k"] al_ge [of "length ?v"]
  have bs1: "24 + ?a + ?b \<le> length bs" using assms by (simp add: record_size_def)
  obtain h t1 where 1: "bs = h @ t1" "length h = 24"
    using prefix_of_length [of 24 bs] bs1 by auto
  then have "?a + ?b \<le> length t1" using bs1 by simp
  moreover from this obtain k0 t2 where 2: "t1 = k0 @ t2" "length k0 = length ?k"
    using prefix_of_length [of "length ?k" t1] ge by (metis add_leE order_trans)
  ultimately have "?a - length ?k + ?b \<le> length t2" using ge by simp
  moreover from this obtain p1 t3 where 3: "t2 = p1 @ t3" "length p1 = ?a - length ?k"
    using prefix_of_length [of "?a - length ?k" t2] by (metis add_leE)
  ultimately have "?b \<le> length t3" using ge by simp
  moreover from this obtain v0 t4 where 4: "t3 = v0 @ t4" "length v0 = length ?v"
    using prefix_of_length [of "length ?v" t3] ge by (metis order_trans)
  ultimately have "?b - length ?v \<le> length t4" by simp
  then obtain p2 t5 where 5: "t4 = p2 @ t5" "length p2 = ?b - length ?v"
    using prefix_of_length by blast
  show ?thesis by (rule that) (use 1 2 3 4 5 in simp_all)
qed

lemma append_record_spec:
  assumes lb: "holds_logs lb rs" and ok: "record_ok r" and room: "16 + logs_size rs + record_size r < TX_REPLICATION_MESSAGE_SIZE"
  shows "\<exists>lb'. append_record lb r = Some lb' \<and> holds_logs lb' (rs @ [r]) \<and>
           transactionId lb' = transactionId lb \<and> isFinalized lb' = isFinalized lb"
proof -
  let ?k = "lr_key r" and ?v = "lr_value r"
  let ?kl = "of_nat (length ?k) :: 64 word" and ?vl = "of_nat (length ?v) :: 64 word"
  obtain hd body tl where b: "replicationMessageBuffer lb = hd @ body @ tl" "length hd = 16" "logs_image rs body"
      "length (hd @ body @ tl) = 65536" "nextLogAddr lb = 16 + int (length body)" "unat (totalLogSize lb) = length body"
      "totalLogCount lb = of_nat (length rs)" "list_all record_ok rs"
    using lb unfolding holds_logs_def by blast
  have len: "length ?k < 2 ^ 16" "length ?v < 2 ^ 16" using ok by (simp_all add: record_ok_def)
  have size: "length body = logs_size rs" by (rule logs_image_length [OF b(3)])
  have tl: "record_size r \<le> length tl" using b(2,4) size room by simp
  let ?a = "al (length ?k)" and ?b = "al (length ?v)"
  note ge = al_ge [of "length ?k"] al_ge [of "length ?v"]
  obtain h k0 p1 v0 p2 t5 where tl': "tl = h @ k0 @ p1 @ v0 @ p2 @ t5" and l: "length h = 24" "length k0 = length ?k"
      "length p1 = ?a - length ?k" "length v0 = length ?v" "length p2 = ?b - length ?v"
    by (rule carve_record [OF tl])
  have n: "nextLogAddr lb = int (length (hd @ body))" using b(2,5) by simp
  have w1: "mem_write (replicationMessageBuffer lb) (nextLogAddr lb) (record_header r) =
      Some (hd @ body @ record_header r @ k0 @ p1 @ v0 @ p2 @ t5)"
    using mem_write_append [OF n, of "record_header r" h "k0 @ p1 @ v0 @ p2 @ t5"] l(1) by (simp add: b(1) tl')
  have w2: "mem_write (hd @ body @ record_header r @ k0 @ p1 @ v0 @ p2 @ t5) (getKeyAddress (nextLogAddr lb)) ?k =
      Some (hd @ body @ record_header r @ ?k @ p1 @ v0 @ p2 @ t5)"
    using mem_write_append [of "getKeyAddress (nextLogAddr lb)" "hd @ body @ record_header r" ?k k0 "p1 @ v0 @ p2 @ t5"] l(2)
    by (simp add: getKeyAddress_def n)
  have w3: "mem_write (hd @ body @ record_header r @ ?k @ p1 @ v0 @ p2 @ t5) (getValueAddress (nextLogAddr lb) ?kl) ?v =
      Some (hd @ body @ record_header r @ ?k @ p1 @ ?v @ p2 @ t5)"
    using mem_write_append [of "getValueAddress (nextLogAddr lb) ?kl" "hd @ body @ record_header r @ ?k @ p1" ?v v0 "p2 @ t5"] l(3,4) ge
    by (simp add: getValueAddress_def n uint_TX_ALIGN8_UP [OF len(1)])
  have rd: "mem_read ?k 0 (uint ?kl) = Some ?k" "mem_read ?v 0 (uint ?vl) = Some ?v"
    using mem_read_append [of 0 "[]" "int (length ?k)" ?k "[]"] mem_read_append [of 0 "[]" "int (length ?v)" ?v "[]"] len
    by (simp_all add: uint_unat unat_of_nat64 del: of_nat_unat)
  have vz: "v0 = ?v" if "\<not> 0 < ?vl"
  proof -
    have "?vl = 0" using that by (simp add: word_gt_0)
    then have "unat ?vl = 0" by simp
    then show ?thesis using len(2) l(4) by (simp add: unat_of_nat64)
  qed
  define img where "img = record_header r @ ?k @ p1 @ ?v @ p2"
  let ?lb = "lb\<lparr>replicationMessageBuffer := hd @ (body @ img) @ t5, nextLogAddr := nextLogAddr lb + int (record_size r),
      totalLogSize := totalLogSize lb + calcLogSize ?kl ?vl, totalLogCount := totalLogCount lb + 1\<rparr>"
  have "append_record lb r = Some ?lb"
    using w1 w2 w3 rd vz append_guard [OF lb ok] room
    by (auto simp: append_record_def appendLog_def Let_def record_header_def [symmetric] img_def)
  moreover have "holds_logs ?lb (rs @ [r])"
  proof -
    have img: "log_image r img" using l(3,5) by (auto simp: log_image_def img_def)
    have c: "unat (calcLogSize ?kl ?vl) = record_size r" using len by (simp add: unat_calcLogSize record_size_def)
    have "unat (totalLogSize lb + calcLogSize ?kl ?vl) = length (body @ img)"
      using unat_add_bounded [of "totalLogSize lb" "calcLogSize ?kl ?vl"] c b(6) size room log_image_length [OF img] by simp
    moreover have "length (hd @ (body @ img) @ t5) = 65536"
      using b(4) tl' l log_image_length [OF img] ge by (simp add: record_size_def)
    moreover have "16 + length (body @ img) < 65536" using size room log_image_length [OF img] by simp
    ultimately show ?thesis
      using b logs_image_append [OF b(3) img] log_image_length [OF img] ok
      unfolding holds_logs_def by (intro exI [of _ hd] exI [of _ "body @ img"] exI [of _ t5]) simp
  qed
  ultimately show ?thesis by auto
qed

section \<open>Messages\<close>

definition message_image :: "int \<Rightarrow> log_record list \<Rightarrow> byte list \<Rightarrow> bool" where
  "message_image txId rs msg \<longleftrightarrow> (\<exists>body. msg = message_header_bytes txId (of_nat (length body)) @ body \<and> logs_image rs body \<and>
     length msg < TX_REPLICATION_MESSAGE_SIZE \<and> list_all record_ok rs)"

lemma holds_logs_clear:
  assumes "length (replicationMessageBuffer lb) = TX_REPLICATION_MESSAGE_SIZE"
  shows "holds_logs (clearLog lb) []" "holds_logs (reset lb) []"
proof -
  let ?m = "replicationMessageBuffer lb"
  have "holds_logs lb' []" if "replicationMessageBuffer lb' = ?m" "nextLogAddr lb' = 16" "totalLogSize lb' = 0" "totalLogCount lb' = 0" for lb'
    unfolding holds_logs_def using assms that
    by (intro exI [of _ "take 16 ?m"] exI [of _ "[]"] exI [of _ "drop 16 ?m"]) simp
  then show "holds_logs (clearLog lb) []" "holds_logs (reset lb) []" by (simp_all add: clearLog_def reset_def)
qed

lemma holds_logs_buffer: "holds_logs lb rs \<Longrightarrow> length (replicationMessageBuffer lb) = TX_REPLICATION_MESSAGE_SIZE"
  by (auto simp: holds_logs_def)

lemma holds_logs_next: "holds_logs lb rs \<Longrightarrow> nextLogAddr lb = 16 + int (logs_size rs) \<and> 16 + logs_size rs < TX_REPLICATION_MESSAGE_SIZE"
  using logs_image_length by (fastforce simp: holds_logs_def)

lemma holds_logs_cong:
  assumes "replicationMessageBuffer lb' = replicationMessageBuffer lb" "nextLogAddr lb' = nextLogAddr lb"
    "totalLogSize lb' = totalLogSize lb" "totalLogCount lb' = totalLogCount lb"
  shows "holds_logs lb' rs = holds_logs lb rs"
  using assms by (simp add: holds_logs_def)

lemma finalize_spec:
  assumes lb: "holds_logs lb rs" and tx: "0 < transactionId lb"
  shows "\<exists>lb' msg. finalize lb = Some lb' \<and> holds_logs lb' rs \<and> isFinalized lb' \<and> transactionId lb' = transactionId lb \<and>
           mem_read (replicationMessageBuffer lb') 0 (16 + int (logs_size rs)) = Some msg \<and> message_image (transactionId lb) rs msg"
proof -
  obtain hd body tl where b: "replicationMessageBuffer lb = hd @ body @ tl" "length hd = 16" "logs_image rs body"
      "length (hd @ body @ tl) = 65536" "nextLogAddr lb = 16 + int (length body)" "unat (totalLogSize lb) = length body"
      "totalLogCount lb = of_nat (length rs)" "list_all record_ok rs" "16 + length body < 65536"
    using lb unfolding holds_logs_def by blast
  let ?h = "message_header_bytes (transactionId lb) (totalLogSize lb)"
  have t: "totalLogSize lb = of_nat (length body)" using b(6) by (metis of_nat_unat ucast_id)
  let ?lb = "lb\<lparr>replicationMessageBuffer := ?h @ body @ tl, isFinalized := True\<rparr>"
  have "mem_write (hd @ body @ tl) 0 ?h = Some (?h @ body @ tl)"
    using mem_write_append [of 0 "[]" ?h hd "body @ tl"] b(2) by simp
  then have "finalize lb = Some ?lb" using tx by (simp add: finalize_def b(1))
  moreover have "holds_logs ?lb rs"
    unfolding holds_logs_def using b by (intro exI [of _ ?h] exI [of _ body] exI [of _ tl]) simp
  moreover have "mem_read (replicationMessageBuffer ?lb) 0 (16 + int (logs_size rs)) = Some (?h @ body)"
    using mem_read_append [of 0 "[]" "16 + int (logs_size rs)" "?h @ body" tl] b(2) logs_image_length [OF b(3)] by simp
  moreover have "message_image (transactionId lb) rs (?h @ body)"
    unfolding message_image_def using b t by (intro exI [of _ body]) simp
  ultimately show ?thesis by auto
qed

text \<open>The message that the library makes of the buffer.\<close>

lemma buildReplicationMessage_spec:
  assumes "holds_logs lb rs" "xo_msg_init_data xs this (16 + int (logs_size rs)) = 0"
  shows "buildReplicationMessage xs this lb = Some \<lparr>xm_data = this, xm_size = 16 + int (logs_size rs)\<rparr>"
  using holds_logs_next [OF assms(1)] assms(2) by (simp add: buildReplicationMessage_def Let_def)

lemma message_logSize_spec:
  assumes "length body \<le> TX_REPLICATION_MESSAGE_SIZE"
  shows "message_logSize (message_header_bytes txId (of_nat (length body)) @ body) = Some (of_nat (length body))"
proof -
  have u: "unat (of_nat (length body) :: 64 word) = length body" by (rule unat_of_nat64) (use assms in simp)
  have "mem_read (le_bytes 8 (nat (txId mod 2 ^ 64)) @ le_bytes 8 (length body) @ body) 8 8 = Some (le_bytes 8 (length body))"
    by (rule mem_read_append) simp_all
  moreover have "le_value (le_bytes 8 (length body)) = length body" using assms by (simp add: le_value_le_bytes)
  ultimately show ?thesis by (simp only: message_logSize_def message_header_bytes_def u append.assoc) simp
qed

lemma checkReplicationMessage_ok:
  assumes "message_image txId rs msg"
  shows "checkReplicationMessage msg = Some ()"
proof -
  obtain body where b: "msg = message_header_bytes txId (of_nat (length body)) @ body" "length msg < 65536"
    using assms unfolding message_image_def by blast
  then have "length body \<le> 65536" by simp
  from message_logSize_spec [OF this, of txId] show ?thesis
    by (simp add: checkReplicationMessage_def b(1))
qed

text \<open>Reading a record back.\<close>

lemma parseLog_spec:
  assumes img: "log_image r b" and ok: "record_ok r"
  shows "parseLog (as @ b @ cs) (int (length as)) =
     Some \<lparr>pl_tableId = lr_table r, pl_logType = lr_type r, pl_keyData = int (length as) + 24, pl_keyLength = of_nat (length (lr_key r)),
           pl_valueData = (if lr_value r = [] then None else Some (int (length as) + 24 + int (al (length (lr_key r))))),
           pl_valueLength = of_nat (length (lr_value r))\<rparr>"
proof -
  let ?k = "lr_key r" and ?v = "lr_value r"
  have len: "length ?k < 2 ^ 16" "length ?v < 2 ^ 16" using ok by (simp_all add: record_ok_def)
  let ?t = "le_bytes 4 (nat (lr_table r mod 2 ^ 32))" and ?y = "le_bytes 4 (nat (lr_type r mod 2 ^ 32))"
  let ?x = "le_bytes 8 (length ?k)" and ?z = "le_bytes 8 (length ?v)"
  obtain p where p: "as @ b @ cs = as @ ?t @ ?y @ ?x @ ?z @ p"
    using img len by (auto simp: log_image_def record_header_def record_header_bytes_def unat_of_nat64)
  have r: "mem_read (as @ b @ cs) (int (length as)) 4 = Some ?t" "mem_read (as @ b @ cs) (int (length as) + 4) 4 = Some ?y"
      "mem_read (as @ b @ cs) (int (length as) + 8) 8 = Some ?x" "mem_read (as @ b @ cs) (int (length as) + 16) 8 = Some ?z"
    using mem_read_append [where as = as and bs = ?t and cs = "?y @ ?x @ ?z @ p"]
      mem_read_append [where as = "as @ ?t" and bs = ?y and cs = "?x @ ?z @ p"]
      mem_read_append [where as = "as @ ?t @ ?y" and bs = ?x and cs = "?z @ p"]
      mem_read_append [where as = "as @ ?t @ ?y @ ?x" and bs = ?z and cs = p]
    unfolding p append.assoc length_append length_le_bytes by simp_all
  have v: "int (le_value ?t) = lr_table r" "int (le_value ?y) = lr_type r" "le_value ?x = length ?k" "le_value ?z = length ?v"
    using ok len by (simp_all add: le_value_le_bytes record_ok_def zmod_int)
  have i32: "to_int32 (lr_table r) = lr_table r" "to_int32 (lr_type r) = lr_type r" using ok by (simp_all add: record_ok_def)
  have z: "0 < (of_nat (length ?v) :: 64 word) \<longleftrightarrow> ?v \<noteq> []"
    using len(2) by (simp add: word_less_nat_alt unat_of_nat64)
  show ?thesis
    unfolding parseLog_def Let_def r bind.bind_lunit v i32 z getKeyAddress_def getValueAddress_def uint_TX_ALIGN8_UP [OF len(1)]
    using ok by (simp add: record_ok_def)
qed

lemma parsed_bytes:
  assumes img: "log_image r b"
  shows "mem_read (as @ b @ cs) (int (length as) + 24) (int (length (lr_key r))) = Some (lr_key r)"
    and "mem_read (as @ b @ cs) (int (length as) + 24 + int (al (length (lr_key r)))) (int (length (lr_value r))) = Some (lr_value r)"
proof -
  obtain p1 p2 where b: "b = record_header r @ lr_key r @ p1 @ lr_value r @ p2" "length p1 = al (length (lr_key r)) - length (lr_key r)"
    using img unfolding log_image_def by blast
  show "mem_read (as @ b @ cs) (int (length as) + 24) (int (length (lr_key r))) = Some (lr_key r)"
    using mem_read_append [of "int (length as) + 24" "as @ record_header r" _ "lr_key r" "p1 @ lr_value r @ p2 @ cs"] by (simp add: b(1))
  show "mem_read (as @ b @ cs) (int (length as) + 24 + int (al (length (lr_key r)))) (int (length (lr_value r))) = Some (lr_value r)"
    using mem_read_append [of "int (length as) + 24 + int (al (length (lr_key r)))" "as @ record_header r @ lr_key r @ p1" _ "lr_value r" "p2 @ cs"]
      b(2) al_ge [of "length (lr_key r)"] by (simp add: b(1))
qed

end
