(* ===== verification/Log_Properties.thy ===== *)
theory Log_Properties
  imports Log_Format
begin

text \<open>
  Properties of the log buffer: alignment with its wrap-around, the limit of the buffer, and the round trip from log records through
  the bytes of a replication message back to log records.
\<close>

text \<open>Appending a list of records, and walking over a message as the slave does.\<close>

fun append_records :: "log_buffer \<Rightarrow> log_record list \<Rightarrow> log_buffer option" where
  "append_records lb [] = Some lb"
| "append_records lb (r # rs) = do { lb' \<leftarrow> append_record lb r; append_records lb' rs }"

definition read_record :: "byte list \<Rightarrow> parsed_log \<Rightarrow> log_record option" where
  "read_record msg p =
     do { k \<leftarrow> mem_read msg (pl_keyData p) (uint (pl_keyLength p));
          v \<leftarrow> (case pl_valueData p of None \<Rightarrow> Some [] | Some a \<Rightarrow> mem_read msg a (uint (pl_valueLength p)));
          Some \<lparr>lr_table = pl_tableId p, lr_type = pl_logType p, lr_key = k, lr_value = v\<rparr> }"

partial_function (option) parse_records :: "byte list \<Rightarrow> int \<Rightarrow> int \<Rightarrow> log_record list option" where
  "parse_records msg addr limit =
     (if addr < limit
      then do { p \<leftarrow> parseLog msg addr;
                r \<leftarrow> read_record msg p;
                rs \<leftarrow> parse_records msg (addr + uint (calcLogSize (pl_keyLength p) (pl_valueLength p))) limit;
                Some (r # rs) }
      else Some [])"

lemma append_records_spec:
  "holds_logs lb rs \<Longrightarrow> list_all record_ok rs' \<Longrightarrow> 16 + logs_size (rs @ rs') < TX_REPLICATION_MESSAGE_SIZE \<Longrightarrow>
     \<exists>lb'. append_records lb rs' = Some lb' \<and> holds_logs lb' (rs @ rs') \<and> transactionId lb' = transactionId lb \<and> isFinalized lb' = isFinalized lb"
proof (induction rs' arbitrary: lb rs)
  case (Cons r rs')
  obtain lb1 where lb1: "append_record lb r = Some lb1" "holds_logs lb1 (rs @ [r])" "transactionId lb1 = transactionId lb"
      "isFinalized lb1 = isFinalized lb"
    using append_record_spec [OF Cons.prems(1), of r] Cons.prems(2,3) by auto
  then show ?case using Cons.IH [OF lb1(2)] Cons.prems(2,3) by auto
qed simp

lemma uint_of_nat64: "n < 2 ^ 16 \<Longrightarrow> uint (of_nat n :: 64 word) = int n"
  using unat_of_nat64 [of n] by (simp add: uint_unat del: of_nat_unat)

lemma parse_records_spec:
  "logs_image rs body \<Longrightarrow> list_all record_ok rs \<Longrightarrow> parse_records (as @ body) (int (length as)) (int (length (as @ body))) = Some rs"
proof (induction rs arbitrary: as body)
  case Nil
  then show ?case by (subst parse_records.simps) simp
next
  case (Cons r rs)
  obtain b cs where body: "body = b @ cs" and img: "log_image r b" "logs_image rs cs" using Cons.prems(1) by auto
  have ok: "record_ok r" "list_all record_ok rs" using Cons.prems(2) by auto
  have len: "length (lr_key r) < 2 ^ 16" "length (lr_value r) < 2 ^ 16" using ok(1) by (simp_all add: record_ok_def)
  note parse = parseLog_spec [OF img(1) ok(1), of as cs] and bytes = parsed_bytes [OF img(1), of as cs]
  have rest: "parse_records ((as @ b) @ cs) (int (length (as @ b))) (int (length ((as @ b) @ cs))) = Some rs"
    by (rule Cons.IH [OF img(2) ok(2)])
  have nxt: "int (length as) + uint (calcLogSize (of_nat (length (lr_key r))) (of_nat (length (lr_value r)))) = int (length (as @ b))"
    using unat_calcLogSize [OF len] log_image_length [OF img(1)] by (simp add: uint_unat record_size_def del: of_nat_unat)
  have pos: "0 < int (length b) + int (length cs)" using log_image_length [OF img(1)] by (simp add: record_size_def)
  then show ?case
    unfolding body using parse bytes rest nxt uint_of_nat64 [OF len(1)] uint_of_nat64 [OF len(2)]
    by (subst parse_records.simps) (cases "lr_value r = []"; simp add: read_record_def)
qed

section \<open>Properties\<close>

text \<open>
  C12: encoding and decoding: the records that a transaction appends to its cleared log buffer are exactly those that are parsed from the
  replication message built from the buffer, with their table ids, types, keys and values, and the message passes its check.
\<close>

theorem log_message_roundtrip:
  assumes "length (replicationMessageBuffer lb) = TX_REPLICATION_MESSAGE_SIZE" "list_all record_ok rs"
    "16 + logs_size rs < TX_REPLICATION_MESSAGE_SIZE" "0 < txId" "xo_msg_init_data xs this (16 + int (logs_size rs)) = 0"
  shows "\<exists>lb1 lb2 ref msg. append_records ((reset lb)\<lparr>transactionId := txId\<rparr>) rs = Some lb1 \<and> finalize lb1 = Some lb2 \<and>
     buildReplicationMessage xs this lb2 = Some ref \<and> message_bytes lb2 ref = Some msg \<and> checkReplicationMessage msg = Some () \<and> length msg = 16 + logs_size rs \<and>
     parse_records msg 16 (int (length msg)) = Some rs"
proof -
  let ?lb = "(reset lb)\<lparr>transactionId := txId\<rparr>"
  have "holds_logs ?lb []" using holds_logs_clear(2) [OF assms(1)] holds_logs_cong [of ?lb "reset lb"] by simp
  from append_records_spec [OF this assms(2)] assms(3)
  obtain lb1 where lb1: "append_records ?lb rs = Some lb1" "holds_logs lb1 rs" "transactionId lb1 = txId" by auto
  obtain lb2 msg where m: "finalize lb1 = Some lb2" "mem_read (replicationMessageBuffer lb2) 0 (16 + int (logs_size rs)) = Some msg"
      "message_image txId rs msg" "holds_logs lb2 rs"
    using finalize_spec [OF lb1(2)] lb1(3) assms(4) by auto
  obtain body where b: "msg = message_header_bytes txId (of_nat (length body)) @ body" "logs_image rs body"
    using m(3) unfolding message_image_def by blast
  have "parse_records msg 16 (int (length msg)) = Some rs"
    using parse_records_spec [OF b(2) assms(2), of "message_header_bytes txId (of_nat (length body))"] b(1) by simp
  then show ?thesis
    using lb1(1) m checkReplicationMessage_ok [OF m(3)] b logs_image_length [OF b(2)]
      buildReplicationMessage_spec [OF m(4), of xs this] assms(5)
    by (simp add: message_bytes_def)
qed

theorem log_message_roundtrip_witness:
  "\<exists>lb1 lb2 ref msg. append_records ((reset (log_buffer_new (replicate 65536 0)))\<lparr>transactionId := 5\<rparr>)
        [\<lparr>lr_table = 1, lr_type = LT_PUT, lr_key = [1, 2, 3], lr_value = [9]\<rparr>,
         \<lparr>lr_table = 2, lr_type = LT_DEL, lr_key = [4], lr_value = []\<rparr>] = Some lb1 \<and>
     finalize lb1 = Some lb2 \<and> message_bytes lb2 ref = Some msg \<and> length msg = 88 \<and>
     buildReplicationMessage \<lparr>xo_msg_init_data = \<lambda>a n. 0, xo_sendmsg = \<lambda>msg. 88, xo_msg_close = \<lambda>msg. 0\<rparr> 3 lb2 = Some ref \<and>
     parse_records msg 16 88 =
        Some [\<lparr>lr_table = 1, lr_type = LT_PUT, lr_key = [1, 2, 3], lr_value = [9]\<rparr>,
              \<lparr>lr_table = 2, lr_type = LT_DEL, lr_key = [4], lr_value = []\<rparr>]"
proof -
  let ?rs = "[\<lparr>lr_table = 1, lr_type = LT_PUT, lr_key = [1, 2, 3], lr_value = [9]\<rparr>,
         \<lparr>lr_table = 2, lr_type = LT_DEL, lr_key = [4], lr_value = []\<rparr>] :: log_record list"
  have b: "length (replicationMessageBuffer (log_buffer_new (replicate 65536 0))) = 65536"
    by (simp add: log_buffer_new_def reset_def clearLog_def)
  have ok: "list_all record_ok ?rs" "logs_size ?rs = 72" by (simp_all add: record_ok_def record_size_def al_def)
  let ?xs = "\<lparr>xo_msg_init_data = \<lambda>a n. 0, xo_sendmsg = \<lambda>msg. 88, xo_msg_close = \<lambda>msg. 0\<rparr> :: xs_sender"
  from log_message_roundtrip [OF b ok(1), of 5 ?xs 3] ok(2) show ?thesis by force
qed

text \<open>
  Bounds: a size is rounded up to the next multiple of eight, by less than eight; within eight of \<open>2 ^ 64\<close> the addition wraps around and the
  result is 0.
\<close>

theorem align8_bounds:
  shows "8 dvd unat (TX_ALIGN8_UP x) \<and>
     (if unat x \<le> 2 ^ 64 - 8 then unat x \<le> unat (TX_ALIGN8_UP x) \<and> unat (TX_ALIGN8_UP x) < unat x + 8 else TX_ALIGN8_UP x = 0)"
proof -
  have d: "8 dvd unat (TX_ALIGN8_UP x)" by (simp add: TX_ALIGN8_UP_def unat_and_not_7)
  show ?thesis
  proof (cases "unat x \<le> 2 ^ 64 - 8")
    case True
    then have "unat (TX_ALIGN8_UP x) = al (unat x)" by (intro unat_TX_ALIGN8_UP) simp
    then show ?thesis using True d al_ge [of "unat x"] al_less [of "unat x"] by simp
  next
    case False
    have "unat x < 2 ^ 64" using unsigned_less [where 'a = nat, of x] by simp
    then have "unat (x + 7) = unat x + 7 - 2 ^ 64" using False by (simp add: unat_word_ariths mod_if)
    then have "unat (x + 7) < 8" using \<open>unat x < 2 ^ 64\<close> by simp
    then have "unat (TX_ALIGN8_UP x) = 0" by (simp add: TX_ALIGN8_UP_def unat_and_not_7)
    then have "TX_ALIGN8_UP x = 0" by (simp only: unat_eq_zero)
    then show ?thesis using False by simp
  qed
qed

end
