(* ===== verification/Disruptor.thy ===== *)
theory Disruptor
  imports Nldb_Prelude
begin

unbundle bit_operations_syntax

text \<open>
  Model of the ring buffer library under \<^verbatim>\<open>disruptor--/disruptor\<close>, as the database uses it: sequences, the single-threaded claim strategy,
  the sequencer, the ring buffer, the wait strategies with the barrier (without their variants with a timeout), and the batch event
  processor with its exception handlers. The database uses the busy-spin strategy.

  A \<^verbatim>\<open>Sequence\<close> is the integer it holds. A list of pointers to sequences that an operation reads is the list of their current
  values. The publishing thread and the processor thread are interleaved by the theories that use this one, so a waiting loop is
  represented by one of its iterations: \<^term>\<open>None\<close>, or the result \<open>Spin\<close>, when the loop goes round again.
\<close>

section \<open>Sequences\<close>

abbreviation (input) kInitialCursorValue :: int where "kInitialCursorValue \<equiv> - 1"
abbreviation (input) LONG_MAX :: int where "LONG_MAX \<equiv> 2 ^ 63 - 1"

definition GetMinimumSequence :: "int list \<Rightarrow> int" where
  "GetMinimumSequence sequences = foldl (\<lambda>minimum s. if minimum < s then minimum else s) LONG_MAX sequences"

section \<open>The single-threaded claim strategy\<close>

record claim_strategy =
  cs_buffer_size :: int
  cs_sequence :: int
  cs_min_gating_sequence :: int

definition claim_strategy_new :: "int \<Rightarrow> claim_strategy" where
  "claim_strategy_new buffer_size =
     \<lparr>cs_buffer_size = buffer_size, cs_sequence = kInitialCursorValue, cs_min_gating_sequence = kInitialCursorValue\<rparr>"

text \<open>Whether \<^verbatim>\<open>WaitForFreeSlotAt\<close> returns when the dependent sequences have the given values.\<close>

definition WaitForFreeSlotAt :: "claim_strategy \<Rightarrow> int \<Rightarrow> int list \<Rightarrow> unit option" where
  "WaitForFreeSlotAt cs s dependent_sequences =
     (let wrap_point = s - cs_buffer_size cs in
      if wrap_point > cs_min_gating_sequence cs
      then if wrap_point > GetMinimumSequence dependent_sequences then None else Some ()
      else Some ())"

definition cs_IncrementAndGet :: "claim_strategy \<Rightarrow> int \<Rightarrow> int list \<Rightarrow> (int \<times> claim_strategy) option" where
  "cs_IncrementAndGet cs delta dependent_sequences =
     (let next_sequence = cs_sequence cs + delta; cs' = cs\<lparr>cs_sequence := next_sequence\<rparr>
      in do { _ \<leftarrow> WaitForFreeSlotAt cs' next_sequence dependent_sequences; Some (next_sequence, cs') })"

definition cs_HasAvalaibleCapacity :: "claim_strategy \<Rightarrow> int list \<Rightarrow> bool \<times> claim_strategy" where
  "cs_HasAvalaibleCapacity cs dependent_sequences =
     (let wrap_point = cs_sequence cs + 1 - cs_buffer_size cs in
      if wrap_point > cs_min_gating_sequence cs
      then let min_sequence = GetMinimumSequence dependent_sequences;
               cs' = cs\<lparr>cs_min_gating_sequence := min_sequence\<rparr>
           in (\<not> wrap_point > min_sequence, cs')
      else (True, cs))"

definition cs_SetSequence :: "claim_strategy \<Rightarrow> int \<Rightarrow> int list \<Rightarrow> claim_strategy option" where
  "cs_SetSequence cs s dependent_sequences =
     (let cs' = cs\<lparr>cs_sequence := s\<rparr>
      in do { _ \<leftarrow> WaitForFreeSlotAt cs' s dependent_sequences; Some cs' })"

section \<open>Batch descriptors\<close>

record batch_descriptor =
  bd_size :: int
  bd_end :: int

definition batch_descriptor_new :: "int \<Rightarrow> batch_descriptor" where
  "batch_descriptor_new batch_size = \<lparr>bd_size = batch_size, bd_end = kInitialCursorValue\<rparr>"

definition bd_Start :: "batch_descriptor \<Rightarrow> int" where
  "bd_Start bd = bd_end bd - bd_size bd + 1"

section \<open>The sequencer and the ring buffer\<close>

text \<open>\<^verbatim>\<open>RingBuffer\<close> extends \<^verbatim>\<open>Sequencer\<close>; the values of \<^verbatim>\<open>gating_sequences_\<close> are an argument of the claiming operations.\<close>

record 'e ring_buffer =
  rb_buffer_size :: int
  rb_cursor :: int
  rb_claim_strategy :: claim_strategy
  rb_mask :: int
  rb_events :: "'e list"

text \<open>\<open>instances\<close> is the array that the event factory creates.\<close>

definition ring_buffer_new :: "int \<Rightarrow> 'e list \<Rightarrow> 'e ring_buffer" where
  "ring_buffer_new buffer_size instances =
     \<lparr>rb_buffer_size = buffer_size, rb_cursor = kInitialCursorValue, rb_claim_strategy = claim_strategy_new buffer_size,
      rb_mask = buffer_size - 1, rb_events = instances\<rparr>"

definition rb_NewBatchDescriptor :: "'e ring_buffer \<Rightarrow> int \<Rightarrow> batch_descriptor" where
  "rb_NewBatchDescriptor rb n = batch_descriptor_new (if n < rb_buffer_size rb then n else rb_buffer_size rb)"

definition rb_GetCursor :: "'e ring_buffer \<Rightarrow> int" where
  "rb_GetCursor rb = rb_cursor rb"

definition rb_HasAvalaibleCapacity :: "'e ring_buffer \<Rightarrow> int list \<Rightarrow> bool \<times> 'e ring_buffer" where
  "rb_HasAvalaibleCapacity rb gating =
     (let (b, cs) = cs_HasAvalaibleCapacity (rb_claim_strategy rb) gating in (b, rb\<lparr>rb_claim_strategy := cs\<rparr>))"

definition rb_Next :: "'e ring_buffer \<Rightarrow> int list \<Rightarrow> (int \<times> 'e ring_buffer) option" where
  "rb_Next rb gating =
     do { (s, cs) \<leftarrow> cs_IncrementAndGet (rb_claim_strategy rb) 1 gating; Some (s, rb\<lparr>rb_claim_strategy := cs\<rparr>) }"

definition rb_Next_batch ::
    "'e ring_buffer \<Rightarrow> batch_descriptor \<Rightarrow> int list \<Rightarrow> (batch_descriptor \<times> 'e ring_buffer) option" where
  "rb_Next_batch rb bd gating =
     do { (s, cs) \<leftarrow> cs_IncrementAndGet (rb_claim_strategy rb) (bd_size bd) gating;
          Some (bd\<lparr>bd_end := s\<rparr>, rb\<lparr>rb_claim_strategy := cs\<rparr>) }"

definition rb_Claim :: "'e ring_buffer \<Rightarrow> int \<Rightarrow> int list \<Rightarrow> (int \<times> 'e ring_buffer) option" where
  "rb_Claim rb s gating =
     do { cs \<leftarrow> cs_SetSequence (rb_claim_strategy rb) s gating; Some (s, rb\<lparr>rb_claim_strategy := cs\<rparr>) }"

text \<open>\<^verbatim>\<open>SerialisePublishing\<close> of the single-threaded strategy and \<^verbatim>\<open>SignalAllWhenBlocking\<close> of the busy-spin strategy do nothing.\<close>

definition rb_Publish :: "'e ring_buffer \<Rightarrow> int \<Rightarrow> 'e ring_buffer" where
  "rb_Publish rb s = rb\<lparr>rb_cursor := s\<rparr>"

definition rb_Publish_batch :: "'e ring_buffer \<Rightarrow> batch_descriptor \<Rightarrow> 'e ring_buffer" where
  "rb_Publish_batch rb bd = rb\<lparr>rb_cursor := bd_end bd\<rparr>"

definition rb_ForcePublish :: "'e ring_buffer \<Rightarrow> int \<Rightarrow> 'e ring_buffer" where
  "rb_ForcePublish rb s = rb\<lparr>rb_cursor := s\<rparr>"

text \<open>The slot of a sequence, the event in it, and an assignment through the pointer to it.\<close>

definition rb_slot :: "'e ring_buffer \<Rightarrow> int \<Rightarrow> int" where
  "rb_slot rb s = s AND rb_mask rb"

definition rb_Get :: "'e ring_buffer \<Rightarrow> int \<Rightarrow> 'e option" where
  "rb_Get rb s = mem_get (rb_events rb) (rb_slot rb s)"

definition rb_set_event :: "'e ring_buffer \<Rightarrow> int \<Rightarrow> 'e \<Rightarrow> 'e ring_buffer" where
  "rb_set_event rb slot e = rb\<lparr>rb_events := (rb_events rb)[nat slot := e]\<rparr>"

text \<open>\<^verbatim>\<open>EventPublisher::PublishEvent\<close>.\<close>

definition PublishEvent :: "'e ring_buffer \<Rightarrow> int list \<Rightarrow> (int \<Rightarrow> 'e \<Rightarrow> 'e) \<Rightarrow> 'e ring_buffer option" where
  "PublishEvent rb gating TranslateTo =
     do { (s, rb1) \<leftarrow> rb_Next rb gating;
          e \<leftarrow> rb_Get rb1 s;
          Some (rb_Publish (rb_set_event rb1 (rb_slot rb1 s) (TranslateTo s e)) s) }"

section \<open>Waiting for published events\<close>

datatype wait_result = Available int | Spin | AlertException

definition busy_spin_WaitFor :: "int list \<Rightarrow> int \<Rightarrow> bool \<Rightarrow> int \<Rightarrow> wait_result" where
  "busy_spin_WaitFor dependents cursor alerted s =
     (let available_sequence = (if dependents = [] then cursor else GetMinimumSequence dependents)
      in if available_sequence < s then if alerted then AlertException else Spin
         else Available available_sequence)"

text \<open>
  The other strategies. The blocking strategy waits for the cursor first, on a condition variable, and then spins on the
  dependent sequences. The sleeping and the yielding strategy count down before they give up the processor; \<open>counter\<close> is the counter of the
  iteration, and the result carries the next one.
\<close>

definition blocking_WaitFor :: "int list \<Rightarrow> int \<Rightarrow> bool \<Rightarrow> int \<Rightarrow> wait_result" where
  "blocking_WaitFor dependents cursor alerted s =
     (if cursor < s then if alerted then AlertException else Spin
      else if dependents \<noteq> []
      then if GetMinimumSequence dependents < s then if alerted then AlertException else Spin
           else Available (GetMinimumSequence dependents)
      else Available cursor)"

abbreviation (input) kRetries :: int where "kRetries \<equiv> 200"
abbreviation (input) kSpinTries :: int where "kSpinTries \<equiv> 100"

definition sleeping_ApplyWaitMethod :: "bool \<Rightarrow> int \<Rightarrow> int option" where
  "sleeping_ApplyWaitMethod alerted counter =
     (if alerted then None else Some (if counter > 100 then counter - 1 else if counter > 0 then counter - 1 else counter))"

definition sleeping_WaitFor :: "int list \<Rightarrow> int \<Rightarrow> bool \<Rightarrow> int \<Rightarrow> int \<Rightarrow> wait_result \<times> int" where
  "sleeping_WaitFor dependents cursor alerted s counter =
     (let available_sequence = (if dependents = [] then cursor else GetMinimumSequence dependents)
      in if available_sequence < s
         then case sleeping_ApplyWaitMethod alerted counter of None \<Rightarrow> (AlertException, counter) | Some c \<Rightarrow> (Spin, c)
         else (Available available_sequence, counter))"

definition yielding_ApplyWaitMethod :: "bool \<Rightarrow> int \<Rightarrow> int option" where
  "yielding_ApplyWaitMethod alerted counter = (if alerted then None else Some (if counter = 0 then counter else counter - 1))"

definition yielding_WaitFor :: "int list \<Rightarrow> int \<Rightarrow> bool \<Rightarrow> int \<Rightarrow> int \<Rightarrow> wait_result \<times> int" where
  "yielding_WaitFor dependents cursor alerted s counter =
     (let available_sequence = (if dependents = [] then cursor else GetMinimumSequence dependents)
      in if available_sequence < s
         then case yielding_ApplyWaitMethod alerted counter of None \<Rightarrow> (AlertException, counter) | Some c \<Rightarrow> (Spin, c)
         else (Available available_sequence, counter))"

section \<open>The batch event processor\<close>

text \<open>Where the thread that executes \<^verbatim>\<open>Run\<close> is: in \<^verbatim>\<open>WaitFor\<close>, in the loop over the available events, or past the loop.\<close>

datatype processor_pc = Waiting | Handling int | Stopped

record batch_processor =
  bp_running :: bool
  bp_alerted :: bool
  bp_sequence :: int
  bp_next_sequence :: int
  bp_pc :: processor_pc

definition batch_processor_new :: batch_processor where
  "batch_processor_new =
     \<lparr>bp_running = False, bp_alerted = False, bp_sequence = kInitialCursorValue, bp_next_sequence = 0, bp_pc = Stopped\<rparr>"

definition bp_Run :: "batch_processor \<Rightarrow> batch_processor option" where
  "bp_Run p =
     (if bp_running p then None
      else Some (p\<lparr>bp_running := True, bp_alerted := False, bp_next_sequence := bp_sequence p + 1, bp_pc := Waiting\<rparr>))"

definition bp_Halt :: "batch_processor \<Rightarrow> batch_processor" where
  "bp_Halt p = p\<lparr>bp_running := False, bp_alerted := True\<rparr>"

text \<open>
  How a call of the event handler ends: it returns, or it throws an exception, which may be an \<^verbatim>\<open>AlertException\<close>. An exception handler acts on the same
  state \<open>'s\<close>; \<^term>\<open>None\<close> when it throws, which ends the thread.
\<close>

datatype 's outcome = Returned 's | ThrewAlert 's | Threw 's

type_synonym 's exception_handler = "'s \<Rightarrow> int \<Rightarrow> 's option"

definition IgnoreExceptionHandler :: "'s exception_handler" where
  "IgnoreExceptionHandler st s = Some st"

definition FatalExceptionHandler :: "'s exception_handler" where
  "FatalExceptionHandler st s = None"

text \<open>
  One step of the thread: \<open>cursor\<close> and \<open>dependents\<close> are what the barrier reads, \<open>OnEvent\<close> is the event handler, \<open>Handle\<close> the exception handler.
  After the last available event, and after an exception, the sequence of the processor is set.
\<close>

definition bp_run_step ::
    "int list \<Rightarrow> int \<Rightarrow> ('s \<Rightarrow> int \<Rightarrow> bool \<Rightarrow> 's outcome option) \<Rightarrow> 's exception_handler \<Rightarrow> batch_processor \<Rightarrow> 's
      \<Rightarrow> (batch_processor \<times> 's) option" where
  "bp_run_step dependents cursor OnEvent Handle p st =
     (case bp_pc p of
        Waiting \<Rightarrow>
          (case busy_spin_WaitFor dependents cursor (bp_alerted p) (bp_next_sequence p) of
             Available available \<Rightarrow> Some (p\<lparr>bp_pc := Handling available\<rparr>, st)
           | Spin \<Rightarrow> Some (p, st)
           | AlertException \<Rightarrow> Some (if bp_running p then p else p\<lparr>bp_running := False, bp_pc := Stopped\<rparr>, st))
      | Handling available \<Rightarrow>
          if bp_next_sequence p \<le> available
          then do { r \<leftarrow> OnEvent st (bp_next_sequence p) (bp_next_sequence p = available);
                    case r of
                      Returned st' \<Rightarrow> Some (p\<lparr>bp_next_sequence := bp_next_sequence p + 1\<rparr>, st')
                    | ThrewAlert st' \<Rightarrow> Some (p\<lparr>bp_pc := if bp_running p then Waiting else Stopped\<rparr>, st')
                    | Threw st' \<Rightarrow> do { st'' \<leftarrow> Handle st' (bp_next_sequence p);
                                       Some (p\<lparr>bp_sequence := bp_next_sequence p, bp_next_sequence := bp_next_sequence p + 1,
                                               bp_pc := Waiting\<rparr>, st'') } }
          else Some (p\<lparr>bp_sequence := bp_next_sequence p - 1, bp_pc := Waiting\<rparr>, st)
      | Stopped \<Rightarrow> Some (p, st))"

text \<open>The step with an event handler that does not throw, as the handlers of the database do not, and the handler of exceptions that the database uses.\<close>

definition bp_step ::
    "int list \<Rightarrow> int \<Rightarrow> ('s \<Rightarrow> int \<Rightarrow> bool \<Rightarrow> 's option) \<Rightarrow> batch_processor \<Rightarrow> 's \<Rightarrow> (batch_processor \<times> 's) option" where
  "bp_step dependents cursor OnEvent p st =
     bp_run_step dependents cursor (\<lambda>st s end_of_batch. map_option Returned (OnEvent st s end_of_batch)) IgnoreExceptionHandler p st"

lemma bp_step_eq:
  "bp_step dependents cursor OnEvent p st =
     (case bp_pc p of
        Waiting \<Rightarrow>
          (case busy_spin_WaitFor dependents cursor (bp_alerted p) (bp_next_sequence p) of
             Available available \<Rightarrow> Some (p\<lparr>bp_pc := Handling available\<rparr>, st)
           | Spin \<Rightarrow> Some (p, st)
           | AlertException \<Rightarrow> Some (if bp_running p then p else p\<lparr>bp_running := False, bp_pc := Stopped\<rparr>, st))
      | Handling available \<Rightarrow>
          if bp_next_sequence p \<le> available
          then map_option (\<lambda>st'. (p\<lparr>bp_next_sequence := bp_next_sequence p + 1\<rparr>, st'))
                 (OnEvent st (bp_next_sequence p) (bp_next_sequence p = available))
          else Some (p\<lparr>bp_sequence := bp_next_sequence p - 1, bp_pc := Waiting\<rparr>, st)
      | Stopped \<Rightarrow> Some (p, st))"
  by (auto simp: bp_step_def bp_run_step_def map_option_case split: processor_pc.split option.split)

text \<open>The processor that handles nothing: its sequence is the cursor of the ring, and \<^verbatim>\<open>Run\<close> and \<^verbatim>\<open>Halt\<close> are empty.\<close>

definition noop_GetSequence :: "'e ring_buffer \<Rightarrow> int" where
  "noop_GetSequence rb = rb_cursor rb"

section \<open>Properties of the ring\<close>

lemma and_mask_mod: "s AND (2 ^ n - 1) = s mod 2 ^ n" for s :: int
  using take_bit_eq_mask [of n s] by (simp add: mask_eq_exp_minus_1 take_bit_eq_mod)

lemma foldl_min: "foldl (\<lambda>m s. if m < s then m else s) (m :: int) xs = fold min xs m"
  by (induction xs arbitrary: m) (auto simp: min_def)

lemma slot_distinct:
  assumes "rb_mask rb = 2 ^ n - 1" "\<bar>s - s'\<bar> < 2 ^ n" "s \<noteq> s'"
  shows "rb_slot rb s \<noteq> rb_slot rb s'"
proof
  assume "rb_slot rb s = rb_slot rb s'"
  then have "s mod 2 ^ n = s' mod 2 ^ n" by (simp add: rb_slot_def assms(1) and_mask_mod)
  then have "2 ^ n dvd s - s'" by (simp add: mod_eq_dvd_iff)
  then show False using dvd_imp_le_int [of "s - s'" "2 ^ n"] assms(2,3) by simp
qed

lemma slot_range: "rb_mask rb = 2 ^ n - 1 \<Longrightarrow> 0 \<le> rb_slot rb s \<and> rb_slot rb s < 2 ^ n"
  by (simp add: rb_slot_def and_mask_mod)

end
