(* ===== verification/Sequence_Barrier.thy ===== *)
theory Sequence_Barrier
  imports Disruptor
begin

text \<open>
  The barrier through which a processor waits for events (\<^verbatim>\<open>sequence_barrier.h\<close>), the choice of the strategies
  (\<^verbatim>\<open>CreateWaitStrategy\<close> and \<^verbatim>\<open>CreateClaimStrategy\<close>), and the variants of \<^verbatim>\<open>WaitFor\<close> with a timeout (\<^verbatim>\<open>wait_strategy.h\<close>). As before, a waiting loop is
  one of its iterations. A timed wait that gives up hands out the sequence that it read last, which is smaller than the
  one asked for.
\<close>

section \<open>Waiting with a timeout\<close>

text \<open>
  The blocking strategy has two loops. \<open>cursor_passed\<close> says that the first one has been left; the result says so for the next iteration.
  \<open>cv_timeout\<close> is what the condition variable reports in this iteration: each call of \<^verbatim>\<open>wait_for\<close> waits for the full time again, so it is
  independent of the time that has passed since the start. A timeout leaves the first loop with the cursor read before it, without looking at
  the alert again; the second loop has no timeout.
\<close>

definition blocking_WaitFor_timed :: "int list \<Rightarrow> int \<Rightarrow> bool \<Rightarrow> int \<Rightarrow> bool \<Rightarrow> bool \<Rightarrow> wait_result \<times> bool" where
  "blocking_WaitFor_timed dependents cursor alerted s cv_timeout cursor_passed =
     (if \<not> cursor_passed \<and> cursor < s
      then if alerted then (AlertException, False)
           else if \<not> cv_timeout then (Spin, False)
           else if dependents \<noteq> [] then (Spin, True)
           else (Available cursor, True)
      else if dependents \<noteq> []
      then if GetMinimumSequence dependents < s then (if alerted then AlertException else Spin, True)
           else (Available (GetMinimumSequence dependents), True)
      else (Available cursor, True))"

text \<open>\<open>start_micro\<close> and \<open>end_micro\<close> are the times read before the loop and in the iteration.\<close>

definition sleeping_WaitFor_timed :: "int list \<Rightarrow> int \<Rightarrow> bool \<Rightarrow> int \<Rightarrow> int \<Rightarrow> int \<Rightarrow> int \<Rightarrow> int \<Rightarrow> wait_result \<times> int" where
  "sleeping_WaitFor_timed dependents cursor alerted s counter timeout_micros start_micro end_micro =
     (let available_sequence = (if dependents = [] then cursor else GetMinimumSequence dependents)
      in if available_sequence < s
         then case sleeping_ApplyWaitMethod alerted counter of
                None \<Rightarrow> (AlertException, counter)
              | Some c \<Rightarrow> (if timeout_micros < end_micro - start_micro then Available available_sequence else Spin, c)
         else (Available available_sequence, counter))"

definition yielding_WaitFor_timed :: "int list \<Rightarrow> int \<Rightarrow> bool \<Rightarrow> int \<Rightarrow> int \<Rightarrow> int \<Rightarrow> int \<Rightarrow> int \<Rightarrow> wait_result \<times> int" where
  "yielding_WaitFor_timed dependents cursor alerted s counter timeout_micros start_micro end_micro =
     (let available_sequence = (if dependents = [] then cursor else GetMinimumSequence dependents)
      in if available_sequence < s
         then case yielding_ApplyWaitMethod alerted counter of
                None \<Rightarrow> (AlertException, counter)
              | Some c \<Rightarrow> (if timeout_micros < end_micro - start_micro then Available available_sequence else Spin, c)
         else (Available available_sequence, counter))"

definition busy_spin_WaitFor_timed :: "int list \<Rightarrow> int \<Rightarrow> bool \<Rightarrow> int \<Rightarrow> int \<Rightarrow> int \<Rightarrow> int \<Rightarrow> wait_result" where
  "busy_spin_WaitFor_timed dependents cursor alerted s timeout_micros start_micro end_micro =
     (let available_sequence = (if dependents = [] then cursor else GetMinimumSequence dependents)
      in if available_sequence < s
         then if alerted then AlertException
              else if timeout_micros < end_micro - start_micro then Available available_sequence else Spin
         else Available available_sequence)"

section \<open>Choice of the strategies\<close>

datatype wait_strategy = BlockingStrategy | SleepingStrategy | YieldingStrategy | BusySpinStrategy

text \<open>The options are the values of the enumerations; \<^term>\<open>None\<close> is the null pointer.\<close>

definition CreateWaitStrategy :: "nat \<Rightarrow> wait_strategy option" where
  "CreateWaitStrategy wait_option =
     (if wait_option = 0 then Some BlockingStrategy
      else if wait_option = 1 then Some SleepingStrategy
      else if wait_option = 2 then Some YieldingStrategy
      else if wait_option = 3 then Some BusySpinStrategy
      else None)"

definition CreateClaimStrategy :: "nat \<Rightarrow> int \<Rightarrow> claim_strategy option" where
  "CreateClaimStrategy option buffer_size = (if option = 0 then Some (claim_strategy_new buffer_size) else None)"

section \<open>The barrier\<close>

record sequence_barrier =
  sb_wait_strategy :: wait_strategy
  sb_alerted :: bool

definition sb_new :: "wait_strategy \<Rightarrow> sequence_barrier" where
  "sb_new wait_strategy = \<lparr>sb_wait_strategy = wait_strategy, sb_alerted = False\<rparr>"

definition sb_Alert :: "sequence_barrier \<Rightarrow> sequence_barrier" where
  "sb_Alert b = b\<lparr>sb_alerted := True\<rparr>"

definition sb_ClearAlert :: "sequence_barrier \<Rightarrow> sequence_barrier" where
  "sb_ClearAlert b = b\<lparr>sb_alerted := False\<rparr>"

text \<open>\<open>counter\<close> is the counter of the sleeping and the yielding strategy before the iteration.\<close>

definition sb_WaitFor :: "sequence_barrier \<Rightarrow> int list \<Rightarrow> int \<Rightarrow> int \<Rightarrow> int \<Rightarrow> wait_result \<times> int" where
  "sb_WaitFor b dependents cursor s counter =
     (case sb_wait_strategy b of
        BlockingStrategy \<Rightarrow> (blocking_WaitFor dependents cursor (sb_alerted b) s, counter)
      | SleepingStrategy \<Rightarrow> sleeping_WaitFor dependents cursor (sb_alerted b) s counter
      | YieldingStrategy \<Rightarrow> yielding_WaitFor dependents cursor (sb_alerted b) s counter
      | BusySpinStrategy \<Rightarrow> (busy_spin_WaitFor dependents cursor (sb_alerted b) s, counter))"

definition sb_WaitFor_timed ::
    "sequence_barrier \<Rightarrow> int list \<Rightarrow> int \<Rightarrow> int \<Rightarrow> int \<Rightarrow> int \<Rightarrow> int \<Rightarrow> int \<Rightarrow> bool \<Rightarrow> bool \<Rightarrow> (wait_result \<times> int) \<times> bool" where
  "sb_WaitFor_timed b dependents cursor s counter timeout_micros start_micro end_micro cv_timeout cursor_passed =
     (case sb_wait_strategy b of
        BlockingStrategy \<Rightarrow>
          (let (r, passed) = blocking_WaitFor_timed dependents cursor (sb_alerted b) s cv_timeout cursor_passed in ((r, counter), passed))
      | SleepingStrategy \<Rightarrow>
          (sleeping_WaitFor_timed dependents cursor (sb_alerted b) s counter timeout_micros start_micro end_micro, cursor_passed)
      | YieldingStrategy \<Rightarrow>
          (yielding_WaitFor_timed dependents cursor (sb_alerted b) s counter timeout_micros start_micro end_micro, cursor_passed)
      | BusySpinStrategy \<Rightarrow>
          ((busy_spin_WaitFor_timed dependents cursor (sb_alerted b) s timeout_micros start_micro end_micro, counter), cursor_passed))"

lemmas wait_defs =
  blocking_WaitFor_def busy_spin_WaitFor_def sleeping_WaitFor_def yielding_WaitFor_def
  blocking_WaitFor_timed_def busy_spin_WaitFor_timed_def sleeping_WaitFor_timed_def yielding_WaitFor_timed_def
  sleeping_ApplyWaitMethod_def yielding_ApplyWaitMethod_def Let_def

end
