(* ===== verification/Disruptor_Properties.thy ===== *)
theory Disruptor_Properties
  imports Sequence_Barrier
begin

text \<open>
  Properties of the ring buffer library on its own: publishing through a claimed slot, and the agreement of the wait strategies.
\<close>

lemma GetMinimumSequence_bounds: "GetMinimumSequence xs \<le> LONG_MAX \<and> (\<forall>x\<in>set xs. GetMinimumSequence xs \<le> x)"
proof -
  have "fold min xs m \<le> m \<and> (\<forall>x\<in>set xs. fold min xs m \<le> x)" for m :: int
  proof (induction xs arbitrary: m)
    case (Cons x xs)
    have "fold min xs (min x m) \<le> min x m" using Cons by blast
    then show ?case using Cons by simp
  qed simp
  then show ?thesis unfolding GetMinimumSequence_def foldl_min by blast
qed

text \<open>
  The gate that the claim strategy remembers is never ahead of a reader: it starts as the initial value of a sequence, \<open>HasAvalaibleCapacity\<close> sets it to
  the slowest reader, and readers only move on.
\<close>

definition gate_behind :: "claim_strategy \<Rightarrow> int list \<Rightarrow> bool" where
  "gate_behind cs gating \<longleftrightarrow> (\<forall>g\<in>set gating. cs_min_gating_sequence cs \<le> g)"

lemma gate_behind_capacity:
  assumes "gate_behind cs gating"
  shows "gate_behind (snd (cs_HasAvalaibleCapacity cs gating)) gating"
  using assms GetMinimumSequence_bounds [of gating] by (auto simp: gate_behind_def cs_HasAvalaibleCapacity_def Let_def)

lemma gate_behind_new: "\<forall>g\<in>set gating. - 1 \<le> g \<Longrightarrow> gate_behind (claim_strategy_new buffer_size) gating"
  by (simp add: gate_behind_def claim_strategy_new_def)

lemma gate_behind_mono: "gate_behind cs gating \<Longrightarrow> list_all2 (\<le>) gating gating' \<Longrightarrow> gate_behind cs gating'"
  unfolding gate_behind_def by (metis in_set_conv_nth list_all2_conv_all_nth order_trans)

definition sample_ring :: "int ring_buffer" where
  "sample_ring = ring_buffer_new 4 [0, 0, 0, 0]"

section \<open>Properties\<close>

text \<open>
  C24: publishing an event makes the translated event readable at the new cursor, which is the next sequence; it does not touch the events
  of the preceding sequences that share the ring, and it does not happen while a gated reader is a whole ring behind, so that no event
  is overwritten that a reader has still to read. The gate remembered by the claim strategy stays behind the readers.
\<close>

theorem publish_event_safe:
  assumes "rb_mask rb = 2 ^ n - 1" "length (rb_events rb) = 2 ^ n" "cs_buffer_size (rb_claim_strategy rb) = 2 ^ n"
    "gate_behind (rb_claim_strategy rb) gating" "PublishEvent rb gating translate = Some rb'" "s = cs_sequence (rb_claim_strategy rb) + 1"
  shows "rb_cursor rb' = s \<and> cs_sequence (rb_claim_strategy rb') = s \<and> gate_behind (rb_claim_strategy rb') gating \<and>
     (\<exists>e. rb_Get rb s = Some e \<and> rb_Get rb' s = Some (translate s e)) \<and>
     (\<forall>q. s - 2 ^ n < q \<and> q < s \<longrightarrow> rb_Get rb' q = rb_Get rb q) \<and>
     (\<forall>g\<in>set gating. s - 2 ^ n \<le> g)"
proof -
  let ?cs = "rb_claim_strategy rb"
  let ?rb1 = "rb\<lparr>rb_claim_strategy := ?cs\<lparr>cs_sequence := s\<rparr>\<rparr>"
  have slot: "rb_slot ?rb1 q = rb_slot rb q" for q by (simp add: rb_slot_def)
  have range: "0 \<le> rb_slot rb q" "rb_slot rb q < 2 ^ n" for q using slot_range [OF assms(1)] by simp_all
  obtain e where e: "rb_Get ?rb1 s = Some e"
    and pub: "rb' = rb_Publish (rb_set_event ?rb1 (rb_slot ?rb1 s) (translate s e)) s"
    and free: "s - 2 ^ n \<le> cs_min_gating_sequence ?cs \<or> s - 2 ^ n \<le> GetMinimumSequence gating"
    using assms(3,5,6)
    by (auto simp: PublishEvent_def rb_Next_def cs_IncrementAndGet_def WaitForFreeSlotAt_def Let_def split: Option.bind_splits if_splits)
  note rb' = pub [unfolded slot]
  have get: "rb_Get rb q = Some (rb_events rb ! nat (rb_slot rb q))" for q
    using range [of q] assms(2) by (simp add: rb_Get_def mem_get_def nat_less_iff)
  have get': "rb_Get rb' q = (if rb_slot rb q = rb_slot rb s then Some (translate s e) else rb_Get rb q)" for q
    using range [of q] range [of s] assms(2)
    by (auto simp: get rb' rb_Get_def mem_get_def rb_Publish_def rb_set_event_def rb_slot_def nat_less_iff nth_list_update eq_nat_nat_iff)
  have other: "rb_slot rb q \<noteq> rb_slot rb s" if "s - 2 ^ n < q" "q < s" for q
    using slot_distinct [OF assms(1), of q s] that by simp
  have "rb_Get rb s = Some e" using e by (simp add: rb_Get_def slot)
  moreover have "\<forall>g\<in>set gating. s - 2 ^ n \<le> g"
    using free assms(4) GetMinimumSequence_bounds [of gating] by (force simp: gate_behind_def)
  moreover have "gate_behind (rb_claim_strategy rb') gating" using assms(4) by (simp add: rb' rb_Publish_def rb_set_event_def gate_behind_def)
  ultimately show ?thesis
    using other by (auto simp: get') (simp_all add: rb' rb_Publish_def rb_set_event_def)
qed

theorem publish_event_safe_witness:
  "\<exists>rb'. PublishEvent sample_ring [-1] (\<lambda>s e. 10 + s) = Some rb' \<and> rb_cursor rb' = 0 \<and> rb_Get rb' 0 = Some 10"
proof -
  have p: "PublishEvent sample_ring [-1] (\<lambda>s e. 10 + s) \<noteq> None" by code_simp
  then obtain rb' where "PublishEvent sample_ring [-1] (\<lambda>s e. 10 + s) = Some rb'" by blast
  with publish_event_safe [of sample_ring 2 "[-1]" "\<lambda>s e. 10 + s" rb' 0] show ?thesis
    by (simp add: sample_ring_def ring_buffer_new_def claim_strategy_new_def gate_behind_def)
qed

text \<open>
  The choice of the wait strategy does not matter: in the same situation, with some dependent sequence not ahead of the cursor, a barrier
  hands out the same sequence, keeps waiting, or reports the alert under each of the four strategies, and their counters never grow or become negative.
  A wait with a timeout of the sleeping, yielding or busy-spin strategy does the same until the time is over and then ends. The blocking strategy
  does not look at the time: it does the same as without a timeout in every iteration in which its condition variable is notified, however long it
  has been waiting; when the condition variable reports a timeout it ends the wait, unless there are dependent sequences, for which it waits
  without a limit.
\<close>

theorem wait_strategies_agree:
  assumes "dependents = [] \<or> (\<exists>d\<in>set dependents. d \<le> cursor)" "0 \<le> counter"
  shows "fst (sb_WaitFor b dependents cursor s counter) = busy_spin_WaitFor dependents cursor (sb_alerted b) s \<and>
     snd (sb_WaitFor b dependents cursor s counter) \<in> {0..counter} \<and>
     (sb_wait_strategy b \<noteq> BlockingStrategy \<and> \<not> timeout < now - start \<longrightarrow>
        fst (sb_WaitFor_timed b dependents cursor s counter timeout start now cv_timeout cursor_passed) = sb_WaitFor b dependents cursor s counter) \<and>
     (sb_wait_strategy b \<noteq> BlockingStrategy \<and> timeout < now - start \<longrightarrow>
        fst (fst (sb_WaitFor_timed b dependents cursor s counter timeout start now cv_timeout cursor_passed)) \<noteq> Spin) \<and>
     (sb_wait_strategy b = BlockingStrategy \<and> \<not> cv_timeout \<longrightarrow>
        fst (sb_WaitFor_timed b dependents cursor s counter timeout start now cv_timeout False) = sb_WaitFor b dependents cursor s counter) \<and>
     (sb_wait_strategy b = BlockingStrategy \<and> cv_timeout \<and> dependents = [] \<longrightarrow>
        fst (fst (sb_WaitFor_timed b dependents cursor s counter timeout start now cv_timeout False)) \<noteq> Spin) \<and>
     (sb_wait_strategy b = BlockingStrategy \<and> GetMinimumSequence dependents < s \<and> dependents \<noteq> [] \<and> \<not> sb_alerted b \<longrightarrow>
        sb_WaitFor_timed b dependents cursor s counter timeout start now cv_timeout True = ((Spin, counter), True))"
proof -
  have m: "GetMinimumSequence dependents \<le> cursor" if "dependents \<noteq> []"
    using assms(1) that GetMinimumSequence_bounds [of dependents] by force
  then show ?thesis
    using assms(2-) by (cases "sb_wait_strategy b"; simp add: sb_WaitFor_def sb_WaitFor_timed_def wait_defs; fastforce)
qed

end
