(* ===== verification/Transactions.thy ===== *)
theory Transactions
  imports Disruptor Log_Buffer
begin

text \<open>
  Model of the transactional part of \<^verbatim>\<open>nldb.cpp\<close> and of \<^verbatim>\<open>nldb_txevent.h\<close>: the ring buffer of transaction events
  (\<^verbatim>\<open>TxTransactionsLogs\<close>), the life of a transaction (\<^verbatim>\<open>nldb_tx_impl_t\<close>), and the event handler that publishes the
  logs of ended transactions to the slaves (\<^verbatim>\<open>TxTransactionLogPublisher\<close>).

  A pointer to a transaction event is the index of its slot in the ring. The function-local static \<^verbatim>\<open>nextTxId\<close> of \<^verbatim>\<open>begin\<close>
  and \<^verbatim>\<open>prevTransactionId\<close> of \<^verbatim>\<open>OnEvent\<close> are passed explicitly. The return codes of the messaging library are parameters. A message that
  \<^verbatim>\<open>xs_sendmsg\<close> accepts is queued in the library as a reference to the buffer of its event, because \<^verbatim>\<open>xs_msg_init_data\<close> does not copy;
  a thread of the library transmits the queued messages in order, each with the bytes that the buffer has at that moment.
\<close>

section \<open>Transaction events\<close>

record tx_event =
  ev_value :: int
  ev_log :: log_buffer

abbreviation (input) NLDB_TX_EVENT_COUNT :: nat where
  "NLDB_TX_EVENT_COUNT \<equiv> 2048"

text \<open>\<^verbatim>\<open>TxTransactionEventFactory\<close>: \<open>mems\<close> are the contents of the fresh buffers.\<close>

definition NewInstance :: "byte list list \<Rightarrow> tx_event list" where
  "NewInstance mems = map (\<lambda>mem. \<lparr>ev_value = 0, ev_log = log_buffer_new mem\<rparr>) mems"

definition TranslateTo :: "int \<Rightarrow> tx_event \<Rightarrow> tx_event" where
  "TranslateTo s e = e\<lparr>ev_value := s\<rparr>"

section \<open>The logs of the transactions\<close>

text \<open>
  Each replicator runs a batch event processor in a thread of its own. A new replicator follows the one added before it, and only the
  last one gates the ring buffer.
\<close>

record tx_logs =
  tl_ring :: "tx_event ring_buffer"
  tl_currentSequence :: int
  tl_replicators :: "batch_processor list"

definition tx_logs_new :: "byte list list \<Rightarrow> tx_logs" where
  "tx_logs_new mems =
     \<lparr>tl_ring = ring_buffer_new (int NLDB_TX_EVENT_COUNT) (NewInstance mems), tl_currentSequence = - 1, tl_replicators = []\<rparr>"

definition sequence_to_track :: "batch_processor list \<Rightarrow> int list" where
  "sequence_to_track replicators = (if replicators = [] then [] else [bp_sequence (last replicators)])"

definition addReplicator :: "tx_logs \<Rightarrow> tx_logs option" where
  "addReplicator logs =
     do { processor \<leftarrow> bp_Run batch_processor_new;
          Some (logs\<lparr>tl_replicators := tl_replicators logs @ [processor]\<rparr>) }"

definition hasReplicators :: "tx_logs \<Rightarrow> bool" where
  "hasReplicators logs \<longleftrightarrow> tl_replicators logs \<noteq> []"

definition tl_destroy :: "tx_logs \<Rightarrow> tx_logs" where
  "tl_destroy logs = logs\<lparr>tl_replicators := map bp_Halt (tl_replicators logs)\<rparr>"

definition getNextTransactionEvent :: "tx_logs \<Rightarrow> (int \<times> tx_logs) option" where
  "getNextTransactionEvent logs =
     do { (s, rb) \<leftarrow> rb_Next (tl_ring logs) (sequence_to_track (tl_replicators logs));
          if s < 0 then None
          else do {
            txEvent \<leftarrow> rb_Get rb s;
            Some (rb_slot rb s,
                  logs\<lparr>tl_ring := rb_set_event rb (rb_slot rb s) (TranslateTo s txEvent), tl_currentSequence := s\<rparr>) } }"

definition getCurrentTransactionEvent :: "tx_logs \<Rightarrow> int option" where
  "getCurrentTransactionEvent logs =
     (if tl_currentSequence logs \<ge> 0 then Some (rb_slot (tl_ring logs) (tl_currentSequence logs)) else None)"

definition commitCurrentTransactionEvent :: "tx_logs \<Rightarrow> tx_logs option" where
  "commitCurrentTransactionEvent logs =
     (if \<not> tl_currentSequence logs \<ge> 0 then None
      else Some (logs\<lparr>tl_ring := rb_Publish (tl_ring logs) (tl_currentSequence logs), tl_currentSequence := - 1\<rparr>))"

text \<open>Whether \<^verbatim>\<open>waitForReplicationPublishers\<close> finds every processor at the cursor it read when it was called.\<close>

definition waitForReplicationPublishers :: "tx_logs \<Rightarrow> int \<Rightarrow> bool" where
  "waitForReplicationPublishers logs expected_sequence =
     list_all (\<lambda>p. \<not> bp_sequence p < expected_sequence) (tl_replicators logs)"

text \<open>The log buffer behind a pointer to an event, and an update of it.\<close>

definition getLogBuffer :: "tx_logs \<Rightarrow> int \<Rightarrow> log_buffer option" where
  "getLogBuffer logs slot = map_option ev_log (mem_get (rb_events (tl_ring logs)) slot)"

definition setLogBuffer :: "tx_logs \<Rightarrow> int \<Rightarrow> log_buffer \<Rightarrow> tx_logs" where
  "setLogBuffer logs slot lb =
     logs\<lparr>tl_ring := rb_set_event (tl_ring logs) slot ((rb_events (tl_ring logs) ! nat slot)\<lparr>ev_log := lb\<rparr>)\<rparr>"

section \<open>Transactions\<close>

record tx_impl =
  tx_db :: ptr
  tx_txEvent :: "int option"

definition tx_impl_new :: tx_impl where
  "tx_impl_new = \<lparr>tx_db = NULL, tx_txEvent = None\<rparr>"

definition tx_init :: "tx_impl \<Rightarrow> ptr \<Rightarrow> nldb_rc_t \<times> tx_impl" where
  "tx_init tx db = (if tx_db tx \<noteq> NULL then (NLDB_ERROR_TX_ALREADY_INITIALIZED, tx) else (NLDB_OK, tx\<lparr>tx_db := db\<rparr>))"

abbreviation (input) INITIAL_TRANSACTION_ID :: int where "INITIAL_TRANSACTION_ID \<equiv> 1"

definition tx_begin :: "tx_impl \<Rightarrow> tx_logs \<Rightarrow> int \<Rightarrow> (nldb_rc_t \<times> tx_impl \<times> tx_logs \<times> int) option" where
  "tx_begin tx logs nextTxId =
     (if tx_txEvent tx \<noteq> None then None
      else do {
        (txEvent, logs1) \<leftarrow>
          (case getCurrentTransactionEvent logs of
             Some txEvent \<Rightarrow> do { lb \<leftarrow> getLogBuffer logs txEvent;
                              if totalLogCount lb \<noteq> 0 then None else Some (txEvent, logs) }
           | None \<Rightarrow> getNextTransactionEvent logs);
        lb \<leftarrow> getLogBuffer logs1 txEvent;
        if \<not> isClear lb then None
        else do { lb' \<leftarrow> setTransactionId lb nextTxId;
                  Some (NLDB_OK, tx\<lparr>tx_txEvent := Some txEvent\<rparr>, setLogBuffer logs1 txEvent lb', nextTxId + 1) } })"

text \<open>\<^verbatim>\<open>end\<close>: publish the finished log, or clear it when there is no replicator.\<close>

definition tx_end :: "tx_impl \<Rightarrow> tx_logs \<Rightarrow> (nldb_rc_t \<times> tx_impl \<times> tx_logs) option" where
  "tx_end tx logs =
     do { txEvent \<leftarrow> tx_txEvent tx;
          lb \<leftarrow> getLogBuffer logs txEvent;
          lb' \<leftarrow> finalize lb;
          let logs1 = setLogBuffer logs txEvent lb';
          logs2 \<leftarrow> (if hasReplicators logs1 then commitCurrentTransactionEvent logs1
                    else Some (setLogBuffer logs1 txEvent (reset lb')));
          Some (NLDB_OK, tx\<lparr>tx_txEvent := None\<rparr>, logs2) }"

definition tx_commit :: "tx_impl \<Rightarrow> tx_logs \<Rightarrow> (nldb_rc_t \<times> tx_impl \<times> tx_logs) option" where
  "tx_commit tx logs = tx_end tx logs"

definition tx_abort :: "tx_impl \<Rightarrow> tx_logs \<Rightarrow> (nldb_rc_t \<times> tx_impl \<times> tx_logs) option" where
  "tx_abort tx logs =
     do { txEvent \<leftarrow> tx_txEvent tx;
          lb \<leftarrow> getLogBuffer logs txEvent;
          tx_end tx (setLogBuffer logs txEvent (clearLog lb)) }"

definition append_log_put :: "tx_impl \<Rightarrow> tx_logs \<Rightarrow> int \<Rightarrow> nldb_key_t \<Rightarrow> nldb_value_t \<Rightarrow> (nldb_rc_t \<times> tx_logs) option" where
  "append_log_put tx logs table_id key value =
     do { txEvent \<leftarrow> tx_txEvent tx;
          lb \<leftarrow> getLogBuffer logs txEvent;
          lb' \<leftarrow> appendLog lb table_id LT_PUT (key_data key) (ucast (key_len key)) (value_data value) (ucast (value_len value));
          Some (NLDB_OK, setLogBuffer logs txEvent lb') }"

definition append_log_del :: "tx_impl \<Rightarrow> tx_logs \<Rightarrow> int \<Rightarrow> nldb_key_t \<Rightarrow> (nldb_rc_t \<times> tx_logs) option" where
  "append_log_del tx logs table_id key =
     do { txEvent \<leftarrow> tx_txEvent tx;
          lb \<leftarrow> getLogBuffer logs txEvent;
          lb' \<leftarrow> appendLog lb table_id LT_DEL (key_data key) (ucast (key_len key)) [] 0;
          Some (NLDB_OK, setLogBuffer logs txEvent lb') }"

definition tx_destroy :: "tx_impl \<Rightarrow> nldb_rc_t \<times> tx_impl" where
  "tx_destroy tx =
     (if tx_txEvent tx \<noteq> None then (NLDB_ERROR_TX_NOT_ENDED, tx)
      else if tx_db tx = NULL then (NLDB_ERROR_TX_ALREADY_DESTROYED, tx)
      else (NLDB_OK, tx\<lparr>tx_db := NULL\<rparr>))"

section \<open>The publisher\<close>

text \<open>
  \<open>pub_queue\<close> are the messages that the library has accepted and not yet transmitted, \<open>pub_sent\<close> the bytes that it has transmitted.
\<close>

record publisher =
  pub_prevTransactionId :: int
  pub_queue :: "xs_msg list"
  pub_sent :: "byte list list"

text \<open>
  \<^verbatim>\<open>OnEvent\<close>, called by the processor with the sequence of the event. \<^verbatim>\<open>xs_sendmsg\<close> returns the number of bytes and empties the message,
  or it fails with \<open>- 1\<close>, leaves the message as it is and queues nothing; the assertion on its result only rules out 0.
\<close>

definition OnEvent :: "xs_sender \<Rightarrow> tx_logs \<times> publisher \<Rightarrow> int \<Rightarrow> bool \<Rightarrow> (tx_logs \<times> publisher) option" where
  "OnEvent xs st s end_of_batch =
     (let (logs, pub) = st; slot = rb_slot (tl_ring logs) s in
      do { event \<leftarrow> rb_Get (tl_ring logs) s;
           let event1 = event\<lparr>ev_value := s\<rparr>;
           let lb = ev_log event1;
           if \<not> isFinalized lb then None
           else do {
             currentTransactionId \<leftarrow> getTransactionId lb;
             if pub_prevTransactionId pub + 1 \<noteq> currentTransactionId then None
             else do {
               replicationMessage \<leftarrow> buildReplicationMessage xs slot lb;
               bytes \<leftarrow> message_bytes lb replicationMessage;
               _ \<leftarrow> checkReplicationMessage bytes;
               let rc = xo_sendmsg xs bytes;
               if rc = 0 then None
               else do {
                 _ \<leftarrow> destroyReplicationMessage xs (if rc = - 1 then replicationMessage else xs_msg_empty);
                 Some (logs\<lparr>tl_ring := rb_set_event (tl_ring logs) slot (event1\<lparr>ev_log := reset lb\<rparr>)\<rparr>,
                       pub\<lparr>pub_prevTransactionId := currentTransactionId,
                           pub_queue := (if rc = - 1 then pub_queue pub else pub_queue pub @ [replicationMessage])\<rparr>) } } } })"

text \<open>The library transmits the next queued message: it reads the buffer of the event only now.\<close>

definition transmit :: "tx_logs \<Rightarrow> publisher \<Rightarrow> publisher option" where
  "transmit logs pub =
     (case pub_queue pub of [] \<Rightarrow> None
      | msg # msgs \<Rightarrow> do { lb \<leftarrow> getLogBuffer logs (xm_data msg);
                        bytes \<leftarrow> message_bytes lb msg;
                        Some (pub\<lparr>pub_queue := msgs, pub_sent := pub_sent pub @ [bytes]\<rparr>) })"

text \<open>A step of the thread of the \<open>i\<close>-th replicator.\<close>

definition replicator_step ::
    "xs_sender \<Rightarrow> nat \<Rightarrow> tx_logs \<times> publisher \<Rightarrow> (tx_logs \<times> publisher) option" where
  "replicator_step xs i st =
     (let logs = fst st; ps = tl_replicators logs in
      if i \<ge> length ps then None
      else do {
        (p, logs', pub') \<leftarrow> bp_step (if i = 0 then [] else [bp_sequence (ps ! (i - 1))]) (rb_cursor (tl_ring logs))
                              (OnEvent xs) (ps ! i) st;
        Some (logs'\<lparr>tl_replicators := (tl_replicators logs')[i := p]\<rparr>, pub') })"

end
