(* ===== verification/Master_Invariant.thy ===== *)
theory Master_Invariant
  imports Transactions Log_Format
begin

text \<open>
  A master with one replicator: the user's thread begins, extends and ends transactions while the replicator's thread
  publishes the logs of the ended ones and a thread of the messaging library transmits what was published. The state space is the
  interleaving of the three threads; the invariant relates the slots of the ring buffer to the ended transactions that are still to be
  published, and the bytes in the slots to the transactions that were the last to use them.
\<close>

section \<open>The system\<close>

text \<open>
  \<open>ms_open\<close> and \<open>ms_done\<close> are the records of the open transaction and of all ended transactions; they only observe the system.
\<close>

record master =
  ms_tx :: tx_impl
  ms_logs :: tx_logs
  ms_nextTxId :: int
  ms_pub :: publisher
  ms_open :: "log_record list"
  ms_done :: "log_record list list"

definition put_record :: "int \<Rightarrow> byte list \<Rightarrow> byte list \<Rightarrow> log_record" where
  "put_record t k v = \<lparr>lr_table = t, lr_type = LT_PUT, lr_key = k, lr_value = v\<rparr>"

definition del_record :: "int \<Rightarrow> byte list \<Rightarrow> log_record" where
  "del_record t k = \<lparr>lr_table = t, lr_type = LT_DEL, lr_key = k, lr_value = []\<rparr>"

definition master_init :: "byte list list \<Rightarrow> ptr \<Rightarrow> master option" where
  "master_init mems db =
     do { logs \<leftarrow> addReplicator (tx_logs_new mems);
          Some \<lparr>ms_tx = snd (tx_init tx_impl_new db), ms_logs = logs, ms_nextTxId = INITIAL_TRANSACTION_ID,
                ms_pub = \<lparr>pub_prevTransactionId = INITIAL_TRANSACTION_ID - 1, pub_queue = [], pub_sent = []\<rparr>, ms_open = [], ms_done = []\<rparr> }"

inductive master_step :: "xs_sender \<Rightarrow> master \<Rightarrow> master \<Rightarrow> bool" for xs where
  Begin: "tx_begin (ms_tx m) (ms_logs m) (ms_nextTxId m) = Some (rc, tx, logs, nextTxId) \<Longrightarrow>
    master_step xs m (m\<lparr>ms_tx := tx, ms_logs := logs, ms_nextTxId := nextTxId, ms_open := []\<rparr>)"
| Put: "append_log_put (ms_tx m) (ms_logs m) t (the_key k) (the_value v) = Some (rc, logs) \<Longrightarrow> record_ok (put_record t k v) \<Longrightarrow>
    master_step xs m (m\<lparr>ms_logs := logs, ms_open := ms_open m @ [put_record t k v]\<rparr>)"
| Del: "append_log_del (ms_tx m) (ms_logs m) t (the_key k) = Some (rc, logs) \<Longrightarrow> record_ok (del_record t k) \<Longrightarrow>
    master_step xs m (m\<lparr>ms_logs := logs, ms_open := ms_open m @ [del_record t k]\<rparr>)"
| Commit: "tx_commit (ms_tx m) (ms_logs m) = Some (rc, tx, logs) \<Longrightarrow>
    master_step xs m (m\<lparr>ms_tx := tx, ms_logs := logs, ms_open := [], ms_done := ms_done m @ [ms_open m]\<rparr>)"
| Abort: "tx_abort (ms_tx m) (ms_logs m) = Some (rc, tx, logs) \<Longrightarrow>
    master_step xs m (m\<lparr>ms_tx := tx, ms_logs := logs, ms_open := [], ms_done := ms_done m @ [[]]\<rparr>)"
| Replicate: "replicator_step xs 0 (ms_logs m, ms_pub m) = Some (logs, pub) \<Longrightarrow>
    master_step xs m (m\<lparr>ms_logs := logs, ms_pub := pub\<rparr>)"
| Transmit: "transmit (ms_logs m) (ms_pub m) = Some pub \<Longrightarrow> master_step xs m (m\<lparr>ms_pub := pub\<rparr>)"

inductive master_reachable :: "xs_sender \<Rightarrow> byte list list \<Rightarrow> ptr \<Rightarrow> master \<Rightarrow> bool" for xs mems db where
  Init: "master_init mems db = Some m \<Longrightarrow> master_reachable xs mems db m"
| Step: "master_reachable xs mems db m \<Longrightarrow> master_step xs m m' \<Longrightarrow> master_reachable xs mems db m'"

text \<open>
  The runs in which nobody writes into a buffer that the library still holds: no transaction is open in the slot of a queued message. This is
  what \<^verbatim>\<open>xs_msg_init_data\<close> asks of its caller; nothing in the code ensures it.
\<close>

definition buffers_respected :: "master \<Rightarrow> bool" where
  "buffers_respected m \<longleftrightarrow> (case tx_txEvent (ms_tx m) of None \<Rightarrow> True | Some slot \<Rightarrow> slot \<notin> set (map xm_data (pub_queue (ms_pub m))))"

inductive master_timely :: "xs_sender \<Rightarrow> byte list list \<Rightarrow> ptr \<Rightarrow> master \<Rightarrow> bool" for xs mems db where
  Init: "master_init mems db = Some m \<Longrightarrow> master_timely xs mems db m"
| Step: "master_timely xs mems db m \<Longrightarrow> master_step xs m m' \<Longrightarrow> buffers_respected m' \<Longrightarrow> master_timely xs mems db m'"

text \<open>The library works: no call fails for lack of memory or an invalid message, and \<^verbatim>\<open>xs_sendmsg\<close> does not return 0 for a message that has bytes. It accepts when sending does not fail.\<close>

definition xs_works :: "xs_sender \<Rightarrow> bool" where
  "xs_works xs \<longleftrightarrow> (\<forall>a n. xo_msg_init_data xs a n = 0) \<and> (\<forall>bs. bs \<noteq> [] \<longrightarrow> xo_sendmsg xs bs \<noteq> 0) \<and> (\<forall>msg. xo_msg_close xs msg = 0)"

definition xs_accepts :: "xs_sender \<Rightarrow> bool" where
  "xs_accepts xs \<longleftrightarrow> xs_works xs \<and> (\<forall>bs. xo_sendmsg xs bs \<noteq> - 1)"

lemma xs_accepts_works: "xs_accepts xs \<Longrightarrow> xs_works xs"
  by (simp add: xs_accepts_def)

lemma timely_reachable: "master_timely xs mems db m \<Longrightarrow> master_reachable xs mems db m"
  by (induction rule: master_timely.induct) (auto intro: master_reachable.intros)

lemma empty_queue_respected: "pub_queue (ms_pub m) = [] \<Longrightarrow> buffers_respected m"
  by (simp add: buffers_respected_def split: option.split)

section \<open>Slots\<close>

definition sl :: "int \<Rightarrow> nat" where
  "sl q = nat (q mod 2048)"

definition lg :: "tx_logs \<Rightarrow> nat \<Rightarrow> log_buffer" where
  "lg logs i = ev_log (rb_events (tl_ring logs) ! i)"

lemma sl_less: "sl q < 2048"
  by (simp add: sl_def nat_less_iff)

lemma sl_inj: "\<bar>q - q'\<bar> < 2048 \<Longrightarrow> sl q = sl q' \<Longrightarrow> q = q'"
proof (rule ccontr)
  assume a: "\<bar>q - q'\<bar> < 2048" "sl q = sl q'" "q \<noteq> q'"
  then have "q mod 2048 = q' mod 2048" by (simp add: sl_def)
  then have "2048 dvd q - q'" by (simp add: mod_eq_dvd_iff)
  then show False using dvd_imp_le_int [of "q - q'" 2048] a by simp
qed

lemma sl_free: "q - 2048 < a \<Longrightarrow> sl q \<notin> sl ` {a..q - 1}"
proof
  assume a: "q - 2048 < a" "sl q \<in> sl ` {a..q - 1}"
  then obtain q' where "sl q' = sl q" "a \<le> q'" "q' \<le> q - 1" by auto
  then show False using sl_inj [of q' q] a(1) by simp
qed

text \<open>The parts of the ring that no operation changes.\<close>

definition ring_ok :: "tx_logs \<Rightarrow> bool" where
  "ring_ok logs \<longleftrightarrow> rb_mask (tl_ring logs) = 2047 \<and> length (rb_events (tl_ring logs)) = 2048 \<and>
     cs_buffer_size (rb_claim_strategy (tl_ring logs)) = 2048 \<and>
     cs_min_gating_sequence (rb_claim_strategy (tl_ring logs)) = - 1"

abbreviation claimed :: "tx_logs \<Rightarrow> int" where
  "claimed logs \<equiv> cs_sequence (rb_claim_strategy (tl_ring logs))"

abbreviation published :: "tx_logs \<Rightarrow> int" where
  "published logs \<equiv> rb_cursor (tl_ring logs)"

lemma rb_slot_sl: "ring_ok logs \<Longrightarrow> rb_slot (tl_ring logs) q = int (sl q)"
  using and_mask_mod [of q 11] by (simp add: rb_slot_def ring_ok_def sl_def)

lemma getLogBuffer_lg: "ring_ok logs \<Longrightarrow> i < 2048 \<Longrightarrow> getLogBuffer logs (int i) = Some (lg logs i)"
  by (simp add: getLogBuffer_def lg_def ring_ok_def)

lemma setLogBuffer_simps [simp]:
  "ring_ok (setLogBuffer logs s lb) = ring_ok logs"
  "claimed (setLogBuffer logs s lb) = claimed logs"
  "published (setLogBuffer logs s lb) = published logs"
  "tl_currentSequence (setLogBuffer logs s lb) = tl_currentSequence logs"
  "tl_replicators (setLogBuffer logs s lb) = tl_replicators logs"
  by (simp_all add: setLogBuffer_def rb_set_event_def ring_ok_def)

lemma lg_setLogBuffer:
  "ring_ok logs \<Longrightarrow> i < 2048 \<Longrightarrow> lg (setLogBuffer logs (int i) lb) j = (if j = i then lb else lg logs j)"
  by (auto simp: lg_def setLogBuffer_def rb_set_event_def ring_ok_def nth_list_update)

section \<open>The invariant\<close>

definition clean :: "log_buffer \<Rightarrow> bool" where
  "clean lb \<longleftrightarrow> holds_logs lb [] \<and> \<not> isFinalized lb \<and> transactionId lb = 0"

text \<open>The buffer still has the bytes of the message of sequence \<open>q\<close>.\<close>

definition keeps_bytes :: "int \<Rightarrow> log_record list \<Rightarrow> log_buffer \<Rightarrow> bool" where
  "keeps_bytes q rs lb \<longleftrightarrow> (\<exists>msg. mem_read (replicationMessageBuffer lb) 0 (16 + int (logs_size rs)) = Some msg \<and> message_image (q + 1) rs msg)"

definition ready :: "int \<Rightarrow> log_record list \<Rightarrow> log_buffer \<Rightarrow> bool" where
  "ready q rs lb \<longleftrightarrow> isFinalized lb \<and> transactionId lb = q + 1 \<and> holds_logs lb rs \<and> keeps_bytes q rs lb"

lemma keeps_bytes_cong: "replicationMessageBuffer lb' = replicationMessageBuffer lb \<Longrightarrow> keeps_bytes q rs lb' = keeps_bytes q rs lb"
  by (simp add: keeps_bytes_def)

text \<open>
  The events from the next one to publish up to the cursor are ready, all slots that are not in use are clean, and the bytes of a
  published message stay in its slot until the slot is claimed again.
\<close>

definition slots_ok :: "tx_logs \<Rightarrow> log_record list list \<Rightarrow> int \<Rightarrow> bool" where
  "slots_ok logs ended nx \<longleftrightarrow>
     (\<forall>q. nx \<le> q \<and> q \<le> published logs \<longrightarrow> ready q (ended ! nat q) (lg logs (sl q))) \<and>
     (\<forall>i<2048. i \<notin> sl ` {nx..claimed logs} \<longrightarrow> clean (lg logs i)) \<and>
     (\<forall>q. 0 \<le> q \<and> claimed logs - 2048 < q \<and> q \<le> published logs \<longrightarrow> keeps_bytes q (ended ! nat q) (lg logs (sl q)))"

definition closed_tx :: "tx_impl \<Rightarrow> tx_logs \<Rightarrow> bool" where
  "closed_tx tx logs \<longleftrightarrow> tx_txEvent tx = None \<and> claimed logs = published logs \<and> tl_currentSequence logs = - 1"

definition open_tx :: "tx_impl \<Rightarrow> tx_logs \<Rightarrow> log_record list \<Rightarrow> bool" where
  "open_tx tx logs rs \<longleftrightarrow> tx_txEvent tx = Some (int (sl (claimed logs))) \<and> claimed logs = published logs + 1 \<and>
     tl_currentSequence logs = claimed logs \<and> holds_logs (lg logs (sl (claimed logs))) rs \<and>
     \<not> isFinalized (lg logs (sl (claimed logs))) \<and> transactionId (lg logs (sl (claimed logs))) = claimed logs + 1"

definition proc_ok :: "tx_logs \<Rightarrow> batch_processor \<Rightarrow> bool" where
  "proc_ok logs p \<longleftrightarrow> tl_replicators logs = [p] \<and> bp_running p \<and> \<not> bp_alerted p \<and> - 1 \<le> bp_sequence p \<and>
     bp_sequence p < bp_next_sequence p \<and> bp_next_sequence p \<le> published logs + 1 \<and> claimed logs - 2048 \<le> bp_sequence p \<and>
     (bp_pc p = Waiting \<and> bp_sequence p = bp_next_sequence p - 1 \<or> (\<exists>a. bp_pc p = Handling a \<and> a \<le> published logs))"

definition master_inv :: "master \<Rightarrow> batch_processor \<Rightarrow> bool" where
  "master_inv m p \<longleftrightarrow> ring_ok (ms_logs m) \<and> proc_ok (ms_logs m) p \<and> slots_ok (ms_logs m) (ms_done m) (bp_next_sequence p) \<and>
     pub_prevTransactionId (ms_pub m) = bp_next_sequence p \<and>
     (closed_tx (ms_tx m) (ms_logs m) \<or> open_tx (ms_tx m) (ms_logs m) (ms_open m)) \<and>
     int (length (ms_done m)) = published (ms_logs m) + 1 \<and> ms_nextTxId m = claimed (ms_logs m) + 2"

lemma master_invI:
  assumes "ring_ok (ms_logs m)" "proc_ok (ms_logs m) p" "slots_ok (ms_logs m) (ms_done m) (bp_next_sequence p)"
    "pub_prevTransactionId (ms_pub m) = bp_next_sequence p"
    "closed_tx (ms_tx m) (ms_logs m) \<or> open_tx (ms_tx m) (ms_logs m) (ms_open m)"
    "int (length (ms_done m)) = published (ms_logs m) + 1" "ms_nextTxId m = claimed (ms_logs m) + 2"
  shows "master_inv m p"
  using assms by (simp add: master_inv_def)

lemma proc_okD:
  assumes "proc_ok logs p"
  shows "tl_replicators logs = [p]" "- 1 \<le> bp_sequence p" "bp_sequence p < bp_next_sequence p" "bp_next_sequence p \<le> published logs + 1"
    "claimed logs - 2048 \<le> bp_sequence p"
  using assms by (auto simp: proc_ok_def)

lemma master_invD:
  assumes "master_inv m p"
  shows "ring_ok (ms_logs m)" "proc_ok (ms_logs m) p" "slots_ok (ms_logs m) (ms_done m) (bp_next_sequence p)"
    "pub_prevTransactionId (ms_pub m) = bp_next_sequence p"
    "closed_tx (ms_tx m) (ms_logs m) \<or> open_tx (ms_tx m) (ms_logs m) (ms_open m)"
    "int (length (ms_done m)) = published (ms_logs m) + 1" "ms_nextTxId m = claimed (ms_logs m) + 2"
  using assms by (simp_all add: master_inv_def)

text \<open>The slot of the open transaction is none of those to publish; changing it keeps the others.\<close>

lemma claimed_slot_free:
  assumes "claimed logs - 2048 < nx" "nx \<le> q" "q < claimed logs"
  shows "sl q \<noteq> sl (claimed logs)"
  using assms sl_inj [of q "claimed logs"] by force

lemma slots_ok_update_claimed:
  assumes ok: "slots_ok logs ended nx" and r: "ring_ok logs" and n: "claimed logs - 2048 < nx" "published logs < claimed logs" "nx \<le> claimed logs"
  shows "slots_ok (setLogBuffer logs (int (sl (claimed logs))) lb) ended nx"
proof -
  have "lg (setLogBuffer logs (int (sl (claimed logs))) lb) (sl q) = lg logs (sl q)" if "nx \<le> q" "q \<le> published logs" for q
    using claimed_slot_free [OF n(1) that(1)] that n(2) by (simp add: lg_setLogBuffer [OF r sl_less])
  moreover have "lg (setLogBuffer logs (int (sl (claimed logs))) lb) i = lg logs i" if "i \<notin> sl ` {nx..claimed logs}" for i
    using that n(3) by (auto simp: lg_setLogBuffer [OF r sl_less])
  moreover have "lg (setLogBuffer logs (int (sl (claimed logs))) lb) (sl q) = lg logs (sl q)" if "claimed logs - 2048 < q" "q \<le> published logs" for q
    using claimed_slot_free [of logs q q] that n(2) by (simp add: lg_setLogBuffer [OF r sl_less])
  ultimately show ?thesis using ok by (simp add: slots_ok_def)
qed

section \<open>Beginning a transaction\<close>

lemma GetMinimumSequence_le: "GetMinimumSequence [s] \<le> s"
  by (simp add: GetMinimumSequence_def)

lemma getNextTransactionEvent_spec:
  assumes r: "ring_ok logs" and p: "tl_replicators logs = [p]" "- 1 \<le> bp_sequence p" and get: "getNextTransactionEvent logs = Some (slot, logs')"
  shows "slot = int (sl (claimed logs + 1))" "ring_ok logs'" "claimed logs' = claimed logs + 1" "published logs' = published logs"
    "tl_currentSequence logs' = claimed logs + 1" "tl_replicators logs' = [p]" "lg logs' j = lg logs j"
    "claimed logs' - 2048 \<le> bp_sequence p"
proof -
  let ?rb = "tl_ring logs" and ?s = "claimed logs + 1"
  let ?rb' = "?rb\<lparr>rb_claim_strategy := (rb_claim_strategy ?rb)\<lparr>cs_sequence := ?s\<rparr>\<rparr>"
  have slot: "rb_slot ?rb' q = int (sl q)" for q using rb_slot_sl [OF r] by (simp add: rb_slot_def)
  have ev: "rb_Get ?rb' ?s = Some (rb_events ?rb ! sl ?s)"
    using r sl_less [of ?s] unfolding rb_Get_def slot by (simp add: ring_ok_def)
  have *: "slot = int (sl ?s) \<and> ?s - 2048 \<le> bp_sequence p \<and>
      logs' = logs\<lparr>tl_ring := rb_set_event ?rb' (int (sl ?s)) (TranslateTo ?s (rb_events ?rb ! sl ?s)), tl_currentSequence := ?s\<rparr>"
    using get p r ev slot GetMinimumSequence_le [of "bp_sequence p"]
    by (auto simp: getNextTransactionEvent_def rb_Next_def cs_IncrementAndGet_def WaitForFreeSlotAt_def sequence_to_track_def
        Let_def ring_ok_def split: if_splits)
  then show "slot = int (sl ?s)" "ring_ok logs'" "claimed logs' = ?s" "published logs' = published logs" "tl_currentSequence logs' = ?s"
      "tl_replicators logs' = [p]" "claimed logs' - 2048 \<le> bp_sequence p"
    using r p(1) by (simp_all add: ring_ok_def rb_set_event_def)
  show "lg logs' j = lg logs j"
    using * r sl_less [of ?s] by (auto simp: lg_def rb_set_event_def ring_ok_def TranslateTo_def nth_list_update)
qed

end
