(* ===== verification/Master_Steps.thy ===== *)
theory Master_Steps
  imports Master_Invariant
begin

text \<open>
  Every step of the master keeps the invariant: one lemma per operation of the user's thread and one for the
  replicator's thread.
\<close>

section \<open>The user's thread\<close>

lemma begin_inv:
  assumes inv: "master_inv m p" and b: "tx_begin (ms_tx m) (ms_logs m) (ms_nextTxId m) = Some (rc, tx, logs, nextTxId)"
  shows "master_inv (m\<lparr>ms_tx := tx, ms_logs := logs, ms_nextTxId := nextTxId, ms_open := []\<rparr>) p"
proof -
  note i = master_invD [OF inv] and pr = proc_okD [OF master_invD(2) [OF inv]]
  let ?L = "ms_logs m"
  have closed: "closed_tx (ms_tx m) ?L" using b i(5) by (auto simp: tx_begin_def open_tx_def)
  then have cur: "getCurrentTransactionEvent ?L = None" by (simp add: closed_tx_def getCurrentTransactionEvent_def)
  obtain slot L1 lb lb' where g: "getNextTransactionEvent ?L = Some (slot, L1)" "getLogBuffer L1 slot = Some lb"
      "setTransactionId lb (ms_nextTxId m) = Some lb'"
    and r: "tx = (ms_tx m)\<lparr>tx_txEvent := Some slot\<rparr>" "logs = setLogBuffer L1 slot lb'" "nextTxId = ms_nextTxId m + 1"
    using b cur by (auto simp: tx_begin_def split: if_splits Option.bind_splits)
  note n = getNextTransactionEvent_spec [OF i(1) pr(1,2) g(1)]
  let ?s = "claimed ?L + 1"
  have c: "claimed ?L = published ?L" using closed by (simp add: closed_tx_def)
  have lb: "lb = lg ?L (sl ?s)" using g(2) getLogBuffer_lg [OF n(2) sl_less, of ?s] n(1,7) by simp
  have free: "sl ?s \<notin> sl ` {bp_next_sequence p..claimed ?L}"
    using sl_free [of ?s "bp_next_sequence p"] pr n(3,8) by simp
  have "clean lb" using i(3) free sl_less lb by (simp add: slots_ok_def)
  then have lb': "lb' = lb\<lparr>transactionId := ms_nextTxId m\<rparr>" "holds_logs lb' []" "\<not> isFinalized lb'"
    using g(3) holds_logs_cong [of lb' lb] by (auto simp: setTransactionId_def clean_def split: if_splits)
  have slots: "slots_ok L1 (ms_done m) (bp_next_sequence p)"
    using i(3) n(3,4,7) by (auto simp: slots_ok_def)
  have eq: "logs = setLogBuffer L1 (int (sl (claimed L1))) lb'" using r(2) n(1,3) by simp
  show ?thesis
  proof (rule master_invI)
    show "proc_ok (ms_logs (m\<lparr>ms_tx := tx, ms_logs := logs, ms_nextTxId := nextTxId, ms_open := []\<rparr>)) p"
      using i(2) n by (auto simp: proc_ok_def eq)
    have "slots_ok logs (ms_done m) (bp_next_sequence p)" unfolding eq
      by (rule slots_ok_update_claimed [OF slots n(2)]) (use n(3,4,8) pr c in auto)
    then show "slots_ok (ms_logs (m\<lparr>ms_tx := tx, ms_logs := logs, ms_nextTxId := nextTxId, ms_open := []\<rparr>))
        (ms_done (m\<lparr>ms_tx := tx, ms_logs := logs, ms_nextTxId := nextTxId, ms_open := []\<rparr>)) (bp_next_sequence p)" by simp
    have "open_tx tx logs []"
      using lb' n(3,4,5) c i(7) by (simp add: open_tx_def eq r(1) n(1) lg_setLogBuffer [OF n(2) sl_less])
    then show "closed_tx (ms_tx (m\<lparr>ms_tx := tx, ms_logs := logs, ms_nextTxId := nextTxId, ms_open := []\<rparr>))
          (ms_logs (m\<lparr>ms_tx := tx, ms_logs := logs, ms_nextTxId := nextTxId, ms_open := []\<rparr>)) \<or>
        open_tx (ms_tx (m\<lparr>ms_tx := tx, ms_logs := logs, ms_nextTxId := nextTxId, ms_open := []\<rparr>))
          (ms_logs (m\<lparr>ms_tx := tx, ms_logs := logs, ms_nextTxId := nextTxId, ms_open := []\<rparr>))
          (ms_open (m\<lparr>ms_tx := tx, ms_logs := logs, ms_nextTxId := nextTxId, ms_open := []\<rparr>))" by simp
  qed (use i n r eq in \<open>simp_all\<close>)
qed

text \<open>Appending a record to the log of the open transaction.\<close>

lemma append_open_tx:
  assumes inv: "master_inv m p" and ev: "tx_txEvent (ms_tx m) = Some slot" and ok: "record_ok r"
    and a: "getLogBuffer (ms_logs m) slot = Some lb" "append_record lb r = Some lb'"
  shows "master_inv (m\<lparr>ms_logs := setLogBuffer (ms_logs m) slot lb', ms_open := ms_open m @ [r]\<rparr>) p"
proof -
  note i = master_invD [OF inv] and pr = proc_okD [OF master_invD(2) [OF inv]]
  let ?L = "ms_logs m"
  have op: "open_tx (ms_tx m) ?L (ms_open m)" using i(5) ev by (auto simp: closed_tx_def)
  then have slot: "slot = int (sl (claimed ?L))" and c: "claimed ?L = published ?L + 1" using ev by (auto simp: open_tx_def)
  have lb: "lb = lg ?L (sl (claimed ?L))" using a(1) getLogBuffer_lg [OF i(1) sl_less] by (simp add: slot)
  have h: "holds_logs lb (ms_open m)" using op unfolding open_tx_def lb by blast
  have "\<not> 16 + logs_size (ms_open m) + record_size r \<ge> 65536" using append_record_full [OF h ok] a(2) by auto
  then have h': "holds_logs lb' (ms_open m @ [r])" "transactionId lb' = transactionId lb" "isFinalized lb' = isFinalized lb"
    using append_record_spec [OF h ok] a(2) by auto
  let ?m = "m\<lparr>ms_logs := setLogBuffer ?L slot lb', ms_open := ms_open m @ [r]\<rparr>"
  show ?thesis
  proof (rule master_invI)
    have "slots_ok (setLogBuffer ?L slot lb') (ms_done m) (bp_next_sequence p)" unfolding slot
      by (rule slots_ok_update_claimed [OF i(3) i(1)]) (use pr c in auto)
    then show "slots_ok (ms_logs ?m) (ms_done ?m) (bp_next_sequence p)" by simp
    have "open_tx (ms_tx m) (setLogBuffer ?L slot lb') (ms_open m @ [r])"
      using op h' by (auto simp: open_tx_def slot lb lg_setLogBuffer [OF i(1) sl_less])
    then show "closed_tx (ms_tx ?m) (ms_logs ?m) \<or> open_tx (ms_tx ?m) (ms_logs ?m) (ms_open ?m)" by simp
    show "proc_ok (ms_logs ?m) p" using i(2) by (simp add: proc_ok_def)
  qed (use i in simp_all)
qed

lemma ucast_16_64: "n < 2 ^ 16 \<Longrightarrow> ucast (of_nat n :: 16 word) = (of_nat n :: 64 word)"
  using of_nat_unat [where 'a = "64 word", of "of_nat n :: 16 word"] by (simp add: unat_of_nat take_bit_eq_mod del: of_nat_unat)

lemma put_inv:
  assumes inv: "master_inv m p" and ok: "record_ok (put_record t k v)"
    and a: "append_log_put (ms_tx m) (ms_logs m) t (the_key k) (the_value v) = Some (rc, logs)"
  shows "master_inv (m\<lparr>ms_logs := logs, ms_open := ms_open m @ [put_record t k v]\<rparr>) p"
proof -
  have len: "length k < 2 ^ 16" "length v < 2 ^ 16" using ok by (simp_all add: record_ok_def put_record_def)
  obtain slot lb lb' where s: "tx_txEvent (ms_tx m) = Some slot" "getLogBuffer (ms_logs m) slot = Some lb"
      "append_record lb (put_record t k v) = Some lb'" "logs = setLogBuffer (ms_logs m) slot lb'"
    using a ucast_16_64 [OF len(1)] ucast_16_64 [OF len(2)]
    by (auto simp: append_log_put_def append_record_def put_record_def split: Option.bind_splits)
  show ?thesis using append_open_tx [OF inv s(1) ok s(2,3)] s(4) by simp
qed

lemma del_inv:
  assumes inv: "master_inv m p" and ok: "record_ok (del_record t k)"
    and a: "append_log_del (ms_tx m) (ms_logs m) t (the_key k) = Some (rc, logs)"
  shows "master_inv (m\<lparr>ms_logs := logs, ms_open := ms_open m @ [del_record t k]\<rparr>) p"
proof -
  have len: "length k < 2 ^ 16" using ok by (simp add: record_ok_def del_record_def)
  obtain slot lb lb' where s: "tx_txEvent (ms_tx m) = Some slot" "getLogBuffer (ms_logs m) slot = Some lb"
      "append_record lb (del_record t k) = Some lb'" "logs = setLogBuffer (ms_logs m) slot lb'"
    using a ucast_16_64 [OF len] by (auto simp: append_log_del_def append_record_def del_record_def split: Option.bind_splits)
  show ?thesis using append_open_tx [OF inv s(1) ok s(2,3)] s(4) by simp
qed

text \<open>Ending a transaction publishes its records.\<close>

lemma tx_end_open:
  assumes r: "ring_ok logs" and op: "open_tx tx logs rs" and p: "tl_replicators logs = [p]" and nn: "- 1 \<le> published logs"
  shows "\<exists>lb. tx_end tx logs = Some (NLDB_OK, tx\<lparr>tx_txEvent := None\<rparr>,
             (setLogBuffer logs (int (sl (claimed logs))) lb)\<lparr>tl_ring :=
                rb_Publish (tl_ring (setLogBuffer logs (int (sl (claimed logs))) lb)) (claimed logs), tl_currentSequence := - 1\<rparr>) \<and>
           ready (claimed logs) rs lb"
proof -
  let ?s = "claimed logs"
  have o: "tx_txEvent tx = Some (int (sl ?s))" "tl_currentSequence logs = ?s" "holds_logs (lg logs (sl ?s)) rs"
      "transactionId (lg logs (sl ?s)) = ?s + 1" "?s = published logs + 1"
    using op by (auto simp: open_tx_def)
  have pos: "0 < transactionId (lg logs (sl ?s))" "0 \<le> ?s" using o(4,5) nn by auto
  obtain lb msg where f: "finalize (lg logs (sl ?s)) = Some lb" "holds_logs lb rs" "isFinalized lb"
      "transactionId lb = transactionId (lg logs (sl ?s))"
      "mem_read (replicationMessageBuffer lb) 0 (16 + int (logs_size rs)) = Some msg"
      "message_image (transactionId (lg logs (sl ?s))) rs msg"
    using finalize_spec [OF o(3) pos(1)] by blast
  have "ready ?s rs lb" using f o(4) by (auto simp: ready_def keeps_bytes_def)
  moreover have "commitCurrentTransactionEvent (setLogBuffer logs (int (sl ?s)) lb) =
      Some ((setLogBuffer logs (int (sl ?s)) lb)\<lparr>tl_ring := rb_Publish (tl_ring (setLogBuffer logs (int (sl ?s)) lb)) ?s, tl_currentSequence := - 1\<rparr>)"
    using o(2) pos(2) by (simp add: commitCurrentTransactionEvent_def)
  ultimately show ?thesis
    using o(1) f(1) p getLogBuffer_lg [OF r sl_less, of ?s] by (auto simp: tx_end_def hasReplicators_def Let_def)
qed

lemma lg_publish [simp]: "lg (logs\<lparr>tl_ring := rb_Publish (tl_ring logs) q, tl_currentSequence := x\<rparr>) j = lg logs j"
  by (simp add: lg_def rb_Publish_def)

lemma end_inv:
  assumes inv: "master_inv m p" and op: "open_tx (ms_tx m) (ms_logs m) rs" and e: "tx_end (ms_tx m) (ms_logs m) = Some (rc, tx, logs)"
  shows "master_inv (m\<lparr>ms_tx := tx, ms_logs := logs, ms_open := [], ms_done := ms_done m @ [rs]\<rparr>) p"
proof -
  note i = master_invD [OF inv] and pr = proc_okD [OF master_invD(2) [OF inv]]
  let ?L = "ms_logs m" and ?nx = "bp_next_sequence p"
  let ?s = "claimed ?L"
  have nn: "- 1 \<le> published ?L" using i(6) by linarith
  obtain lb where lb: "ready ?s rs lb" and eq: "tx = (ms_tx m)\<lparr>tx_txEvent := None\<rparr>"
      "logs = (setLogBuffer ?L (int (sl ?s)) lb)\<lparr>tl_ring := rb_Publish (tl_ring (setLogBuffer ?L (int (sl ?s)) lb)) ?s, tl_currentSequence := - 1\<rparr>"
    using tx_end_open [OF i(1) op pr(1) nn] e by auto
  have c: "?s = published ?L + 1" using op by (simp add: open_tx_def)
  have v: "ring_ok logs" "claimed logs = ?s" "published logs = ?s" "tl_replicators logs = [p]" "tl_currentSequence logs = - 1"
    using i(1) pr(1) by (simp_all add: eq(2) ring_ok_def rb_Publish_def setLogBuffer_def rb_set_event_def)
  have l: "lg logs j = (if j = sl ?s then lb else lg ?L j)" for j
    by (simp add: eq(2) lg_setLogBuffer [OF i(1) sl_less])
  have len: "length (ms_done m) = nat ?s" using i(6) c by linarith
  have rdy: "ready q ((ms_done m @ [rs]) ! nat q) (lg logs (sl q))" if q: "?nx \<le> q" "q \<le> ?s" for q
  proof (cases "q = ?s")
    case True
    then show ?thesis using lb len by (simp add: l nth_append)
  next
    case False
    then have "sl q \<noteq> sl ?s" using claimed_slot_free [of ?L ?nx q] q pr by simp
    moreover have "nat q < length (ms_done m)" using False q len pr by auto
    ultimately show ?thesis using i(3) False q c by (simp add: l nth_append slots_ok_def)
  qed
  have cl: "clean (lg logs i)" if "i < 2048" "i \<notin> sl ` {?nx..?s}" for i
    using that i(3) pr c by (auto simp: l slots_ok_def)
  have st: "keeps_bytes q ((ms_done m @ [rs]) ! nat q) (lg logs (sl q))" if q: "0 \<le> q" "?s - 2048 < q" "q \<le> ?s" for q
  proof (cases "q = ?s")
    case True
    then show ?thesis using lb len by (simp add: l nth_append ready_def)
  next
    case False
    then have "sl q \<noteq> sl ?s" using claimed_slot_free [of ?L q q] q by simp
    moreover have "nat q < length (ms_done m)" using False q len by auto
    ultimately show ?thesis using i(3) False q c by (simp add: l nth_append slots_ok_def)
  qed
  let ?m = "m\<lparr>ms_tx := tx, ms_logs := logs, ms_open := [], ms_done := ms_done m @ [rs]\<rparr>"
  show ?thesis
  proof (rule master_invI)
    show "slots_ok (ms_logs ?m) (ms_done ?m) ?nx" using rdy cl st v by (simp add: slots_ok_def)
    show "proc_ok (ms_logs ?m) p" using i(2) v c by (auto simp: proc_ok_def)
    show "closed_tx (ms_tx ?m) (ms_logs ?m) \<or> open_tx (ms_tx ?m) (ms_logs ?m) (ms_open ?m)"
      using v eq(1) by (simp add: closed_tx_def)
  qed (use i(4,6,7) v c in simp_all)
qed

lemma tx_event_open:
  assumes "master_inv m p" "tx_txEvent (ms_tx m) = Some slot"
  shows "open_tx (ms_tx m) (ms_logs m) (ms_open m)" "slot = int (sl (claimed (ms_logs m)))"
  using master_invD(5) [OF assms(1)] assms(2) by (auto simp: closed_tx_def open_tx_def)

lemma commit_inv:
  assumes inv: "master_inv m p" and e: "tx_commit (ms_tx m) (ms_logs m) = Some (rc, tx, logs)"
  shows "master_inv (m\<lparr>ms_tx := tx, ms_logs := logs, ms_open := [], ms_done := ms_done m @ [ms_open m]\<rparr>) p"
proof -
  obtain slot where "tx_txEvent (ms_tx m) = Some slot" using e by (auto simp: tx_commit_def tx_end_def split: Option.bind_splits)
  from tx_event_open(1) [OF inv this] show ?thesis using end_inv [OF inv] e by (simp add: tx_commit_def)
qed

lemma abort_inv:
  assumes inv: "master_inv m p" and e: "tx_abort (ms_tx m) (ms_logs m) = Some (rc, tx, logs)"
  shows "master_inv (m\<lparr>ms_tx := tx, ms_logs := logs, ms_open := [], ms_done := ms_done m @ [[]]\<rparr>) p"
proof -
  note i = master_invD [OF inv] and pr = proc_okD [OF master_invD(2) [OF inv]]
  let ?L = "ms_logs m"
  let ?s = "claimed ?L"
  obtain slot lb where ev: "tx_txEvent (ms_tx m) = Some slot" and lb: "getLogBuffer ?L slot = Some lb"
    and e': "tx_end (ms_tx m) (setLogBuffer ?L slot (clearLog lb)) = Some (rc, tx, logs)"
    using e by (auto simp: tx_abort_def split: Option.bind_splits)
  note op = tx_event_open [OF inv ev]
  have lb': "lb = lg ?L (sl ?s)" using lb getLogBuffer_lg [OF i(1) sl_less] by (simp add: op(2))
  have o: "claimed ?L = published ?L + 1" "holds_logs lb (ms_open m)" "transactionId lb = ?s + 1" "tl_currentSequence ?L = ?s"
    using op(1) unfolding open_tx_def lb' by blast+
  have h: "holds_logs (clearLog lb) []" "\<not> isFinalized (clearLog lb)" "transactionId (clearLog lb) = ?s + 1"
    using holds_logs_clear(1) [OF holds_logs_buffer [OF o(2)]] o(3) by (auto simp: clearLog_def)
  let ?L' = "setLogBuffer ?L slot (clearLog lb)"
  let ?m = "m\<lparr>ms_logs := ?L', ms_open := []\<rparr>"
  have op': "open_tx (ms_tx m) ?L' []"
    using h o ev by (auto simp: open_tx_def op(2) lg_setLogBuffer [OF i(1) sl_less])
  have "master_inv ?m p"
  proof (rule master_invI)
    have "slots_ok ?L' (ms_done m) (bp_next_sequence p)" unfolding op(2)
      by (rule slots_ok_update_claimed [OF i(3) i(1)]) (use pr o(1) in auto)
    then show "slots_ok (ms_logs ?m) (ms_done ?m) (bp_next_sequence p)" by simp
    show "closed_tx (ms_tx ?m) (ms_logs ?m) \<or> open_tx (ms_tx ?m) (ms_logs ?m) (ms_open ?m)" using op' by simp
    show "proc_ok (ms_logs ?m) p" using i(2) by (simp add: proc_ok_def)
  qed (use i in simp_all)
  then show ?thesis using end_inv [of ?m p "[]"] op' e' by simp
qed

section \<open>The replicator's thread\<close>

text \<open>The message of the event with sequence \<open>q\<close>, and the queue of the library after a call of \<^verbatim>\<open>xs_sendmsg\<close>.\<close>

definition event_msg :: "int \<Rightarrow> log_record list \<Rightarrow> xs_msg" where
  "event_msg q rs = \<lparr>xm_data = int (sl q), xm_size = 16 + int (logs_size rs)\<rparr>"

definition enqueue :: "xs_sender \<Rightarrow> byte list \<Rightarrow> xs_msg \<Rightarrow> xs_msg list \<Rightarrow> xs_msg list" where
  "enqueue xs bs msg msgs = (if xo_sendmsg xs bs = - 1 then msgs else msgs @ [msg])"

text \<open>Publishing the next event: no assertion of the handler fails, the message is that of the transaction, and the slot becomes clean.\<close>

lemma OnEvent_ready:
  assumes r: "ring_ok logs" and rdy: "ready q rs (lg logs (sl q))" and prev: "pub_prevTransactionId pub = q" and nn: "0 \<le> q"
    and xs: "xs_works xs"
  shows "\<exists>logs' bs. OnEvent xs (logs, pub) q b =
       Some (logs', pub\<lparr>pub_prevTransactionId := q + 1, pub_queue := enqueue xs bs (event_msg q rs) (pub_queue pub)\<rparr>) \<and> message_image (q + 1) rs bs \<and>
     ring_ok logs' \<and> claimed logs' = claimed logs \<and> published logs' = published logs \<and> tl_replicators logs' = tl_replicators logs \<and>
     tl_currentSequence logs' = tl_currentSequence logs \<and> (\<forall>j. lg logs' j = (if j = sl q then reset (lg logs (sl q)) else lg logs j)) \<and>
     clean (reset (lg logs (sl q)))"
proof -
  let ?lb = "lg logs (sl q)" and ?e = "rb_events (tl_ring logs) ! sl q"
  obtain bs where rd: "isFinalized ?lb" "transactionId ?lb = q + 1" "holds_logs ?lb rs"
      "mem_read (replicationMessageBuffer ?lb) 0 (16 + int (logs_size rs)) = Some bs" "message_image (q + 1) rs bs"
    using rdy by (auto simp: ready_def keeps_bytes_def)
  have get: "rb_Get (tl_ring logs) q = Some ?e" "ev_log ?e = ?lb"
    using r sl_less [of q] by (simp_all add: rb_Get_def rb_slot_sl [OF r] ring_ok_def lg_def)
  let ?logs = "logs\<lparr>tl_ring := rb_set_event (tl_ring logs) (rb_slot (tl_ring logs) q) (?e\<lparr>ev_value := q, ev_log := reset ?lb\<rparr>)\<rparr>"
  let ?pub = "pub\<lparr>pub_prevTransactionId := q + 1, pub_queue := enqueue xs bs (event_msg q rs) (pub_queue pub)\<rparr>"
  have "getTransactionId ?lb = Some (q + 1)" using rd(2) nn by (simp add: getTransactionId_def)
  moreover have "buildReplicationMessage xs (rb_slot (tl_ring logs) q) ?lb = Some (event_msg q rs)"
    using buildReplicationMessage_spec [OF rd(3), of xs] xs by (simp add: xs_works_def event_msg_def rb_slot_sl [OF r])
  moreover have "bs \<noteq> []"
  proof -
    have "length bs \<ge> 16" using rd(5) by (auto simp: message_image_def)
    then show ?thesis by auto
  qed
  ultimately have "OnEvent xs (logs, pub) q b = Some (?logs, ?pub)"
    using rd get prev xs checkReplicationMessage_ok [OF rd(5)]
    by (simp add: OnEvent_def Let_def message_bytes_def event_msg_def enqueue_def destroyReplicationMessage_def xs_works_def)
  moreover have "ring_ok ?logs" using r by (simp add: ring_ok_def rb_set_event_def)
  moreover have "lg ?logs j = (if j = sl q then reset ?lb else lg logs j)" for j
    using r sl_less [of q] by (auto simp: lg_def rb_set_event_def rb_slot_sl [OF r] ring_ok_def nth_list_update)
  moreover have "clean (reset ?lb)"
    using holds_logs_clear(2) [OF holds_logs_buffer [OF rd(3)]] by (simp add: clean_def reset_def clearLog_def)
  ultimately show ?thesis using rd(5) by (intro exI [of _ ?logs] exI [of _ bs]) (simp add: rb_set_event_def)
qed

lemma replicator_step_eq:
  assumes "tl_replicators logs = [p]"
  shows "replicator_step xs 0 (logs, pub) =
     do { (p', logs', pub') \<leftarrow> bp_step [] (published logs) (OnEvent xs) p (logs, pub);
          Some (logs'\<lparr>tl_replicators := (tl_replicators logs')[0 := p']\<rparr>, pub') }"
  using assms by (simp add: replicator_step_def Let_def)

lemma set_replicators_simps [simp]:
  "ring_ok (logs\<lparr>tl_replicators := ps\<rparr>) = ring_ok logs" "lg (logs\<lparr>tl_replicators := ps\<rparr>) = lg logs"
  by (simp_all add: ring_ok_def lg_def fun_eq_iff)

text \<open>A step that only moves the processor.\<close>

lemma processor_move_inv:
  assumes inv: "master_inv m p" and q: "bp_next_sequence p' = bp_next_sequence p" and ok: "proc_ok ((ms_logs m)\<lparr>tl_replicators := [p']\<rparr>) p'"
  shows "master_inv (m\<lparr>ms_logs := (ms_logs m)\<lparr>tl_replicators := [p']\<rparr>, ms_pub := ms_pub m\<rparr>) p'"
  by (rule master_invI)
    (use master_invD [OF inv] q ok in \<open>simp_all add: slots_ok_def closed_tx_def open_tx_def\<close>)

lemma publish_inv:
  assumes inv: "master_inv m p" and a: "bp_pc p = Handling a" "bp_next_sequence p \<le> a" and xs: "xs_works xs"
  defines "p' \<equiv> p\<lparr>bp_next_sequence := bp_next_sequence p + 1\<rparr>"
  shows "\<exists>logs bs pub. replicator_step xs 0 (ms_logs m, ms_pub m) = Some (logs, pub) \<and>
           pub = (ms_pub m)\<lparr>pub_prevTransactionId := bp_next_sequence p + 1,
             pub_queue := enqueue xs bs (event_msg (bp_next_sequence p) (ms_done m ! nat (bp_next_sequence p))) (pub_queue (ms_pub m))\<rparr> \<and>
           message_image (bp_next_sequence p + 1) (ms_done m ! nat (bp_next_sequence p)) bs \<and> claimed logs = claimed (ms_logs m) \<and> published logs = published (ms_logs m) \<and>
           master_inv (m\<lparr>ms_logs := logs, ms_pub := pub\<rparr>) p'"
proof -
  note i = master_invD [OF inv] and pr = proc_okD [OF master_invD(2) [OF inv]]
  let ?L = "ms_logs m" and ?q = "bp_next_sequence p"
  have le: "?q \<le> published ?L" "0 \<le> ?q" "published ?L \<le> claimed ?L" "- 1 \<le> published ?L"
    using a i(2,5,6) pr by (auto simp: proc_ok_def closed_tx_def open_tx_def)
  have rdy: "ready ?q (ms_done m ! nat ?q) (lg ?L (sl ?q))" using i(3) le by (simp add: slots_ok_def)
  have prev: "pub_prevTransactionId (ms_pub m) = ?q" by (rule i(4))
  obtain L bs where e: "OnEvent xs (?L, ms_pub m) ?q (?q = a) =
        Some (L, (ms_pub m)\<lparr>pub_prevTransactionId := ?q + 1, pub_queue := enqueue xs bs (event_msg ?q (ms_done m ! nat ?q)) (pub_queue (ms_pub m))\<rparr>)"
    and msg: "message_image (?q + 1) (ms_done m ! nat ?q) bs"
    and L: "ring_ok L" "claimed L = claimed ?L" "published L = published ?L" "tl_replicators L = tl_replicators ?L"
      "tl_currentSequence L = tl_currentSequence ?L" "\<And>j. lg L j = (if j = sl ?q then reset (lg ?L (sl ?q)) else lg ?L j)"
      "clean (reset (lg ?L (sl ?q)))"
    using OnEvent_ready [OF i(1) rdy prev le(2) xs] by blast
  let ?L' = "L\<lparr>tl_replicators := [p']\<rparr>"
  let ?pub = "(ms_pub m)\<lparr>pub_prevTransactionId := ?q + 1, pub_queue := enqueue xs bs (event_msg ?q (ms_done m ! nat ?q)) (pub_queue (ms_pub m))\<rparr>"
  let ?m = "m\<lparr>ms_logs := ?L', ms_pub := ?pub\<rparr>"
  have "replicator_step xs 0 (?L, ms_pub m) = Some (?L', ?pub)"
    using a e L(4) pr(1) by (simp add: replicator_step_eq [OF pr(1)] bp_step_eq p'_def)
  moreover have "master_inv ?m p'"
  proof (rule master_invI)
    have near: "sl q \<noteq> sl ?q" if "?q < q" "q \<le> claimed ?L" for q using sl_inj [of q ?q] that pr by force
    have rdy': "ready q (ms_done m ! nat q) (lg ?L' (sl q))" if "?q + 1 \<le> q" "q \<le> published ?L" for q
      using i(3) that near [of q] le(3) by (simp add: L(6) slots_ok_def)
    have cl: "clean (lg ?L' j)" if "j < 2048" "j \<notin> sl ` {?q + 1..claimed ?L}" for j
    proof (cases "j = sl ?q")
      case False
      then have "j \<notin> sl ` {?q..claimed ?L}" using that(2) by (auto simp: image_iff) (metis atLeastAtMost_iff order_le_less zless_imp_add1_zle)
      then show ?thesis using i(3) that(1) False by (simp add: L(6) slots_ok_def)
    qed (simp add: L(6,7))
    have st: "keeps_bytes q (ms_done m ! nat q) (lg ?L' (sl q))" if "0 \<le> q" "claimed ?L - 2048 < q" "q \<le> published ?L" for q
    proof -
      have "keeps_bytes q (ms_done m ! nat q) (lg ?L (sl q))" using i(3) that by (simp add: slots_ok_def)
      moreover have "keeps_bytes q (ms_done m ! nat q) (reset (lg ?L (sl q))) = keeps_bytes q (ms_done m ! nat q) (lg ?L (sl q))"
        by (rule keeps_bytes_cong) (simp add: reset_def clearLog_def)
      ultimately show ?thesis by (auto simp: L(6))
    qed
    show "slots_ok (ms_logs ?m) (ms_done ?m) (bp_next_sequence p')" using rdy' cl st L(2,3) by (simp add: slots_ok_def p'_def)
    show "proc_ok (ms_logs ?m) p'" using i(2) a L(2,3) le by (simp add: proc_ok_def p'_def)
    show "pub_prevTransactionId (ms_pub ?m) = bp_next_sequence p'" by (simp add: p'_def)
    have "sl (claimed ?L) \<noteq> sl ?q" if "open_tx (ms_tx m) ?L (ms_open m)"
      using near [of "claimed ?L"] that le(1) by (simp add: open_tx_def)
    then show "closed_tx (ms_tx ?m) (ms_logs ?m) \<or> open_tx (ms_tx ?m) (ms_logs ?m) (ms_open ?m)"
      using i(5) L by (auto simp: closed_tx_def open_tx_def)
  qed (use i L in simp_all)
  ultimately show ?thesis using L(2,3) msg by (intro exI [of _ ?L'] exI [of _ bs] exI [of _ ?pub]) simp
qed

text \<open>The step in which the replicator hands the message of its next event to the library.\<close>

definition published_next :: "xs_sender \<Rightarrow> master \<Rightarrow> batch_processor \<Rightarrow> publisher \<Rightarrow> batch_processor \<Rightarrow> bool" where
  "published_next xs m p pub p' \<longleftrightarrow> bp_next_sequence p' = bp_next_sequence p + 1 \<and>
     (\<exists>bs. message_image (bp_next_sequence p + 1) (ms_done m ! nat (bp_next_sequence p)) bs \<and>
        pub = (ms_pub m)\<lparr>pub_prevTransactionId := bp_next_sequence p + 1,
          pub_queue := enqueue xs bs (event_msg (bp_next_sequence p) (ms_done m ! nat (bp_next_sequence p))) (pub_queue (ms_pub m))\<rparr>)"

lemma replicate_inv:
  assumes inv: "master_inv m p" and xs: "xs_works xs"
  shows "\<exists>logs pub p'. replicator_step xs 0 (ms_logs m, ms_pub m) = Some (logs, pub) \<and>
           master_inv (m\<lparr>ms_logs := logs, ms_pub := pub\<rparr>) p' \<and> claimed logs = claimed (ms_logs m) \<and>
           (pub = ms_pub m \<and> bp_next_sequence p' = bp_next_sequence p \<or> published_next xs m p pub p')"
proof -
  note i = master_invD [OF inv] and pr = proc_okD [OF master_invD(2) [OF inv]]
  let ?L = "ms_logs m"
  have ok: "bp_running p" "\<not> bp_alerted p" using i(2) by (simp_all add: proc_ok_def)
  consider (wait) "bp_pc p = Waiting" | (handle) a where "bp_pc p = Handling a" using i(2) by (auto simp: proc_ok_def)
  then show ?thesis
  proof cases
    case wait
    define p' where "p' = (if published ?L < bp_next_sequence p then p else p\<lparr>bp_pc := Handling (published ?L)\<rparr>)"
    have "replicator_step xs 0 (?L, ms_pub m) = Some (?L\<lparr>tl_replicators := [p']\<rparr>, ms_pub m)"
      using wait ok pr(1) by (simp add: replicator_step_eq [OF pr(1)] bp_step_eq busy_spin_WaitFor_def p'_def)
    moreover have "proc_ok (?L\<lparr>tl_replicators := [p']\<rparr>) p'" using i(2) wait by (auto simp: proc_ok_def p'_def)
    ultimately show ?thesis using processor_move_inv [OF inv, of p'] by (auto simp: p'_def)
  next
    case (handle a)
    show ?thesis
    proof (cases "bp_next_sequence p \<le> a")
      case True
      then show ?thesis using publish_inv [of m p a xs] inv handle xs unfolding published_next_def by fastforce
    next
      case False
      let ?p = "p\<lparr>bp_sequence := bp_next_sequence p - 1, bp_pc := Waiting\<rparr>"
      have "replicator_step xs 0 (?L, ms_pub m) = Some (?L\<lparr>tl_replicators := [?p]\<rparr>, ms_pub m)"
        using handle False pr(1) by (simp add: replicator_step_eq [OF pr(1)] bp_step_eq)
      moreover have "proc_ok (?L\<lparr>tl_replicators := [?p]\<rparr>) ?p" using i(2) handle by (auto simp: proc_ok_def)
      ultimately show ?thesis using processor_move_inv [OF inv, of ?p] by auto
    qed
  qed
qed

lemma transmit_inv:
  assumes inv: "master_inv m p" and t: "transmit (ms_logs m) (ms_pub m) = Some pub"
  shows "master_inv (m\<lparr>ms_pub := pub\<rparr>) p"
proof (rule master_invI)
  have "pub_prevTransactionId pub = pub_prevTransactionId (ms_pub m)"
    using t by (auto simp: transmit_def split: list.splits Option.bind_splits)
  then show "pub_prevTransactionId (ms_pub (m\<lparr>ms_pub := pub\<rparr>)) = bp_next_sequence p" using master_invD(4) [OF inv] by simp
qed (use master_invD [OF inv] in simp_all)

section \<open>Reachable states\<close>

lemma master_init_inv:
  assumes "length mems = NLDB_TX_EVENT_COUNT" "\<forall>mem\<in>set mems. length mem = TX_REPLICATION_MESSAGE_SIZE"
  shows "\<exists>m p. master_init mems db = Some m \<and> master_inv m p"
proof -
  let ?p = "batch_processor_new\<lparr>bp_running := True, bp_alerted := False, bp_next_sequence := 0, bp_pc := Waiting\<rparr>"
  let ?L = "(tx_logs_new mems)\<lparr>tl_replicators := [?p]\<rparr>"
  let ?m = "\<lparr>ms_tx = snd (tx_init tx_impl_new db), ms_logs = ?L, ms_nextTxId = 1,
      ms_pub = \<lparr>pub_prevTransactionId = 0, pub_queue = [], pub_sent = []\<rparr>, ms_open = [], ms_done = []\<rparr>"
  have init: "master_init mems db = Some ?m"
    by (simp add: master_init_def addReplicator_def bp_Run_def batch_processor_new_def tx_logs_new_def)
  have cl: "clean (lg ?L i)" if "i < 2048" for i
  proof -
    have l: "lg ?L i = log_buffer_new (mems ! i)" using that assms(1) by (simp add: lg_def tx_logs_new_def ring_buffer_new_def NewInstance_def)
    have "length (mems ! i) = 65536" using assms that by simp
    then show ?thesis unfolding l log_buffer_new_def clean_def
      using holds_logs_clear(2) [of "\<lparr>replicationMessageBuffer = mems ! i, nextLogAddr = 0, totalLogSize = 0, transactionId = 0, totalLogCount = 0, isFinalized = False\<rparr>"]
      by (simp add: reset_def clearLog_def)
  qed
  have "master_inv ?m ?p"
    using assms(1) cl by (auto simp: master_inv_def ring_ok_def proc_ok_def slots_ok_def closed_tx_def
        tx_logs_new_def ring_buffer_new_def claim_strategy_new_def NewInstance_def batch_processor_new_def tx_init_def tx_impl_new_def)
  with init show ?thesis by blast
qed

lemma master_step_inv:
  assumes "master_step xs m m'" "master_inv m p" "xs_works xs"
  shows "\<exists>p'. master_inv m' p'"
  using assms(1)
proof (cases rule: master_step.cases)
  case (Begin rc tx logs nextTxId)
  then show ?thesis using begin_inv [OF assms(2) Begin(2)] by auto
next
  case (Put t k v rc logs)
  then show ?thesis using put_inv [OF assms(2) Put(3,2)] by auto
next
  case (Del t k rc logs)
  then show ?thesis using del_inv [OF assms(2) Del(3,2)] by auto
next
  case (Commit rc tx logs)
  then show ?thesis using commit_inv [OF assms(2) Commit(2)] by auto
next
  case (Abort rc tx logs)
  then show ?thesis using abort_inv [OF assms(2) Abort(2)] by auto
next
  case (Replicate logs pub)
  then show ?thesis using replicate_inv [OF assms(2) assms(3)] by auto
next
  case (Transmit pub)
  then show ?thesis using transmit_inv [OF assms(2) Transmit(2)] by auto
qed

lemma master_reachable_inv:
  assumes "master_reachable xs mems db m" "length mems = NLDB_TX_EVENT_COUNT"
    "\<forall>mem\<in>set mems. length mem = TX_REPLICATION_MESSAGE_SIZE" "xs_works xs"
  shows "\<exists>p. master_inv m p"
  using assms(1)
proof induction
  case (Init m)
  then show ?case using master_init_inv [OF assms(2,3), of db] by auto
next
  case (Step m m')
  then show ?case using master_step_inv assms(4) by blast
qed

end
