(* ===== verification/Master_Queue.thy ===== *)
theory Master_Queue
  imports Master_Steps
begin

text \<open>
  The messages on their way from the replicator to the slaves. When no send fails, the queue of the library holds references to the slots of
  consecutive sequences; and as long as no transaction is open in the slot of a queued message, the bytes that the library reads for it are
  those of the transaction that it was sent for.
\<close>

section \<open>Kinds of steps\<close>

lemma master_inv_unique: "master_inv m p \<Longrightarrow> master_inv m p' \<Longrightarrow> p' = p"
  using proc_okD(1) [OF master_invD(2) [of m p]] proc_okD(1) [OF master_invD(2) [of m p']] by simp

lemma same_claimed:
  "master_inv m p \<Longrightarrow> master_inv m' p' \<Longrightarrow> ms_nextTxId m' = ms_nextTxId m \<Longrightarrow> claimed (ms_logs m') = claimed (ms_logs m)"
  using master_invD(7) by fastforce

lemma begin_fields:
  assumes "tx_begin tx logs n = Some (rc, tx', logs', n')"
  shows "n' = n + 1" "tx_txEvent tx' \<noteq> None"
  using assms by (auto simp: tx_begin_def split: if_splits Option.bind_splits)

lemma master_step_kinds:
  assumes step: "master_step xs m m'" and inv: "master_inv m p" and xs: "xs_works xs"
  obtains (user) d where "master_inv m' p" "ms_pub m' = ms_pub m" "ms_done m' = ms_done m @ d" "claimed (ms_logs m') = claimed (ms_logs m)"
  | (opens) "master_inv m' p" "ms_pub m' = ms_pub m" "ms_done m' = ms_done m" "claimed (ms_logs m') = claimed (ms_logs m) + 1"
      "tx_txEvent (ms_tx m') = Some (int (sl (claimed (ms_logs m'))))"
  | (move) p' where "master_inv m' p'" "ms_pub m' = ms_pub m" "ms_done m' = ms_done m" "bp_next_sequence p' = bp_next_sequence p"
      "claimed (ms_logs m') = claimed (ms_logs m)"
  | (publish) p' where "master_inv m' p'" "published_next xs m p (ms_pub m') p'" "ms_done m' = ms_done m" "claimed (ms_logs m') = claimed (ms_logs m)"
  | (transmit) pub where "transmit (ms_logs m) (ms_pub m) = Some pub" "m' = m\<lparr>ms_pub := pub\<rparr>" "master_inv m' p"
  using step
proof (cases rule: master_step.cases)
  case (Begin rc tx logs nextTxId)
  have inv': "master_inv m' p" using begin_inv [OF inv Begin(2)] Begin(1) by simp
  have "tx_txEvent (ms_tx m') \<noteq> None" using begin_fields(2) [OF Begin(2)] Begin(1) by simp
  then have "tx_txEvent (ms_tx m') = Some (int (sl (claimed (ms_logs m'))))" using tx_event_open(2) [OF inv'] by auto
  moreover have "claimed (ms_logs m') = claimed (ms_logs m) + 1"
    using master_invD(7) [OF inv] master_invD(7) [OF inv'] begin_fields(1) [OF Begin(2)] Begin(1) by simp
  ultimately show ?thesis using that(2) inv' Begin(1) by simp
next
  case (Put t k v rc logs)
  have "master_inv m' p" using put_inv [OF inv Put(3,2)] Put(1) by simp
  from that(1) [OF this, of "[]"] same_claimed [OF inv this] Put(1) show ?thesis by simp
next
  case (Del t k rc logs)
  have "master_inv m' p" using del_inv [OF inv Del(3,2)] Del(1) by simp
  from that(1) [OF this, of "[]"] same_claimed [OF inv this] Del(1) show ?thesis by simp
next
  case (Commit rc tx logs)
  have "master_inv m' p" using commit_inv [OF inv Commit(2)] Commit(1) by simp
  from that(1) [OF this] same_claimed [OF inv this] Commit(1) show ?thesis by simp
next
  case (Abort rc tx logs)
  have "master_inv m' p" using abort_inv [OF inv Abort(2)] Abort(1) by simp
  from that(1) [OF this] same_claimed [OF inv this] Abort(1) show ?thesis by simp
next
  case (Replicate logs pub)
  then show ?thesis using replicate_inv [OF inv xs] that(3,4) by auto
next
  case (Transmit pub)
  then show ?thesis using transmit_inv [OF inv Transmit(2)] that(5) by simp
qed

section \<open>The queue of the library\<close>

definition queue_ok :: "publisher \<Rightarrow> log_record list list \<Rightarrow> int \<Rightarrow> bool" where
  "queue_ok pub ended nx \<longleftrightarrow> int (length (pub_sent pub) + length (pub_queue pub)) = nx \<and>
     (\<forall>i<length (pub_queue pub). pub_queue pub ! i = event_msg (int (length (pub_sent pub) + i)) (ended ! (length (pub_sent pub) + i)) \<and>
        16 + logs_size (ended ! (length (pub_sent pub) + i)) < TX_REPLICATION_MESSAGE_SIZE)"

lemma queue_ok_done:
  assumes "queue_ok pub ended nx" "nx \<le> int (length ended)"
  shows "queue_ok pub (ended @ d) nx"
  using assms by (auto simp: queue_ok_def nth_append)

lemma message_image_size: "message_image q rs bs \<Longrightarrow> 16 + logs_size rs < TX_REPLICATION_MESSAGE_SIZE"
  by (auto simp: message_image_def dest: logs_image_length)

lemma queue_ok_publish:
  assumes "queue_ok (ms_pub m) (ms_done m) (bp_next_sequence p)" "published_next xs m p pub p'" "xs_accepts xs"
  shows "queue_ok pub (ms_done m) (bp_next_sequence p')"
proof -
  let ?q = "bp_next_sequence p" and ?P = "ms_pub m"
  have q: "?q = int (length (pub_sent ?P) + length (pub_queue ?P))" using assms(1) by (simp add: queue_ok_def)
  obtain bs where bs: "message_image (?q + 1) (ms_done m ! nat ?q) bs" "bp_next_sequence p' = ?q + 1"
      "pub = ?P\<lparr>pub_prevTransactionId := ?q + 1, pub_queue := enqueue xs bs (event_msg ?q (ms_done m ! nat ?q)) (pub_queue ?P)\<rparr>"
    using assms(2) unfolding published_next_def by blast
  then have "pub_queue pub = pub_queue ?P @ [event_msg ?q (ms_done m ! nat ?q)]" "pub_sent pub = pub_sent ?P"
    using assms(3) by (simp_all add: enqueue_def xs_accepts_def)
  moreover have "nat ?q = length (pub_sent ?P) + length (pub_queue ?P)" using q by simp
  ultimately show ?thesis
    using assms(1) bs(2) message_image_size [OF bs(1)] q by (auto simp: queue_ok_def nth_append less_Suc_eq simp del: of_nat_add)
qed

lemma transmit_fields:
  assumes "transmit logs pub = Some pub'"
  obtains msg lb bs where "pub_queue pub = msg # pub_queue pub'" "pub_sent pub' = pub_sent pub @ [bs]"
    "getLogBuffer logs (xm_data msg) = Some lb" "message_bytes lb msg = Some bs"
  using assms by (auto simp: transmit_def split: list.splits Option.bind_splits)

lemma queue_ok_transmit:
  assumes "queue_ok pub ended nx" "transmit logs pub = Some pub'"
  shows "queue_ok pub' ended nx"
proof -
  obtain msg bs where t: "pub_queue pub = msg # pub_queue pub'" "pub_sent pub' = pub_sent pub @ [bs]" by (rule transmit_fields [OF assms(2)])
  have "pub_queue pub' ! i = event_msg (int (length (pub_sent pub') + i)) (ended ! (length (pub_sent pub') + i)) \<and>
      16 + logs_size (ended ! (length (pub_sent pub') + i)) < TX_REPLICATION_MESSAGE_SIZE" if "i < length (pub_queue pub')" for i
  proof -
    have "Suc i < length (pub_queue pub)" "pub_queue pub' ! i = pub_queue pub ! Suc i" using that t(1) by simp_all
    moreover have "length (pub_sent pub') + i = length (pub_sent pub) + Suc i" using t(2) by simp
    ultimately show ?thesis using assms(1) unfolding queue_ok_def by presburger
  qed
  then show ?thesis using assms(1) t by (simp add: queue_ok_def)
qed

lemma done_bound: "master_inv m p \<Longrightarrow> bp_next_sequence p \<le> int (length (ms_done m))"
  using master_invD(6) [of m p] proc_okD(4) [OF master_invD(2) [of m p]] by simp

lemma master_step_queue:
  assumes step: "master_step xs m m'" and inv: "master_inv m p" and xs: "xs_accepts xs"
    and q: "queue_ok (ms_pub m) (ms_done m) (bp_next_sequence p)"
  shows "\<exists>p'. master_inv m' p' \<and> queue_ok (ms_pub m') (ms_done m') (bp_next_sequence p')"
proof -
  have w: "xs_works xs" using xs by (simp add: xs_accepts_def)
  from step inv w show ?thesis
  proof (cases rule: master_step_kinds)
    case (user d)
    then show ?thesis using queue_ok_done [OF q done_bound [OF inv], of d] by auto
  next
    case (publish p')
    then show ?thesis using queue_ok_publish [OF q publish(2) xs] by auto
  next
    case (transmit pub)
    then show ?thesis using queue_ok_transmit [OF q transmit(1)] by auto
  qed (use q in auto)
qed

lemma master_init_queue: "master_init mems db = Some m \<Longrightarrow> master_inv m p \<Longrightarrow> queue_ok (ms_pub m) (ms_done m) (bp_next_sequence p)"
  using master_invD(4) [of m p] by (auto simp: master_init_def queue_ok_def split: Option.bind_splits)

lemma master_reachable_queue:
  assumes "master_reachable xs mems db m" "length mems = NLDB_TX_EVENT_COUNT" "\<forall>mem\<in>set mems. length mem = TX_REPLICATION_MESSAGE_SIZE"
    "xs_accepts xs"
  shows "\<exists>p. master_inv m p \<and> queue_ok (ms_pub m) (ms_done m) (bp_next_sequence p)"
  using assms(1)
proof induction
  case (Init m)
  then show ?case using master_init_inv [OF assms(2,3), of db] master_init_queue by force
next
  case (Step m m')
  then show ?case using master_step_queue assms(4) by blast
qed

section \<open>Timely runs\<close>

definition timely :: "master \<Rightarrow> batch_processor \<Rightarrow> bool" where
  "timely m p \<longleftrightarrow> master_inv m p \<and> queue_ok (ms_pub m) (ms_done m) (bp_next_sequence p) \<and>
     claimed (ms_logs m) - 2048 < int (length (pub_sent (ms_pub m))) \<and>
     (\<forall>i<length (pub_sent (ms_pub m)). message_image (int i + 1) (ms_done m ! i) (pub_sent (ms_pub m) ! i))"

text \<open>The bytes that are read for the next message are those of its transaction.\<close>

lemma timely_head:
  assumes t: "timely m p" and q: "pub_queue (ms_pub m) = msg # msgs"
  defines "n \<equiv> length (pub_sent (ms_pub m))"
  shows "\<exists>lb bs. getLogBuffer (ms_logs m) (xm_data msg) = Some lb \<and> message_bytes lb msg = Some bs \<and> message_image (int n + 1) (ms_done m ! n) bs"
proof -
  have inv: "master_inv m p" using t by (simp add: timely_def)
  note i = master_invD [OF inv] and pr = proc_okD [OF master_invD(2) [OF inv]]
  have msg: "msg = event_msg (int n) (ms_done m ! n)" "int n < bp_next_sequence p" "claimed (ms_logs m) - 2048 < int n"
    using t q by (auto simp: timely_def queue_ok_def n_def)
  have "keeps_bytes (int n) (ms_done m ! nat (int n)) (lg (ms_logs m) (sl (int n)))" using i(3) msg(2,3) pr(4)
    unfolding slots_ok_def by (metis of_nat_0_le_iff zle_add1_eq_le order.strict_trans2)
  then show ?thesis
    using getLogBuffer_lg [OF i(1) sl_less] by (auto simp: keeps_bytes_def msg(1) event_msg_def message_bytes_def)
qed

lemma timely_transmit:
  assumes t: "timely m p" and tr: "transmit (ms_logs m) (ms_pub m) = Some pub"
  shows "timely (m\<lparr>ms_pub := pub\<rparr>) p"
proof -
  obtain msg lb bs where f: "pub_queue (ms_pub m) = msg # pub_queue pub" "pub_sent pub = pub_sent (ms_pub m) @ [bs]"
      "getLogBuffer (ms_logs m) (xm_data msg) = Some lb" "message_bytes lb msg = Some bs"
    by (rule transmit_fields [OF tr])
  have "message_image (int (length (pub_sent (ms_pub m))) + 1) (ms_done m ! length (pub_sent (ms_pub m))) bs"
    using timely_head [OF t f(1)] f(3,4) by auto
  then show ?thesis
    using t transmit_inv [OF _ tr] queue_ok_transmit [OF _ tr] f(2) by (auto simp: timely_def nth_append less_Suc_eq)
qed

lemma timely_respected:
  assumes t: "timely m p"
  shows "buffers_respected m"
proof (cases "tx_txEvent (ms_tx m)")
  case (Some slot)
  have inv: "master_inv m p" using t by (simp add: timely_def)
  note pr = proc_okD [OF master_invD(2) [OF inv]]
  have op: "slot = int (sl (claimed (ms_logs m)))" "claimed (ms_logs m) = published (ms_logs m) + 1"
    using tx_event_open [OF inv Some] by (auto simp: open_tx_def)
  have "xm_data (pub_queue (ms_pub m) ! i) \<noteq> slot" if "i < length (pub_queue (ms_pub m))" for i
  proof -
    let ?q = "int (length (pub_sent (ms_pub m)) + i)"
    have "?q < claimed (ms_logs m)" "claimed (ms_logs m) - 2048 < ?q" "xm_data (pub_queue (ms_pub m) ! i) = int (sl ?q)"
      using t that pr(4) op(2) by (auto simp: timely_def queue_ok_def event_msg_def)
    then show ?thesis using claimed_slot_free [of "ms_logs m" ?q ?q] op(1) by (simp del: of_nat_add)
  qed
  then have "slot \<notin> set (map xm_data (pub_queue (ms_pub m)))" by (auto simp: in_set_conv_nth) metis
  then show ?thesis using Some by (simp add: buffers_respected_def)
qed (simp add: buffers_respected_def)

text \<open>Only a step that begins a transaction could take a slot from the library.\<close>

lemma timely_step:
  assumes step: "master_step xs m m'" and t: "timely m p" and xs: "xs_accepts xs"
    and ok: "claimed (ms_logs m') = claimed (ms_logs m) \<or> buffers_respected m'"
  shows "\<exists>p'. timely m' p'"
proof -
  have inv: "master_inv m p" and q: "queue_ok (ms_pub m) (ms_done m) (bp_next_sequence p)" using t by (simp_all add: timely_def)
  have w: "xs_works xs" using xs by (simp add: xs_accepts_def)
  have n: "length (pub_sent (ms_pub m)) \<le> length (ms_done m)" using q done_bound [OF inv] by (simp add: queue_ok_def)
  from step inv w show ?thesis
  proof (cases rule: master_step_kinds)
    case (user d)
    then have "timely m' p" using t n queue_ok_done [OF q done_bound [OF inv], of d] by (auto simp: timely_def nth_append)
    then show ?thesis ..
  next
    case opens
    note pr = proc_okD [OF master_invD(2) [OF opens(1)]]
    let ?n = "length (pub_sent (ms_pub m))"
    have "claimed (ms_logs m') - 2048 \<noteq> int ?n"
    proof
      assume c: "claimed (ms_logs m') - 2048 = int ?n"
      then have "pub_queue (ms_pub m) \<noteq> []" using q pr(3,5) by (auto simp: queue_ok_def)
      then have "pub_queue (ms_pub m) ! 0 \<in> set (pub_queue (ms_pub m))" by simp
      moreover have "xm_data (pub_queue (ms_pub m) ! 0) = int (sl (int ?n))"
        using q \<open>pub_queue (ms_pub m) \<noteq> []\<close> by (auto simp: queue_ok_def event_msg_def)
      moreover have "sl (int ?n) = sl (claimed (ms_logs m'))" using c by (simp add: sl_def flip: c)
      moreover have "buffers_respected m'" using ok opens(4) by simp
      ultimately show False using opens(2,5) by (force simp: buffers_respected_def)
    qed
    then have "timely m' p" using t opens by (auto simp: timely_def)
    then show ?thesis ..
  next
    case (move p')
    then show ?thesis using t by (intro exI [of _ p']) (auto simp: timely_def)
  next
    case (publish p')
    then have "pub_sent (ms_pub m') = pub_sent (ms_pub m)" by (auto simp: published_next_def)
    then show ?thesis using t publish queue_ok_publish [OF q publish(2) xs] by (intro exI [of _ p']) (auto simp: timely_def)
  next
    case (transmit pub)
    then show ?thesis using timely_transmit [OF t transmit(1)] by auto
  qed
qed

lemma master_timely_inv:
  assumes "master_timely xs mems db m" "length mems = NLDB_TX_EVENT_COUNT" "\<forall>mem\<in>set mems. length mem = TX_REPLICATION_MESSAGE_SIZE"
    "xs_accepts xs"
  shows "\<exists>p. timely m p"
  using assms(1)
proof induction
  case (Init m)
  then obtain p where p: "master_inv m p" using master_init_inv [OF assms(2,3), of db] by auto
  moreover have "pub_sent (ms_pub m) = []" "ms_nextTxId m = 1" using Init by (auto simp: master_init_def split: Option.bind_splits)
  ultimately show ?case using master_init_queue [OF Init p] master_invD(7) [OF p] by (auto simp: timely_def)
next
  case (Step m m')
  then show ?case using timely_step assms(4) by blast
qed

end
