(* ===== verification/Master_Properties.thy ===== *)
theory Master_Properties
  imports Master_Queue
begin

text \<open>
  What the master guarantees in every interleaving of the user's thread with the replicator's and the library's: no assertion of the
  replicator fails. As long as sending does not fail and no transaction writes into a buffer that the library still holds, the
  transmitted messages are exactly those of the first ended transactions, in order and with consecutive transaction ids, and everything that has
  ended is transmitted when the replicator and the library are given enough steps.
\<close>

section \<open>Progress of the user's thread\<close>

lemma begin_progress:
  assumes inv: "master_inv m p" and closed: "tx_txEvent (ms_tx m) = None" and room: "claimed (ms_logs m) + 1 - 2048 \<le> bp_sequence p"
    and lim: "bp_sequence p \<le> LONG_MAX"
  shows "\<exists>tx logs nextTxId. tx_begin (ms_tx m) (ms_logs m) (ms_nextTxId m) = Some (NLDB_OK, tx, logs, nextTxId)"
proof -
  note i = master_invD [OF inv] and pr = proc_okD [OF master_invD(2) [OF inv]]
  let ?L = "ms_logs m"
  let ?s = "claimed ?L + 1"
  have c: "closed_tx (ms_tx m) ?L" using i(5) closed by (auto simp: open_tx_def)
  have cur: "getCurrentTransactionEvent ?L = None" using c by (simp add: closed_tx_def getCurrentTransactionEvent_def)
  have min: "GetMinimumSequence [bp_sequence p] = bp_sequence p" using lim by (simp add: GetMinimumSequence_def)
  have "0 \<le> ?s" using c i(6) by (simp add: closed_tx_def)
  moreover have slot: "rb_slot ((tl_ring ?L)\<lparr>rb_claim_strategy := cs\<rparr>) q = int (sl q)" for q cs
    using rb_slot_sl [OF i(1)] by (simp add: rb_slot_def)
  moreover have "rb_Get ((tl_ring ?L)\<lparr>rb_claim_strategy := cs\<rparr>) q = Some (rb_events (tl_ring ?L) ! sl q)" for q cs
    using i(1) sl_less [of q] unfolding rb_Get_def slot by (simp add: ring_ok_def)
  ultimately obtain slot L where g: "getNextTransactionEvent ?L = Some (slot, L)"
    using room i(1) by (simp add: getNextTransactionEvent_def rb_Next_def cs_IncrementAndGet_def WaitForFreeSlotAt_def
        sequence_to_track_def pr(1) Let_def ring_ok_def min)
  note n = getNextTransactionEvent_spec [OF i(1) pr(1,2) g]
  have free: "sl ?s \<notin> sl ` {bp_next_sequence p..claimed ?L}" using sl_free [of ?s "bp_next_sequence p"] pr n(3,8) by simp
  have "clean (lg ?L (sl ?s))" using i(3) free sl_less by (simp add: slots_ok_def)
  then have "isClear (lg ?L (sl ?s))" "transactionId (lg ?L (sl ?s)) = 0"
    by (auto simp: clean_def isClear_def holds_logs_def)
  moreover have "getLogBuffer L slot = Some (lg ?L (sl ?s))" using getLogBuffer_lg [OF n(2) sl_less, of ?s] n(1,7) by simp
  ultimately show ?thesis using closed cur g by (simp add: tx_begin_def setTransactionId_def)
qed

lemma append_progress:
  assumes inv: "master_inv m p" and ev: "tx_txEvent (ms_tx m) = Some slot" and ok: "record_ok (put_record t k v)"
    and room: "16 + logs_size (ms_open m) + record_size (put_record t k v) < TX_REPLICATION_MESSAGE_SIZE"
  shows "\<exists>logs. append_log_put (ms_tx m) (ms_logs m) t (the_key k) (the_value v) = Some (NLDB_OK, logs)"
proof -
  note op = tx_event_open [OF inv ev] and i = master_invD [OF inv]
  have h: "holds_logs (lg (ms_logs m) (sl (claimed (ms_logs m)))) (ms_open m)" using op(1) unfolding open_tx_def by blast
  have len: "length k < 2 ^ 16" "length v < 2 ^ 16" using ok by (simp_all add: record_ok_def put_record_def)
  obtain lb where "append_record (lg (ms_logs m) (sl (claimed (ms_logs m)))) (put_record t k v) = Some lb"
    using append_record_spec [OF h ok room] by blast
  then show ?thesis
    using ev op(2) getLogBuffer_lg [OF i(1) sl_less] ucast_16_64 [OF len(1)] ucast_16_64 [OF len(2)]
    by (simp add: append_log_put_def append_record_def put_record_def)
qed

lemma commit_progress:
  assumes inv: "master_inv m p" and ev: "tx_txEvent (ms_tx m) = Some slot"
  shows "\<exists>tx logs. tx_commit (ms_tx m) (ms_logs m) = Some (NLDB_OK, tx, logs)"
proof -
  note i = master_invD [OF inv] and pr = proc_okD [OF master_invD(2) [OF inv]]
  have "- 1 \<le> published (ms_logs m)" using i(6) by linarith
  then show ?thesis using tx_end_open [OF i(1) tx_event_open(1) [OF inv ev] pr(1)] by (auto simp: tx_commit_def)
qed

section \<open>Draining the ring buffer\<close>

definition replicates :: "xs_sender \<Rightarrow> master \<Rightarrow> master \<Rightarrow> bool" where
  "replicates xs m m' \<longleftrightarrow> (\<exists>logs pub. replicator_step xs 0 (ms_logs m, ms_pub m) = Some (logs, pub) \<and>
     m' = m\<lparr>ms_logs := logs, ms_pub := pub\<rparr>)"

lemma replicates_done: "(replicates xs)\<^sup>*\<^sup>* m m' \<Longrightarrow> ms_done m' = ms_done m"
  by (induction rule: rtranclp_induct) (auto simp: replicates_def)

lemma replicates_reachable:
  "(replicates xs)\<^sup>*\<^sup>* m m' \<Longrightarrow> master_reachable xs mems db m \<Longrightarrow> master_reachable xs mems db m'"
  by (induction rule: rtranclp_induct) (auto simp: replicates_def intro: master_reachable.Step master_step.Replicate)

text \<open>While something published is not sent, at most three steps of the replicator send the next message.\<close>

lemma publish_next:
  assumes inv: "master_inv m p" and n: "bp_next_sequence p \<le> published (ms_logs m)" and xs: "xs_works xs"
  shows "\<exists>m' p'. (replicates xs)\<^sup>*\<^sup>* m m' \<and> master_inv m' p' \<and> bp_next_sequence p' = bp_next_sequence p + 1"
proof -
  have handling: "\<exists>m' p'. (replicates xs)\<^sup>*\<^sup>* m m' \<and> master_inv m' p' \<and> bp_next_sequence p' = bp_next_sequence p + 1"
    if h: "master_inv m p" "bp_pc p = Handling a" "bp_next_sequence p \<le> a" for m p a
  proof -
    let ?p = "p\<lparr>bp_next_sequence := bp_next_sequence p + 1\<rparr>"
    obtain logs pub where r: "replicator_step xs 0 (ms_logs m, ms_pub m) = Some (logs, pub)"
        "master_inv (m\<lparr>ms_logs := logs, ms_pub := pub\<rparr>) ?p"
      using publish_inv [OF h xs] by blast
    have "replicates xs m (m\<lparr>ms_logs := logs, ms_pub := pub\<rparr>)" using r(1) by (auto simp: replicates_def)
    then show ?thesis using r(2) by (intro exI [of _ "m\<lparr>ms_logs := logs, ms_pub := pub\<rparr>"] exI [of _ ?p]) auto
  qed
  have waiting: "\<exists>m' p'. (replicates xs)\<^sup>*\<^sup>* m m' \<and> master_inv m' p' \<and> bp_next_sequence p' = bp_next_sequence p + 1"
    if w: "master_inv m p" "bp_pc p = Waiting" "bp_next_sequence p \<le> published (ms_logs m)" for m p
  proof -
    note i = master_invD [OF w(1)] and pr = proc_okD [OF master_invD(2) [OF w(1)]]
    let ?p = "p\<lparr>bp_pc := Handling (published (ms_logs m))\<rparr>" and ?L = "ms_logs m"
    let ?m = "m\<lparr>ms_logs := ?L\<lparr>tl_replicators := [?p]\<rparr>, ms_pub := ms_pub m\<rparr>"
    have "replicates xs m ?m"
      using w pr(1) unfolding replicates_def by (simp add: replicator_step_eq [OF pr(1)] bp_step_eq busy_spin_WaitFor_def)
    moreover have "master_inv ?m ?p"
      using i(2) w(2) by (intro processor_move_inv [OF w(1)]) (auto simp: proc_ok_def)
    ultimately show ?thesis using handling [of ?m ?p "published ?L"] w(3) by (auto intro: converse_rtranclp_into_rtranclp)
  qed
  note i = master_invD [OF inv] and pr = proc_okD [OF master_invD(2) [OF inv]]
  consider "bp_pc p = Waiting" | a where "bp_pc p = Handling a" "bp_next_sequence p \<le> a" | a where "bp_pc p = Handling a" "a < bp_next_sequence p"
    using i(2) by (fastforce simp: proc_ok_def)
  then show ?thesis
  proof cases
    case (3 a)
    let ?p = "p\<lparr>bp_sequence := bp_next_sequence p - 1, bp_pc := Waiting\<rparr>" and ?L = "ms_logs m"
    let ?m = "m\<lparr>ms_logs := ?L\<lparr>tl_replicators := [?p]\<rparr>, ms_pub := ms_pub m\<rparr>"
    have "replicates xs m ?m"
      using 3 pr(1) unfolding replicates_def by (simp add: replicator_step_eq [OF pr(1)] bp_step_eq)
    moreover have "master_inv ?m ?p"
      using i(2) 3 by (intro processor_move_inv [OF inv]) (auto simp: proc_ok_def)
    ultimately show ?thesis using waiting [of ?m ?p] n by (auto intro: converse_rtranclp_into_rtranclp)
  qed (use waiting [OF inv] handling [OF inv] n in blast)+
qed

lemma drain:
  assumes "master_inv m p" "xs_works xs"
  shows "\<exists>m' p'. (replicates xs)\<^sup>*\<^sup>* m m' \<and> master_inv m' p' \<and> bp_next_sequence p' = published (ms_logs m') + 1"
  using assms(1)
proof (induction "nat (published (ms_logs m) + 1 - bp_next_sequence p)" arbitrary: m p rule: less_induct)
  case less
  show ?case
  proof (cases "bp_next_sequence p \<le> published (ms_logs m)")
    case True
    obtain m1 p1 where m1: "(replicates xs)\<^sup>*\<^sup>* m m1" "master_inv m1 p1" "bp_next_sequence p1 = bp_next_sequence p + 1"
      using publish_next [OF less.prems True assms(2)] by blast
    have "published (ms_logs m1) = published (ms_logs m)"
      using master_invD(6) [OF m1(2)] master_invD(6) [OF less.prems] replicates_done [OF m1(1)] by simp
    then have "nat (published (ms_logs m1) + 1 - bp_next_sequence p1) < nat (published (ms_logs m) + 1 - bp_next_sequence p)"
      using m1(3) True by simp
    from less.hyps [OF this m1(2)] m1(1) show ?thesis by (meson rtranclp_trans)
  next
    case False
    then have "bp_next_sequence p = published (ms_logs m) + 1" using proc_okD(4) [OF master_invD(2) [OF less.prems]] by simp
    then show ?thesis using less.prems by blast
  qed
qed

section \<open>Transmitting everything\<close>

definition transmits :: "master \<Rightarrow> master \<Rightarrow> bool" where
  "transmits m m' \<longleftrightarrow> (\<exists>pub. transmit (ms_logs m) (ms_pub m) = Some pub \<and> m' = m\<lparr>ms_pub := pub\<rparr>)"

text \<open>Steps of the replicator and of the library alone.\<close>

definition progresses :: "xs_sender \<Rightarrow> master \<Rightarrow> master \<Rightarrow> bool" where
  "progresses xs m m' \<longleftrightarrow> replicates xs m m' \<or> transmits m m'"

lemma progresses_step: "progresses xs m m' \<Longrightarrow> master_step xs m m'"
  by (auto simp: progresses_def replicates_def transmits_def intro: master_step.intros)

lemma progresses_timely:
  assumes "(progresses xs)\<^sup>*\<^sup>* m m'" "timely m p" "xs_accepts xs" "master_timely xs mems db m"
  shows "master_timely xs mems db m' \<and> (\<exists>p'. timely m' p') \<and> ms_done m' = ms_done m"
  using assms(1)
proof (induction rule: rtranclp_induct)
  case (step m1 m2)
  then obtain p1 where t: "timely m1 p1" by blast
  then have inv: "master_inv m1 p1" by (simp add: timely_def)
  have f: "claimed (ms_logs m2) = claimed (ms_logs m1)" "ms_done m2 = ms_done m1"
    using step.hyps(2) replicate_inv [OF inv xs_accepts_works [OF assms(3)]] by (auto simp: progresses_def replicates_def transmits_def)
  obtain p2 where p2: "timely m2 p2" using timely_step [OF progresses_step [OF step.hyps(2)] t assms(3)] f(1) by blast
  then show ?case
    using master_timely.Step [OF _ progresses_step [OF step.hyps(2)] timely_respected [OF p2]] step.IH f(2) by auto
qed (use assms in blast)

lemma transmit_all:
  "timely m p \<Longrightarrow> \<exists>m'. transmits\<^sup>*\<^sup>* m m' \<and> pub_queue (ms_pub m') = []"
proof (induction "length (pub_queue (ms_pub m))" arbitrary: m)
  case (Suc n)
  then obtain msg msgs where q: "pub_queue (ms_pub m) = msg # msgs" by (cases "pub_queue (ms_pub m)") auto
  obtain pub where tr: "transmit (ms_logs m) (ms_pub m) = Some pub" "pub_queue pub = msgs"
    using timely_head [OF Suc.prems q] q by (auto simp: transmit_def)
  then have "timely (m\<lparr>ms_pub := pub\<rparr>) p" using timely_transmit [OF Suc.prems] by blast
  then obtain m' where "transmits\<^sup>*\<^sup>* (m\<lparr>ms_pub := pub\<rparr>) m'" "pub_queue (ms_pub m') = []"
    using Suc.hyps(1) [of "m\<lparr>ms_pub := pub\<rparr>"] Suc.hyps(2) q tr(2) by auto
  moreover have "transmits m (m\<lparr>ms_pub := pub\<rparr>)" using tr(1) by (auto simp: transmits_def)
  ultimately show ?case by (meson converse_rtranclp_into_rtranclp)
qed auto

lemma transmits_logs: "transmits\<^sup>*\<^sup>* m m' \<Longrightarrow> ms_logs m' = ms_logs m"
  by (induction rule: rtranclp_induct) (auto simp: transmits_def)

lemma drain_all:
  assumes t: "timely m p" and xs: "xs_accepts xs" and m: "master_timely xs mems db m"
  shows "\<exists>m' p'. (progresses xs)\<^sup>*\<^sup>* m m' \<and> master_timely xs mems db m' \<and> timely m' p' \<and> ms_done m' = ms_done m \<and>
     length (pub_sent (ms_pub m')) = length (ms_done m)"
proof -
  have inv: "master_inv m p" using t by (simp add: timely_def)
  obtain m1 p1 where m1: "(replicates xs)\<^sup>*\<^sup>* m m1" "master_inv m1 p1" "bp_next_sequence p1 = published (ms_logs m1) + 1"
    using drain [OF inv xs_accepts_works [OF xs]] by blast
  have r1: "(progresses xs)\<^sup>*\<^sup>* m m1" using m1(1) by (rule rtranclp_mono [THEN predicate2D, rotated]) (auto simp: progresses_def)
  then obtain q1 where t1: "master_timely xs mems db m1" "timely m1 q1" "ms_done m1 = ms_done m" using progresses_timely [OF _ t xs m] by blast
  obtain m2 where m2: "transmits\<^sup>*\<^sup>* m1 m2" "pub_queue (ms_pub m2) = []" using transmit_all [OF t1(2)] by blast
  have r2: "(progresses xs)\<^sup>*\<^sup>* m1 m2" using m2(1) by (rule rtranclp_mono [THEN predicate2D, rotated]) (auto simp: progresses_def)
  then obtain q2 where t2: "master_timely xs mems db m2" "timely m2 q2" "ms_done m2 = ms_done m1"
    using progresses_timely [OF _ t1(2) xs t1(1)] by blast
  have inv2: "master_inv m2 q2" using t2(2) by (simp add: timely_def)
  have "q2 = p1"
    using proc_okD(1) [OF master_invD(2) [OF inv2]] proc_okD(1) [OF master_invD(2) [OF m1(2)]] transmits_logs [OF m2(1)] by simp
  then have "int (length (pub_sent (ms_pub m2))) = published (ms_logs m2) + 1"
    using t2(2) m2(2) m1(3) transmits_logs [OF m2(1)] by (simp add: timely_def queue_ok_def)
  then have "length (pub_sent (ms_pub m2)) = length (ms_done m)" using master_invD(6) [OF inv2] t2(3) t1(3) by simp
  then show ?thesis using t2 t1(3) rtranclp_trans [OF r1 r2] by metis
qed

section \<open>Properties\<close>

text \<open>A run for the witnesses: one transaction that puts a pair into table 1.\<close>

definition sample_mems :: "byte list list" where
  "sample_mems = replicate 2048 (replicate 65536 0)"

definition sample_sender :: xs_sender where
  "sample_sender = \<lparr>xo_msg_init_data = \<lambda>a n. 0, xo_sendmsg = \<lambda>bs. int (length bs), xo_msg_close = \<lambda>msg. 0\<rparr>"

lemma sample_sender_accepts: "xs_accepts sample_sender" "xs_works sample_sender"
  by (simp_all add: sample_sender_def xs_accepts_def xs_works_def)

lemma sample_mems_ok: "length sample_mems = NLDB_TX_EVENT_COUNT" "\<forall>mem\<in>set sample_mems. length mem = TX_REPLICATION_MESSAGE_SIZE"
  by (simp_all add: sample_mems_def)

lemma sample_run:
  "\<exists>m p. master_timely sample_sender sample_mems 1 m \<and> master_inv m p \<and> ms_done m = [[put_record 1 [7] [8, 9]]] \<and> bp_next_sequence p = 0"
proof -
  obtain m p where m: "master_init sample_mems 1 = Some m" "master_inv m p" using master_init_inv [OF sample_mems_ok] by blast
  then have r: "master_timely sample_sender sample_mems 1 m" by (auto intro: master_timely.Init)
  have qu: "pub_queue (ms_pub m) = []" using m(1) by (auto simp: master_init_def split: Option.bind_splits)
  have v: "tx_txEvent (ms_tx m) = None" "claimed (ms_logs m) = - 1" "ms_done m = []"
      "tl_replicators (ms_logs m) = [batch_processor_new\<lparr>bp_running := True, bp_next_sequence := 0, bp_pc := Waiting\<rparr>]"
    using m(1) by (auto simp: master_init_def addReplicator_def bp_Run_def batch_processor_new_def tx_logs_new_def
        ring_buffer_new_def claim_strategy_new_def tx_init_def tx_impl_new_def)
  have p: "bp_sequence p = - 1" "bp_next_sequence p = 0" using v(4) proc_okD(1) [OF master_invD(2) [OF m(2)]] by (simp_all add: batch_processor_new_def)
  then obtain tx logs nid where b: "tx_begin (ms_tx m) (ms_logs m) (ms_nextTxId m) = Some (NLDB_OK, tx, logs, nid)"
    using begin_progress [OF m(2) v(1)] v(2) by auto
  define m1 where "m1 = m\<lparr>ms_tx := tx, ms_logs := logs, ms_nextTxId := nid, ms_open := []\<rparr>"
  have m1: "master_inv m1 p" "master_timely sample_sender sample_mems 1 m1"
    using begin_inv [OF m(2) b] master_timely.Step [OF r master_step.Begin [OF b] empty_queue_respected] qu by (simp_all add: m1_def)
  obtain slot where ev: "tx_txEvent (ms_tx m1) = Some slot"
    using b by (auto simp: tx_begin_def m1_def split: Option.bind_splits if_splits option.splits)
  have ok: "record_ok (put_record 1 [7] [8, 9])" by (simp add: record_ok_def put_record_def)
  obtain L where a: "append_log_put (ms_tx m1) (ms_logs m1) 1 (the_key [7]) (the_value [8, 9]) = Some (NLDB_OK, L)"
    using append_progress [OF m1(1) ev ok] by (auto simp: m1_def record_size_def put_record_def al_def)
  define m2 where "m2 = m1\<lparr>ms_logs := L, ms_open := ms_open m1 @ [put_record 1 [7] [8, 9]]\<rparr>"
  have m2: "master_inv m2 p" "master_timely sample_sender sample_mems 1 m2"
    using put_inv [OF m1(1) ok a] master_timely.Step [OF m1(2) master_step.Put [OF a ok] empty_queue_respected] qu by (simp_all add: m1_def m2_def)
  have "tx_txEvent (ms_tx m2) = Some slot" using ev by (simp add: m2_def)
  then obtain tx' logs' where c: "tx_commit (ms_tx m2) (ms_logs m2) = Some (NLDB_OK, tx', logs')"
    using commit_progress [OF m2(1)] by blast
  show ?thesis
    using commit_inv [OF m2(1) c] master_timely.Step [OF m2(2) master_step.Commit [OF c] empty_queue_respected] qu v(3) p(2) by (fastforce simp: m1_def m2_def)
qed

lemma sample_sent:
  "\<exists>m. master_timely sample_sender sample_mems 1 m \<and> ms_done m = [[put_record 1 [7] [8, 9]]] \<and> length (pub_sent (ms_pub m)) = 1"
proof -
  obtain m0 where m0: "master_timely sample_sender sample_mems 1 m0" "ms_done m0 = [[put_record 1 [7] [8, 9]]]"
    using sample_run by blast
  obtain p where "timely m0 p" using master_timely_inv [OF m0(1) sample_mems_ok sample_sender_accepts(1)] by blast
  from drain_all [OF this sample_sender_accepts(1) m0(1)] m0(2) show ?thesis by fastforce
qed

text \<open>
  C3: in every interleaving of transactions, replicator and library in which sending does not fail and no transaction is open in the slot of a
  message that the library still holds, the messages transmitted so far are those of the first ended transactions, in order: message \<open>i\<close>
  carries the transaction id \<open>i + 1\<close> and exactly the log records of the transaction, none for an aborted one.
\<close>

theorem master_sends_ended_transactions_in_order:
  assumes "master_timely xs mems db m" "length mems = NLDB_TX_EVENT_COUNT"
    "\<forall>mem\<in>set mems. length mem = TX_REPLICATION_MESSAGE_SIZE" "xs_accepts xs"
  shows "length (pub_sent (ms_pub m)) \<le> length (ms_done m) \<and>
         (\<forall>i<length (pub_sent (ms_pub m)). message_image (int i + 1) (ms_done m ! i) (pub_sent (ms_pub m) ! i))"
proof -
  obtain p where t: "timely m p" using master_timely_inv [OF assms] by blast
  then have "length (pub_sent (ms_pub m)) \<le> length (ms_done m)" using done_bound [of m p] by (simp add: timely_def queue_ok_def)
  then show ?thesis using t by (simp add: timely_def)
qed

theorem master_sends_ended_transactions_in_order_witness:
  "\<exists>m. master_timely sample_sender sample_mems 1 m \<and> length (pub_sent (ms_pub m)) = 1 \<and>
     message_image 1 [put_record 1 [7] [8, 9]] (pub_sent (ms_pub m) ! 0)"
proof -
  obtain m where m: "master_timely sample_sender sample_mems 1 m" "ms_done m = [[put_record 1 [7] [8, 9]]]" "length (pub_sent (ms_pub m)) = 1"
    using sample_sent by blast
  show ?thesis using master_sends_ended_transactions_in_order [OF m(1) sample_mems_ok sample_sender_accepts(1)] m by auto
qed

text \<open>
  C8: the replicator never fails: in every reachable state its next step returns, so none of the assertions of the
  event handler (finalised log, consecutive transaction ids, consistent sizes) is ever violated, provided that the calls of the library for a
  message neither run out of memory nor return 0 for the number of bytes sent. They hold even when every send fails with \<open>- 1\<close>.
\<close>

theorem replicator_never_fails:
  assumes "master_reachable xs mems db m" "length mems = NLDB_TX_EVENT_COUNT"
    "\<forall>mem\<in>set mems. length mem = TX_REPLICATION_MESSAGE_SIZE" "xs_works xs"
  shows "replicator_step xs 0 (ms_logs m, ms_pub m) \<noteq> None"
proof -
  obtain p where "master_inv m p" using master_reachable_inv [OF assms] by blast
  from replicate_inv [OF this assms(4)] show ?thesis by auto
qed

theorem replicator_never_fails_witness:
  "\<exists>m :: master. ms_done m = [[put_record 1 [7] [8, 9]]] \<and> replicator_step sample_sender 0 (ms_logs m, ms_pub m) \<noteq> None"
proof -
  obtain m p where m: "master_timely sample_sender sample_mems 1 m" "ms_done m = [[put_record 1 [7] [8, 9]]]"
    using sample_run by blast
  show ?thesis
    using replicator_never_fails [OF timely_reachable [OF m(1)] sample_mems_ok sample_sender_accepts(2)] m(2) by (intro exI [of _ m]) simp
qed

text \<open>
  C9: when the user's thread pauses, steps of the replicator and of the library alone lead from every such state to one in which the message of
  every ended transaction has been transmitted.
\<close>

theorem replicator_drains:
  assumes "master_timely xs mems db m" "length mems = NLDB_TX_EVENT_COUNT"
    "\<forall>mem\<in>set mems. length mem = TX_REPLICATION_MESSAGE_SIZE" "xs_accepts xs"
  shows "\<exists>m'. (progresses xs)\<^sup>*\<^sup>* m m' \<and> master_timely xs mems db m' \<and> ms_done m' = ms_done m \<and>
     length (pub_sent (ms_pub m')) = length (ms_done m) \<and>
     (\<forall>i<length (ms_done m). message_image (int i + 1) (ms_done m ! i) (pub_sent (ms_pub m') ! i))"
proof -
  obtain p where t: "timely m p" using master_timely_inv [OF assms] by blast
  from drain_all [OF t assms(4,1)] show ?thesis by (force simp: timely_def)
qed

theorem replicator_drains_witness:
  "\<exists>m m'. (progresses sample_sender)\<^sup>*\<^sup>* m m' \<and> ms_done m = [[put_record 1 [7] [8, 9]]] \<and> length (pub_sent (ms_pub m')) = 1"
proof -
  obtain m p where m: "master_timely sample_sender sample_mems 1 m" "master_inv m p" "ms_done m = [[put_record 1 [7] [8, 9]]]"
    using sample_run by blast
  show ?thesis using replicator_drains [OF m(1) sample_mems_ok sample_sender_accepts(1)] m(3) by auto
qed

text \<open>
  C29: a database works with one replicator only: after the first one has handled an event, the log of the event is reset, and the second one
  violates its assertion that the log is finalised as soon as it handles the event.
\<close>

theorem second_replicator_fails:
  assumes "OnEvent xs (logs, pub) s b = Some (logs', pub')" "tl_replicators logs' = [p0, p1]" "bp_pc p1 = Handling a" "bp_next_sequence p1 = s" "s \<le> a"
  shows "replicator_step xs 1 (logs', pub'') = None"
proof -
  let ?slot = "rb_slot (tl_ring logs) s"
  obtain e lb where e: "rb_Get (tl_ring logs) s = Some e"
    and logs': "logs' = logs\<lparr>tl_ring := rb_set_event (tl_ring logs) ?slot (e\<lparr>ev_value := s, ev_log := reset lb\<rparr>)\<rparr>"
    using assms(1) by (auto simp: OnEvent_def Let_def split: Option.bind_splits if_splits)
  have slot: "0 \<le> ?slot" "?slot < int (length (rb_events (tl_ring logs)))" using e by (auto simp: rb_Get_def mem_get_def split: if_splits)
  have "rb_slot (tl_ring logs') s = ?slot" by (simp add: logs' rb_slot_def rb_set_event_def)
  then have "rb_Get (tl_ring logs') s = Some (e\<lparr>ev_value := s, ev_log := reset lb\<rparr>)"
    using slot by (simp add: rb_Get_def mem_get_def) (simp add: logs' rb_set_event_def)
  then have "OnEvent xs (logs', pub'') s b' = None" for b' by (simp add: OnEvent_def Let_def reset_def clearLog_def)
  then show ?thesis using assms(2-5) by (simp add: replicator_step_def bp_step_eq Let_def)
qed

theorem second_replicator_fails_witness:
  "\<exists>logs pub logs' pub'. \<exists>p1. OnEvent sample_sender (logs, pub) 0 True = Some (logs', pub') \<and> bp_next_sequence p1 = 0 \<and>
     replicator_step sample_sender 1 (logs'\<lparr>tl_replicators := [p1, p1]\<rparr>, pub') = None"
proof -
  obtain m p where m: "master_inv m p" "ms_done m = [[put_record 1 [7] [8, 9]]]" "bp_next_sequence p = 0" using sample_run by blast
  note i = master_invD [OF m(1)]
  let ?p1 = "batch_processor_new\<lparr>bp_pc := Handling 0\<rparr>" and ?L = "(ms_logs m)\<lparr>tl_replicators := [batch_processor_new\<lparr>bp_pc := Handling 0\<rparr>, batch_processor_new\<lparr>bp_pc := Handling 0\<rparr>]\<rparr>"
  have rdy: "ready 0 (ms_done m ! nat 0) (lg ?L (sl 0))" using i(3,6) m(2,3) by (simp add: slots_ok_def)
  have prev: "pub_prevTransactionId (ms_pub m) = 0" using i(4) m(3) by simp
  have ring: "ring_ok ?L" using i(1) by simp
  obtain L pub where e: "OnEvent sample_sender (?L, ms_pub m) 0 True = Some (L, pub)" "tl_replicators L = tl_replicators ?L"
    using OnEvent_ready [OF ring rdy prev _ sample_sender_accepts(2), of True] by auto
  then have r: "tl_replicators L = [?p1, ?p1]" by simp
  have "replicator_step sample_sender 1 (L, pub) = None"
    by (rule second_replicator_fails [OF e(1) r, of 0]) (simp_all add: batch_processor_new_def)
  moreover have "L\<lparr>tl_replicators := [?p1, ?p1]\<rparr> = L" using r by simp
  moreover have "bp_next_sequence ?p1 = 0" by (simp add: batch_processor_new_def)
  ultimately show ?thesis using e(1) by metis
qed

section \<open>Two databases in a process\<close>

lemma getLogBuffer_set:
  assumes "getLogBuffer logs slot \<noteq> None"
  shows "getLogBuffer (setLogBuffer logs slot lb) slot = Some lb"
  using assms by (auto simp: getLogBuffer_def setLogBuffer_def rb_set_event_def mem_get_def split: if_splits)

text \<open>What \<^verbatim>\<open>begin\<close> does: the event it takes does not depend on the id, which is stored in the log of the event.\<close>

lemma begin_stores_id:
  assumes "tx_begin tx logs n = Some (rc, tx', logs', n')"
  shows "\<exists>slot logs1 lb. n' = n + 1 \<and> slot = rb_slot (tl_ring logs1) (tl_currentSequence logs1) \<and> tx_txEvent tx' = Some slot \<and>
     getLogBuffer logs1 slot = Some lb \<and> logs' = setLogBuffer logs1 slot (lb\<lparr>transactionId := n\<rparr>) \<and>
     (\<forall>m. tx_begin tx logs m = Some (NLDB_OK, tx', setLogBuffer logs1 slot (lb\<lparr>transactionId := m\<rparr>), m + 1))"
proof -
  obtain slot logs1 lb where sel: "(case getCurrentTransactionEvent logs of
        Some txEvent \<Rightarrow> do { lb \<leftarrow> getLogBuffer logs txEvent; if totalLogCount lb \<noteq> 0 then None else Some (txEvent, logs) }
      | None \<Rightarrow> getNextTransactionEvent logs) = Some (slot, logs1)"
    and b: "getLogBuffer logs1 slot = Some lb" "isClear lb" "transactionId lb = 0" "n' = n + 1" "tx_txEvent tx = None"
      "tx' = tx\<lparr>tx_txEvent := Some slot\<rparr>" "logs' = setLogBuffer logs1 slot (lb\<lparr>transactionId := n\<rparr>)"
    using assms unfolding tx_begin_def setTransactionId_def by (clarsimp split: Option.bind_splits if_splits)
  have "slot = rb_slot (tl_ring logs1) (tl_currentSequence logs1)"
    using sel by (auto simp: getCurrentTransactionEvent_def getNextTransactionEvent_def rb_slot_def rb_set_event_def
        split: Option.bind_splits if_splits option.splits)
  moreover have "tx_begin tx logs m = Some (NLDB_OK, tx', setLogBuffer logs1 slot (lb\<lparr>transactionId := m\<rparr>), m + 1)" for m
    unfolding tx_begin_def sel using b by (simp add: setTransactionId_def)
  ultimately show ?thesis using b by auto
qed

lemma setLogBuffer_slot [simp]:
  "rb_slot (tl_ring (setLogBuffer logs slot lb)) s = rb_slot (tl_ring logs) s" "tl_currentSequence (setLogBuffer logs slot lb) = tl_currentSequence logs"
  "hasReplicators (setLogBuffer logs slot lb) = hasReplicators logs"
  by (simp_all add: setLogBuffer_def rb_set_event_def rb_slot_def hasReplicators_def)

text \<open>Nor does it depend on the id whether the transaction can be committed.\<close>

lemma commit_any_id:
  assumes "tx_commit tx (setLogBuffer logs slot (lb\<lparr>transactionId := n\<rparr>)) \<noteq> None" "tx_txEvent tx = Some slot" "getLogBuffer logs slot = Some lb"
    "hasReplicators logs" "0 < m"
  shows "\<exists>tx' logs'. tx_commit tx (setLogBuffer logs slot (lb\<lparr>transactionId := m\<rparr>)) = Some (NLDB_OK, tx', logs')"
proof -
  note get = getLogBuffer_set [of logs slot, unfolded assms(3), simplified]
  have "mem_write (replicationMessageBuffer lb) 0 (message_header_bytes n (totalLogSize lb)) \<noteq> None" "0 \<le> tl_currentSequence logs"
    using assms(1,2,4) get
    by (auto simp: tx_commit_def tx_end_def finalize_def commitCurrentTransactionEvent_def Let_def split: Option.bind_splits if_splits)
  then obtain mem where "mem_write (replicationMessageBuffer lb) 0 (message_header_bytes m (totalLogSize lb)) = Some mem"
    by (auto simp: mem_write_def split: if_splits)
  then show ?thesis
    using assms(2,4,5) get \<open>0 \<le> tl_currentSequence logs\<close>
    by (simp add: tx_commit_def tx_end_def finalize_def commitCurrentTransactionEvent_def Let_def)
qed

lemma commit_keeps_id:
  assumes "tx_commit tx logs = Some (rc, tx', logs')" "tx_txEvent tx = Some slot" "getLogBuffer logs slot = Some lb" "hasReplicators logs"
  shows "\<exists>lb'. getLogBuffer logs' slot = Some lb' \<and> transactionId lb' = transactionId lb \<and> rb_mask (tl_ring logs') = rb_mask (tl_ring logs)"
proof -
  obtain lb' logs2 where c: "finalize lb = Some lb'" "commitCurrentTransactionEvent (setLogBuffer logs slot lb') = Some logs'"
    using assms by (auto simp: tx_commit_def tx_end_def hasReplicators_def setLogBuffer_def split: Option.bind_splits if_splits)
  have "transactionId lb' = transactionId lb" using c(1) by (auto simp: finalize_def split: Option.bind_splits if_splits)
  moreover have "getLogBuffer logs' slot = getLogBuffer (setLogBuffer logs slot lb') slot" "rb_mask (tl_ring logs') = rb_mask (tl_ring logs)"
    using c(2) by (auto simp: commitCurrentTransactionEvent_def getLogBuffer_def setLogBuffer_def rb_set_event_def rb_Publish_def split: if_splits)
  ultimately show ?thesis using getLogBuffer_set [of logs slot lb'] assms(3) by simp
qed

text \<open>
  C30: the transaction ids of all databases of a process come from one counter, and all publishers share the id of the last message: when a transaction that
  began later, in a second database, is published before an earlier one of a first database, the publisher violates its assertion on consecutive ids.
\<close>

theorem databases_share_transaction_ids:
  assumes "tx_begin tx1 logs1 n = Some (NLDB_OK, tx1', logs1', n')" "tx_begin tx2 logs2 n' = Some (NLDB_OK, tx2', logs2', n'')"
    "tx_commit tx2' logs2' = Some (NLDB_OK, tx2'', logs2'')" "hasReplicators logs2'" "pub_prevTransactionId pub = n - 1"
  shows "OnEvent xs (logs2'', pub) (tl_currentSequence logs2') end_of_batch = None"
proof -
  let ?s = "tl_currentSequence logs2'"
  obtain slot L lb0 where b: "slot = rb_slot (tl_ring L) (tl_currentSequence L)" "tx_txEvent tx2' = Some slot" "getLogBuffer L slot = Some lb0"
      "logs2' = setLogBuffer L slot (lb0\<lparr>transactionId := n + 1\<rparr>)"
    using begin_stores_id [OF assms(1)] begin_stores_id [OF assms(2)] by blast
  then obtain lb where lb: "tx_txEvent tx2' = Some (rb_slot (tl_ring logs2') ?s)" "getLogBuffer logs2' (rb_slot (tl_ring logs2') ?s) = Some lb"
      "transactionId lb = n + 1"
    using getLogBuffer_set [of L slot "lb0\<lparr>transactionId := n + 1\<rparr>"] by simp
  obtain lb' where lb': "getLogBuffer logs2'' (rb_slot (tl_ring logs2') ?s) = Some lb'" "transactionId lb' = n + 1"
      "rb_mask (tl_ring logs2'') = rb_mask (tl_ring logs2')"
    using commit_keeps_id [OF assms(3) lb(1,2) assms(4)] lb(3) by auto
  then obtain e where e: "rb_Get (tl_ring logs2'') ?s = Some e" "ev_log e = lb'"
    by (auto simp: getLogBuffer_def rb_Get_def rb_slot_def)
  have "getTransactionId lb' = Some i \<Longrightarrow> i = n + 1" for i using lb'(2) by (auto simp: getTransactionId_def split: if_splits)
  then show ?thesis using e assms(5) by (auto simp: OnEvent_def Let_def split: Option.bind_split)
qed

theorem databases_share_transaction_ids_witness:
  "\<exists>tx logs tx' logs' logs2 tx2 logs3. tx_begin tx logs 1 = Some (NLDB_OK, tx', logs', 2) \<and> tx_begin tx logs 2 = Some (NLDB_OK, tx', logs2, 3) \<and>
     tx_commit tx' logs2 = Some (NLDB_OK, tx2, logs3) \<and>
     OnEvent sample_sender (logs3, \<lparr>pub_prevTransactionId = 0, pub_queue = [], pub_sent = []\<rparr>) (tl_currentSequence logs2) True = None"
proof -
  obtain m p where m: "master_init sample_mems 1 = Some m" "master_inv m p" using master_init_inv [OF sample_mems_ok] by blast
  have v: "tx_txEvent (ms_tx m) = None" "claimed (ms_logs m) = - 1" "ms_nextTxId m = 1" "hasReplicators (ms_logs m)"
      "tl_replicators (ms_logs m) = [batch_processor_new\<lparr>bp_running := True, bp_next_sequence := 0, bp_pc := Waiting\<rparr>]"
    using m(1) by (auto simp: master_init_def addReplicator_def bp_Run_def batch_processor_new_def tx_logs_new_def
        ring_buffer_new_def claim_strategy_new_def tx_init_def tx_impl_new_def hasReplicators_def)
  have "bp_sequence p = - 1" using v(5) proc_okD(1) [OF master_invD(2) [OF m(2)]] by (simp add: batch_processor_new_def)
  then obtain tx' logs' nid where b: "tx_begin (ms_tx m) (ms_logs m) (ms_nextTxId m) = Some (NLDB_OK, tx', logs', nid)"
    using begin_progress [OF m(2) v(1)] v(2) by auto
  obtain slot L lb where L: "tx_txEvent tx' = Some slot" "getLogBuffer L slot = Some lb" "logs' = setLogBuffer L slot (lb\<lparr>transactionId := 1\<rparr>)"
      "\<forall>k. tx_begin (ms_tx m) (ms_logs m) k = Some (NLDB_OK, tx', setLogBuffer L slot (lb\<lparr>transactionId := k\<rparr>), k + 1)"
    using begin_stores_id [OF b] v(3) by auto
  have inv: "master_inv (m\<lparr>ms_tx := tx', ms_logs := logs', ms_nextTxId := nid, ms_open := []\<rparr>) p" by (rule begin_inv [OF m(2) b])
  have c: "tx_commit tx' logs' \<noteq> None" using commit_progress [OF inv, of slot] L(1) by auto
  have r: "hasReplicators L"
    using proc_okD(1) [OF master_invD(2) [OF inv]] L(3) by (simp add: hasReplicators_def setLogBuffer_def)
  obtain tx2 logs3 where c2: "tx_commit tx' (setLogBuffer L slot (lb\<lparr>transactionId := 2\<rparr>)) = Some (NLDB_OK, tx2, logs3)"
    using commit_any_id [OF c [unfolded L(3)] L(1,2) r, of 2] by auto
  have b1: "tx_begin (ms_tx m) (ms_logs m) 1 = Some (NLDB_OK, tx', logs', 2)" using L(3,4) by simp
  have b2: "tx_begin (ms_tx m) (ms_logs m) 2 = Some (NLDB_OK, tx', setLogBuffer L slot (lb\<lparr>transactionId := 2\<rparr>), 3)" using L(4) by simp
  have "OnEvent sample_sender (logs3, \<lparr>pub_prevTransactionId = 0, pub_queue = [], pub_sent = []\<rparr>) (tl_currentSequence (setLogBuffer L slot (lb\<lparr>transactionId := 2\<rparr>))) True = None"
    by (rule databases_share_transaction_ids [OF b1 b2 c2]) (simp_all add: r)
  then show ?thesis using b1 b2 c2 by blast
qed

end
