(* ===== verification/Plugin_Libraries.thy ===== *)
theory Plugin_Libraries
  imports Plugins Key_Format
begin

text \<open>
  The plugins that wrap a library: LevelDB for persistent tables and for the meta table of a database, and Tokyo Cabinet.
  The functions of the libraries are the fields of the records \<open>leveldb\<close> and \<open>tokyo_cabinet\<close>.
\<close>

section \<open>Names and descriptors of persistent tables\<close>

definition show_int :: "int \<Rightarrow> string" where
  "show_int i = (if i < 0 then ''-'' @ show_nat (nat (- i)) else show_nat (nat i))"

definition leveldb_name :: "int \<Rightarrow> int \<Rightarrow> string" where
  "leveldb_name db_id table_id = ''nldb-'' @ show_int db_id @ ''-persistent-table-'' @ show_int table_id"

text \<open>\<^verbatim>\<open>levedb_table_desc_t\<close> is laid over the first eight bytes of the descriptor.\<close>

definition leveldb_set_desc :: "nldb_plugin_table_desc_t \<Rightarrow> int \<Rightarrow> int \<Rightarrow> nldb_plugin_table_desc_t option" where
  "leveldb_set_desc desc db_id table_id =
     do { m \<leftarrow> mem_write (table_desc desc) 0
                (le_bytes 4 (nat (db_id mod 2 ^ 32)) @ le_bytes 4 (nat (table_id mod 2 ^ 32)));
          Some (desc\<lparr>table_desc := m, desc_length := 8\<rparr>) }"

definition leveldb_desc_name :: "nldb_plugin_table_desc_t \<Rightarrow> string option" where
  "leveldb_desc_name desc =
     do { b1 \<leftarrow> mem_read (table_desc desc) 0 4;
          b2 \<leftarrow> mem_read (table_desc desc) 4 4;
          Some (leveldb_name (to_int32 (int (le_value b1))) (to_int32 (int (le_value b2)))) }"

text \<open>A descriptor in fresh memory; the bytes that are not set are never read.\<close>

definition fresh_desc :: nldb_plugin_table_desc_t where
  "fresh_desc = \<lparr>desc_length = 0, table_desc = replicate 256 0\<rparr>"

definition nldb_meta_table_desc :: "int \<Rightarrow> nldb_plugin_table_desc_t option" where
  "nldb_meta_table_desc db_id = leveldb_set_desc fresh_desc db_id 0"

section \<open>LevelDB\<close>

datatype ldb_status = LdbOk | LdbNotFound | LdbError

record 'l leveldb =
  ldb_Open :: "'l \<Rightarrow> bool \<Rightarrow> string \<Rightarrow> ldb_status \<times> ptr \<times> 'l"
  ldb_delete :: "'l \<Rightarrow> ptr \<Rightarrow> 'l"
  ldb_DestroyDB :: "'l \<Rightarrow> string \<Rightarrow> ldb_status \<times> 'l"
  ldb_Put :: "'l \<Rightarrow> ptr \<Rightarrow> byte list \<Rightarrow> byte list \<Rightarrow> ldb_status \<times> 'l"
  ldb_Get :: "'l \<Rightarrow> ptr \<Rightarrow> byte list \<Rightarrow> ldb_status \<times> byte list"
  ldb_Delete :: "'l \<Rightarrow> ptr \<Rightarrow> byte list \<Rightarrow> ldb_status \<times> 'l"
  ldb_NewIterator :: "'l \<Rightarrow> ptr \<Rightarrow> ptr \<times> 'l"
  ldb_Seek :: "'l \<Rightarrow> ptr \<Rightarrow> byte list \<Rightarrow> 'l"
  ldb_iter_status :: "'l \<Rightarrow> ptr \<Rightarrow> ldb_status"
  ldb_Valid :: "'l \<Rightarrow> ptr \<Rightarrow> bool"
  ldb_iter_key :: "'l \<Rightarrow> ptr \<Rightarrow> byte list"
  ldb_iter_value :: "'l \<Rightarrow> ptr \<Rightarrow> byte list"
  ldb_Next :: "'l \<Rightarrow> ptr \<Rightarrow> 'l"
  ldb_Prev :: "'l \<Rightarrow> ptr \<Rightarrow> 'l"
  ldb_delete_iterator :: "'l \<Rightarrow> ptr \<Rightarrow> 'l"

definition nldb_table_exists ::
    "'l leveldb \<Rightarrow> ('l, 't) world \<Rightarrow> nldb_plugin_table_desc_t \<Rightarrow> (nldb_rc_t \<times> bool \<times> ('l, 't) world) option" where
  "nldb_table_exists lib w desc =
     do { name \<leftarrow> leveldb_desc_name desc;
          let (status, db, l) = ldb_Open lib (w_leveldb w) False name;
          if status = LdbOk
          then if db = NULL then None else Some (NLDB_OK, True, w\<lparr>w_leveldb := ldb_delete lib l db\<rparr>)
          else Some (NLDB_OK, False, w\<lparr>w_leveldb := l\<rparr>) }"

definition ld_table_create ::
    "'l leveldb \<Rightarrow> ('l, 't) world \<Rightarrow> int \<Rightarrow> int \<Rightarrow> nldb_plugin_table_desc_t
      \<Rightarrow> (nldb_rc_t \<times> nldb_plugin_table_desc_t \<times> ('l, 't) world) option" where
  "ld_table_create lib w db_id table_id desc =
     (let (status, db, l) = ldb_Open lib (w_leveldb w) True (leveldb_name db_id table_id) in
      if status \<noteq> LdbOk then None
      else if db = NULL then Some (NLDB_ERROR, desc, w\<lparr>w_leveldb := l\<rparr>)
      else do { desc' \<leftarrow> leveldb_set_desc desc db_id table_id;
                Some (NLDB_OK, desc', w\<lparr>w_leveldb := ldb_delete lib l db\<rparr>) })"

definition ld_table_drop ::
    "'l leveldb \<Rightarrow> ('l, 't) world \<Rightarrow> nldb_plugin_table_desc_t \<Rightarrow> (nldb_rc_t \<times> ('l, 't) world) option" where
  "ld_table_drop lib w desc =
     do { name \<leftarrow> leveldb_desc_name desc;
          let (status, l) = ldb_DestroyDB lib (w_leveldb w) name;
          if status \<noteq> LdbOk then None else Some (NLDB_OK, w\<lparr>w_leveldb := l\<rparr>) }"

definition ld_table_open ::
    "'l leveldb \<Rightarrow> ('l, 't) world \<Rightarrow> nldb_plugin_table_desc_t \<Rightarrow> (nldb_rc_t \<times> ptr \<times> ('l, 't) world) option" where
  "ld_table_open lib w desc =
     do { name \<leftarrow> leveldb_desc_name desc;
          let (status, db, l) = ldb_Open lib (w_leveldb w) True name;
          if status \<noteq> LdbOk then None
          else if db = NULL then Some (NLDB_ERROR, NULL, w\<lparr>w_leveldb := l\<rparr>)
          else Some (NLDB_OK, db, w\<lparr>w_leveldb := l\<rparr>) }"

definition ld_table_close :: "'l leveldb \<Rightarrow> ('l, 't) world \<Rightarrow> ptr \<Rightarrow> (nldb_rc_t \<times> ('l, 't) world) option" where
  "ld_table_close lib w db = Some (NLDB_OK, w\<lparr>w_leveldb := ldb_delete lib (w_leveldb w) db\<rparr>)"

definition get_slice_key :: "nldb_key_t \<Rightarrow> byte list option" where
  "get_slice_key key = mem_read (key_data key) 0 (int (unat (key_len key)))"

definition get_slice_value :: "nldb_value_t \<Rightarrow> byte list option" where
  "get_slice_value value = mem_read (value_data value) 0 (int (unat (value_len value)))"

definition copy_key_from_slice :: "byte list \<Rightarrow> nldb_key_t" where
  "copy_key_from_slice bytes = \<lparr>key_data = bytes, key_len = of_nat (length bytes)\<rparr>"

definition copy_value_from_slice :: "byte list \<Rightarrow> nldb_value_t" where
  "copy_value_from_slice bytes = \<lparr>value_data = bytes, value_len = of_nat (length bytes)\<rparr>"

text \<open>\<^verbatim>\<open>table_put\<close> ignores the status of \<^verbatim>\<open>Put\<close>.\<close>

definition ld_table_put ::
    "'l leveldb \<Rightarrow> ('l, 't) world \<Rightarrow> ptr \<Rightarrow> nldb_key_t \<Rightarrow> nldb_value_t \<Rightarrow> (nldb_rc_t \<times> ('l, 't) world) option" where
  "ld_table_put lib w db key value =
     do { k \<leftarrow> get_slice_key key;
          v \<leftarrow> get_slice_value value;
          Some (NLDB_OK, w\<lparr>w_leveldb := snd (ldb_Put lib (w_leveldb w) db k v)\<rparr>) }"

definition ld_table_get ::
    "'l leveldb \<Rightarrow> ('l, 't) world \<Rightarrow> ptr \<Rightarrow> nldb_key_t \<Rightarrow> bool \<Rightarrow> (nldb_rc_t \<times> nldb_value_t option \<times> int option) option" where
  "ld_table_get lib w db key want_order =
     (if want_order then Some (NLDB_ERROR_UNSUPPORTED_FEATURE, None, None)
      else do {
        k \<leftarrow> get_slice_key key;
        let (status, gotValue) = ldb_Get lib (w_leveldb w) db k;
        case status of
          LdbNotFound \<Rightarrow> Some (NLDB_ERROR_KEY_NOT_FOUND, None, None)
        | LdbError \<Rightarrow> None
        | LdbOk \<Rightarrow> Some (NLDB_OK, Some (copy_value_from_slice gotValue), None) })"

definition ld_table_get_by_order ::
    "('l, 't) world \<Rightarrow> ptr \<Rightarrow> int \<Rightarrow> (nldb_rc_t \<times> (nldb_key_t \<times> nldb_value_t) option) option" where
  "ld_table_get_by_order w db order = Some (NLDB_ERROR_UNSUPPORTED_FEATURE, None)"

definition ld_table_del ::
    "'l leveldb \<Rightarrow> ('l, 't) world \<Rightarrow> ptr \<Rightarrow> nldb_key_t \<Rightarrow> (nldb_rc_t \<times> ('l, 't) world) option" where
  "ld_table_del lib w db key =
     do { k \<leftarrow> get_slice_key key;
          if fst (ldb_Get lib (w_leveldb w) db k) = LdbNotFound then Some (NLDB_ERROR_KEY_NOT_FOUND, w)
          else let (status, l) = ldb_Delete lib (w_leveldb w) db k
               in if status \<noteq> LdbOk then None else Some (NLDB_OK, w\<lparr>w_leveldb := l\<rparr>) }"

definition ld_table_stat :: "('l, 't) world \<Rightarrow> ptr \<Rightarrow> (nldb_rc_t \<times> int option) option" where
  "ld_table_stat w db = Some (NLDB_ERROR_UNSUPPORTED_FEATURE, None)"

text \<open>The memory is freed, so that nothing can be read through the pointer any more, and the length is set to 0.\<close>

definition ld_value_free :: "nldb_value_t \<Rightarrow> nldb_rc_t \<times> nldb_value_t" where
  "ld_value_free value = (NLDB_OK, value\<lparr>value_data := [], value_len := 0\<rparr>)"

definition ld_key_free :: "nldb_key_t \<Rightarrow> nldb_rc_t \<times> nldb_key_t" where
  "ld_key_free key = (NLDB_OK, key\<lparr>key_data := [], key_len := 0\<rparr>)"

text \<open>The constructor of the cursor leaves its direction uninitialised: \<open>garbage_dir\<close>.\<close>

definition ld_cursor_open ::
    "'l leveldb \<Rightarrow> nldb_cursor_direction_t \<Rightarrow> ('l, 't) world \<Rightarrow> ptr \<Rightarrow> (nldb_rc_t \<times> ptr \<times> ('l, 't) world) option" where
  "ld_cursor_open lib garbage_dir w db =
     (let (it, l) = ldb_NewIterator lib (w_leveldb w) db; c = w_next w
      in Some (NLDB_OK, c, w\<lparr>w_leveldb := l, w_leveldb_cursors := (w_leveldb_cursors w)(c \<mapsto> (it, garbage_dir)),
                             w_next := c + 1\<rparr>))"

definition ld_cursor_seek ::
    "'l leveldb \<Rightarrow> ('l, 't) world \<Rightarrow> ptr \<Rightarrow> nldb_cursor_direction_t \<Rightarrow> nldb_key_t \<Rightarrow> (nldb_rc_t \<times> ('l, 't) world) option" where
  "ld_cursor_seek lib w c direction key =
     do { (it, _) \<leftarrow> w_leveldb_cursors w c;
          k \<leftarrow> get_slice_key key;
          let l = ldb_Seek lib (w_leveldb w) it k;
          let w' = w\<lparr>w_leveldb := l, w_leveldb_cursors := (w_leveldb_cursors w)(c \<mapsto> (it, direction))\<rparr>;
          Some (if ldb_iter_status lib l it \<noteq> LdbOk then NLDB_ERROR else NLDB_OK, w') }"

definition ld_cursor_seek_order ::
    "('l, 't) world \<Rightarrow> ptr \<Rightarrow> nldb_cursor_direction_t \<Rightarrow> int \<Rightarrow> (nldb_rc_t \<times> ('l, 't) world) option" where
  "ld_cursor_seek_order w c direction order = Some (NLDB_ERROR_UNSUPPORTED_FEATURE, w)"

definition ld_cursor_fetch ::
    "'l leveldb \<Rightarrow> ('l, 't) world \<Rightarrow> ptr \<Rightarrow> bool \<Rightarrow> bool
      \<Rightarrow> (nldb_rc_t \<times> (nldb_key_t \<times> nldb_value_t option \<times> int option) option \<times> ('l, 't) world) option" where
  "ld_cursor_fetch lib w c want_value want_order =
     do { (it, dir) \<leftarrow> w_leveldb_cursors w c;
          let l = w_leveldb w;
          if want_order then Some (NLDB_ERROR_UNSUPPORTED_FEATURE, None, w)
          else if ldb_iter_status lib l it \<noteq> LdbOk then Some (NLDB_ERROR, None, w)
          else if \<not> ldb_Valid lib l it then Some (NLDB_ERROR_END_OF_ITERATION, None, w)
          else do {
            let item = (copy_key_from_slice (ldb_iter_key lib l it),
                        if want_value then Some (copy_value_from_slice (ldb_iter_value lib l it)) else None, None);
            l' \<leftarrow> (if dir = NLDB_CURSOR_FORWARD then Some (ldb_Next lib l it)
                   else if dir = NLDB_CURSOR_BACKWARD then Some (ldb_Prev lib l it) else None);
            Some (if ldb_iter_status lib l' it \<noteq> LdbOk then NLDB_ERROR else NLDB_OK, Some item, w\<lparr>w_leveldb := l'\<rparr>) } }"

definition ld_cursor_close ::
    "'l leveldb \<Rightarrow> ('l, 't) world \<Rightarrow> ptr \<Rightarrow> ptr \<Rightarrow> (nldb_rc_t \<times> ('l, 't) world) option" where
  "ld_cursor_close lib w db c =
     do { (it, _) \<leftarrow> w_leveldb_cursors w c;
          Some (NLDB_OK, w\<lparr>w_leveldb := ldb_delete_iterator lib (w_leveldb w) it,
                           w_leveldb_cursors := (w_leveldb_cursors w)(c := None)\<rparr>) }"

definition plugin_leveldb :: "'l leveldb \<Rightarrow> nldb_cursor_direction_t \<Rightarrow> ('l, 't) world nldb_plugin_t" where
  "plugin_leveldb lib garbage_dir =
     \<lparr>pl_table_create = ld_table_create lib, pl_table_drop = ld_table_drop lib, pl_table_open = ld_table_open lib,
      pl_table_close = ld_table_close lib, pl_table_put = ld_table_put lib, pl_table_get = ld_table_get lib,
      pl_table_get_by_order = ld_table_get_by_order, pl_table_del = ld_table_del lib, pl_table_stat = ld_table_stat,
      pl_value_free = ld_value_free, pl_key_free = ld_key_free, pl_cursor_open = ld_cursor_open lib garbage_dir,
      pl_cursor_seek = ld_cursor_seek lib, pl_cursor_seek_order = ld_cursor_seek_order, pl_cursor_fetch = ld_cursor_fetch lib,
      pl_cursor_close = ld_cursor_close lib\<rparr>"

section \<open>Tokyo Cabinet\<close>

text \<open>\<^verbatim>\<open>tcndbget\<close> gives the address of a copy of the value, null when the key is absent.\<close>

record 't tokyo_cabinet =
  tcndbnew :: "'t \<Rightarrow> ptr \<times> 't"
  tcndbdel :: "'t \<Rightarrow> ptr \<Rightarrow> 't"
  tcndbput :: "'t \<Rightarrow> ptr \<Rightarrow> byte list \<Rightarrow> byte list \<Rightarrow> 't"
  tcndbget :: "'t \<Rightarrow> ptr \<Rightarrow> byte list \<Rightarrow> byte list option"
  tcndbout :: "'t \<Rightarrow> ptr \<Rightarrow> byte list \<Rightarrow> bool \<times> 't"

definition tc_table_create ::
    "('l, 't) world \<Rightarrow> int \<Rightarrow> int \<Rightarrow> nldb_plugin_table_desc_t \<Rightarrow> (nldb_rc_t \<times> nldb_plugin_table_desc_t \<times> ('l, 't) world) option" where
  "tc_table_create w db_id table_id desc = Some (NLDB_OK, desc\<lparr>desc_length := 0\<rparr>, w)"

definition tc_table_drop :: "('l, 't) world \<Rightarrow> nldb_plugin_table_desc_t \<Rightarrow> (nldb_rc_t \<times> ('l, 't) world) option" where
  "tc_table_drop w desc = Some (NLDB_OK, w)"

definition tc_table_open ::
    "'t tokyo_cabinet \<Rightarrow> ('l, 't) world \<Rightarrow> nldb_plugin_table_desc_t \<Rightarrow> (nldb_rc_t \<times> ptr \<times> ('l, 't) world) option" where
  "tc_table_open lib w desc = (let (ndb, t) = tcndbnew lib (w_tc w) in Some (NLDB_OK, ndb, w\<lparr>w_tc := t\<rparr>))"

definition tc_table_close :: "'t tokyo_cabinet \<Rightarrow> ('l, 't) world \<Rightarrow> ptr \<Rightarrow> (nldb_rc_t \<times> ('l, 't) world) option" where
  "tc_table_close lib w ndb = Some (NLDB_OK, w\<lparr>w_tc := tcndbdel lib (w_tc w) ndb\<rparr>)"

definition tc_table_put ::
    "'t tokyo_cabinet \<Rightarrow> ('l, 't) world \<Rightarrow> ptr \<Rightarrow> nldb_key_t \<Rightarrow> nldb_value_t \<Rightarrow> (nldb_rc_t \<times> ('l, 't) world) option" where
  "tc_table_put lib w ndb key value =
     do { k \<leftarrow> mem_read (key_data key) 0 (int (unat (key_len key)));
          v \<leftarrow> mem_read (value_data value) 0 (int (unat (value_len value)));
          Some (NLDB_OK, w\<lparr>w_tc := tcndbput lib (w_tc w) ndb k v\<rparr>) }"

definition tc_table_get ::
    "'t tokyo_cabinet \<Rightarrow> ('l, 't) world \<Rightarrow> ptr \<Rightarrow> nldb_key_t \<Rightarrow> bool \<Rightarrow> (nldb_rc_t \<times> nldb_value_t option \<times> int option) option" where
  "tc_table_get lib w ndb key want_order =
     (if want_order then Some (NLDB_ERROR_UNSUPPORTED_FEATURE, None, None)
      else do {
        k \<leftarrow> mem_read (key_data key) 0 (int (unat (key_len key)));
        case tcndbget lib (w_tc w) ndb k of
          None \<Rightarrow> Some (NLDB_ERROR_KEY_NOT_FOUND, None, None)
        | Some v \<Rightarrow> Some (NLDB_OK, Some \<lparr>value_data = v, value_len = of_nat (length v)\<rparr>, None) })"

definition tc_table_get_by_order ::
    "('l, 't) world \<Rightarrow> ptr \<Rightarrow> int \<Rightarrow> (nldb_rc_t \<times> (nldb_key_t \<times> nldb_value_t) option) option" where
  "tc_table_get_by_order w ndb order = Some (NLDB_ERROR_UNSUPPORTED_FEATURE, None)"

definition tc_table_del ::
    "'t tokyo_cabinet \<Rightarrow> ('l, 't) world \<Rightarrow> ptr \<Rightarrow> nldb_key_t \<Rightarrow> (nldb_rc_t \<times> ('l, 't) world) option" where
  "tc_table_del lib w ndb key =
     do { k \<leftarrow> mem_read (key_data key) 0 (int (unat (key_len key)));
          let (deleted, t) = tcndbout lib (w_tc w) ndb k;
          Some (if \<not> deleted then NLDB_ERROR_KEY_NOT_FOUND else NLDB_OK, w\<lparr>w_tc := t\<rparr>) }"

definition tc_value_free :: "nldb_value_t \<Rightarrow> nldb_rc_t \<times> nldb_value_t" where
  "tc_value_free value = (NLDB_OK, value\<lparr>value_data := [], value_len := 0\<rparr>)"

definition plugin_tc :: "'t tokyo_cabinet \<Rightarrow> ('l, 't) world nldb_plugin_t" where
  "plugin_tc lib =
     \<lparr>pl_table_create = tc_table_create, pl_table_drop = tc_table_drop, pl_table_open = tc_table_open lib,
      pl_table_close = tc_table_close lib, pl_table_put = tc_table_put lib, pl_table_get = tc_table_get lib,
      pl_table_get_by_order = tc_table_get_by_order, pl_table_del = tc_table_del lib,
      pl_table_stat = (\<lambda>w ndb. Some (NLDB_ERROR_UNSUPPORTED_FEATURE, None)),
      pl_value_free = tc_value_free, pl_key_free = (\<lambda>key. (NLDB_ERROR_UNSUPPORTED_FEATURE, key)),
      pl_cursor_open = (\<lambda>w ndb. Some (NLDB_ERROR_UNSUPPORTED_FEATURE, NULL, w)),
      pl_cursor_seek = (\<lambda>w c direction key. Some (NLDB_ERROR_UNSUPPORTED_FEATURE, w)),
      pl_cursor_seek_order = (\<lambda>w c direction order. Some (NLDB_ERROR_UNSUPPORTED_FEATURE, w)),
      pl_cursor_fetch = (\<lambda>w c want_value want_order. Some (NLDB_ERROR_UNSUPPORTED_FEATURE, None, w)),
      pl_cursor_close = (\<lambda>w ndb c. Some (NLDB_ERROR_UNSUPPORTED_FEATURE, w))\<rparr>"

end
