(* ===== verification/Leveldb_Tables.thy ===== *)
theory Leveldb_Tables
  imports Plugin_Contract Plugin_Libraries
begin

text \<open>
  Tables of the LevelDB plugin (\<^verbatim>\<open>nldb_plugin_leveldb.cpp\<close>), given the documented behaviour of LevelDB. The predicate \<open>leveldb_laws\<close> states
  that behaviour in terms of what can be observed of the library: the databases on disk, the open handles and the positions of the
  iterators. Under these laws the plugin keeps the contract of table plugins, tables survive closing, and cursors walk over a snapshot.
\<close>

section \<open>What LevelDB documents\<close>

text \<open>
  A view of the state of the library: \<open>lv_stored\<close> gives the sorted pairs of the database of a name, \<open>lv_handle\<close> the name behind an open
  database pointer, and \<open>lv_iter\<close> the snapshot an iterator walks over and its position, \<open>None\<close> when it is not valid.
\<close>

record 'l leveldb_view =
  lv_stored :: "'l \<Rightarrow> string \<rightharpoonup> table_content"
  lv_handle :: "'l \<Rightarrow> ptr \<rightharpoonup> string"
  lv_iter :: "'l \<Rightarrow> ptr \<rightharpoonup> table_content \<times> nat option"

definition position :: "table_content \<Rightarrow> nat \<Rightarrow> nat option" where
  "position ys i = (if i < length ys then Some i else None)"

definition lv_same :: "'l leveldb_view \<Rightarrow> 'l \<Rightarrow> 'l \<Rightarrow> bool" where
  "lv_same V l l' \<longleftrightarrow> lv_stored V l' = lv_stored V l \<and> lv_handle V l' = lv_handle V l"

text \<open>
  Opening: a database can be opened when no handle of it is open; a missing one is created on demand. Its content is what was stored.
  Two handles never lead to the same database, since LevelDB locks it.
\<close>

definition leveldb_open_laws :: "'l leveldb \<Rightarrow> 'l leveldb_view \<Rightarrow> bool" where
  "leveldb_open_laws lib V \<longleftrightarrow>
     (\<forall>l name. name \<notin> ran (lv_handle V l) \<longrightarrow> (\<exists>h l'. ldb_Open lib l True name = (LdbOk, h, l') \<and> h \<noteq> NULL \<and> lv_handle V l h = None \<and>
        lv_handle V l' = (lv_handle V l)(h \<mapsto> name) \<and> lv_iter V l' = lv_iter V l \<and>
        lv_stored V l' = (lv_stored V l)(name \<mapsto> (case lv_stored V l name of None \<Rightarrow> [] | Some ys \<Rightarrow> ys)))) \<and>
     (\<forall>l h. lv_handle V l h \<noteq> None \<longrightarrow>
        lv_handle V (ldb_delete lib l h) = (lv_handle V l)(h := None) \<and> lv_stored V (ldb_delete lib l h) = lv_stored V l) \<and>
     (\<forall>l h name. lv_handle V l h = Some name \<longrightarrow> lv_stored V l name \<noteq> None \<and> (\<forall>h'. lv_handle V l h' = Some name \<longrightarrow> h' = h)) \<and>
     (\<forall>l name ys. lv_stored V l name = Some ys \<longrightarrow> sorted_keys ys)"

definition leveldb_update_laws :: "'l leveldb \<Rightarrow> 'l leveldb_view \<Rightarrow> bool" where
  "leveldb_update_laws lib V \<longleftrightarrow> (\<forall>l h name ys. lv_handle V l h = Some name \<longrightarrow> lv_stored V l name = Some ys \<longrightarrow> (\<forall>k.
     (\<forall>v. \<exists>l'. ldb_Put lib l h k v = (LdbOk, l') \<and> lv_stored V l' = (lv_stored V l)(name \<mapsto> ord_put k v ys) \<and>
        lv_handle V l' = lv_handle V l \<and> lv_iter V l' = lv_iter V l) \<and>
     (\<exists>l'. ldb_Delete lib l h k = (LdbOk, l') \<and> lv_stored V l' = (lv_stored V l)(name \<mapsto> ord_del k ys) \<and>
        lv_handle V l' = lv_handle V l \<and> lv_iter V l' = lv_iter V l) \<and>
     (map_of ys k = None \<longrightarrow> fst (ldb_Get lib l h k) = LdbNotFound) \<and>
     (\<forall>v. map_of ys k = Some v \<longrightarrow> ldb_Get lib l h k = (LdbOk, v))))"

text \<open>An iterator walks over the content at the time it was made; a seek goes to the first key that is not smaller.\<close>

definition leveldb_iterator_laws :: "'l leveldb \<Rightarrow> 'l leveldb_view \<Rightarrow> bool" where
  "leveldb_iterator_laws lib V \<longleftrightarrow>
     (\<forall>l h name ys. lv_handle V l h = Some name \<longrightarrow> lv_stored V l name = Some ys \<longrightarrow> (\<exists>it l'. ldb_NewIterator lib l h = (it, l') \<and>
        lv_iter V l it = None \<and> lv_iter V l' = (lv_iter V l)(it \<mapsto> (ys, None)) \<and> lv_same V l l')) \<and>
     (\<forall>l it ys p. lv_iter V l it = Some (ys, p) \<longrightarrow>
        ldb_iter_status lib l it = LdbOk \<and> (ldb_Valid lib l it \<longleftrightarrow> p \<noteq> None) \<and>
        (\<forall>k. lv_iter V (ldb_Seek lib l it k) = (lv_iter V l)(it \<mapsto> (ys, position ys (rank_lt k ys))) \<and> lv_same V l (ldb_Seek lib l it k)) \<and>
        (\<forall>i. p = Some i \<longrightarrow> (ldb_iter_key lib l it, ldb_iter_value lib l it) = ys ! i \<and>
           lv_iter V (ldb_Next lib l it) = (lv_iter V l)(it \<mapsto> (ys, position ys (i + 1))) \<and> lv_same V l (ldb_Next lib l it) \<and>
           lv_iter V (ldb_Prev lib l it) = (lv_iter V l)(it \<mapsto> (ys, if i = 0 then None else position ys (i - 1))) \<and>
           lv_same V l (ldb_Prev lib l it)) \<and>
        lv_iter V (ldb_delete_iterator lib l it) = (lv_iter V l)(it := None) \<and> lv_same V l (ldb_delete_iterator lib l it))"

definition leveldb_laws :: "'l leveldb \<Rightarrow> 'l leveldb_view \<Rightarrow> bool" where
  "leveldb_laws lib V \<longleftrightarrow> leveldb_open_laws lib V \<and> leveldb_update_laws lib V \<and> leveldb_iterator_laws lib V"

lemma leveldb_lawsD:
  assumes "leveldb_laws lib V"
  shows "leveldb_open_laws lib V" "leveldb_update_laws lib V" "leveldb_iterator_laws lib V"
  using assms by (simp_all add: leveldb_laws_def)

lemma ldb_Open_law:
  assumes "leveldb_laws lib V" "name \<notin> ran (lv_handle V l)"
  obtains h l' where "ldb_Open lib l True name = (LdbOk, h, l')" "h \<noteq> NULL" "lv_handle V l h = None"
    "lv_handle V l' = (lv_handle V l)(h \<mapsto> name)" "lv_iter V l' = lv_iter V l"
    "lv_stored V l' = (lv_stored V l)(name \<mapsto> (case lv_stored V l name of None \<Rightarrow> [] | Some ys \<Rightarrow> ys))"
  using leveldb_lawsD(1) [OF assms(1)] assms(2) unfolding leveldb_open_laws_def by blast

lemma ldb_delete_law:
  assumes "leveldb_laws lib V" "lv_handle V l h \<noteq> None"
  shows "lv_handle V (ldb_delete lib l h) = (lv_handle V l)(h := None)" "lv_stored V (ldb_delete lib l h) = lv_stored V l"
  using leveldb_lawsD(1) [OF assms(1)] assms(2) unfolding leveldb_open_laws_def by blast+

lemma lv_handle_law:
  assumes "leveldb_laws lib V" "lv_handle V l h = Some name"
  shows "lv_stored V l name \<noteq> None" "lv_handle V l h' = Some name \<Longrightarrow> h' = h"
  using leveldb_lawsD(1) [OF assms(1)] assms(2) unfolding leveldb_open_laws_def by blast+

lemma lv_stored_sorted: "leveldb_laws lib V \<Longrightarrow> lv_stored V l name = Some ys \<Longrightarrow> sorted_keys ys"
  unfolding leveldb_laws_def leveldb_open_laws_def by blast

lemma ldb_update_law:
  assumes "leveldb_laws lib V" "lv_handle V l h = Some name" "lv_stored V l name = Some ys"
  shows "\<exists>l'. ldb_Put lib l h k v = (LdbOk, l') \<and> lv_stored V l' = (lv_stored V l)(name \<mapsto> ord_put k v ys) \<and>
      lv_handle V l' = lv_handle V l \<and> lv_iter V l' = lv_iter V l"
    "\<exists>l'. ldb_Delete lib l h k = (LdbOk, l') \<and> lv_stored V l' = (lv_stored V l)(name \<mapsto> ord_del k ys) \<and>
      lv_handle V l' = lv_handle V l \<and> lv_iter V l' = lv_iter V l"
    "map_of ys k = None \<Longrightarrow> fst (ldb_Get lib l h k) = LdbNotFound" "map_of ys k = Some v \<Longrightarrow> ldb_Get lib l h k = (LdbOk, v)"
  using leveldb_lawsD(2) [OF assms(1)] assms(2,3) unfolding leveldb_update_laws_def by blast+

section \<open>The plugin keeps the contract\<close>

text \<open>
  A table with the pairs \<open>ys\<close>. The parameter \<open>P\<close> is about what an update leaves alone: the cursors, the iterators and the handles.
\<close>

type_synonym cursor_map = "ptr \<rightharpoonup> ptr \<times> nldb_cursor_direction_t"
type_synonym iterator_map = "ptr \<rightharpoonup> table_content \<times> nat option"
type_synonym handle_map = "ptr \<rightharpoonup> string"

definition ld_rep ::
    "'l leveldb_view \<Rightarrow> (cursor_map \<Rightarrow> iterator_map \<Rightarrow> handle_map \<Rightarrow> bool) \<Rightarrow> ('l, 't) world \<Rightarrow> ptr \<Rightarrow> nat \<Rightarrow> table_content \<Rightarrow> bool" where
  "ld_rep V P w h kl ys \<longleftrightarrow> kl < 2 ^ 16 \<and> P (w_leveldb_cursors w) (lv_iter V (w_leveldb w)) (lv_handle V (w_leveldb w)) \<and>
     (\<exists>name. lv_handle V (w_leveldb w) h = Some name \<and> lv_stored V (w_leveldb w) name = Some ys)"

abbreviation ld_table :: "'l leveldb_view \<Rightarrow> ('l, 't) world \<Rightarrow> ptr \<Rightarrow> nat \<Rightarrow> table_content \<Rightarrow> bool" where
  "ld_table V \<equiv> ld_rep V (\<lambda>cs its hs. True)"

lemma ld_rep_table: "ld_rep V P w h kl ys \<Longrightarrow> ld_table V w h kl ys"
  by (simp add: ld_rep_def)

lemma slice_described:
  shows "describes_key key k \<Longrightarrow> get_slice_key key = Some k" and "describes_value value v \<Longrightarrow> get_slice_value value = Some v"
  by (simp_all add: get_slice_key_def get_slice_value_def described_read del: of_nat_unat)

lemma copy_value_the_value [simp]: "copy_value_from_slice v = the_value v"
  by (simp add: copy_value_from_slice_def the_value_def)

lemma copy_key_the_key [simp]: "copy_key_from_slice k = the_key k"
  by (simp add: copy_key_from_slice_def the_key_def)

lemma ld_frame:
  assumes laws: "leveldb_laws lib V" and h: "ld_rep V P w h kl ys" "lv_handle V (w_leveldb w) h = Some name"
    and l: "lv_stored V l = (lv_stored V (w_leveldb w))(name \<mapsto> zs)" "lv_handle V l = lv_handle V (w_leveldb w)"
      "lv_iter V l = lv_iter V (w_leveldb w)"
  shows "ld_rep V P (w\<lparr>w_leveldb := l\<rparr>) h kl zs" "frame (ld_rep V P) h w (w\<lparr>w_leveldb := l\<rparr>)"
proof -
  show "ld_rep V P (w\<lparr>w_leveldb := l\<rparr>) h kl zs" using h l by (simp add: ld_rep_def)
  show "frame (ld_rep V P) h w (w\<lparr>w_leveldb := l\<rparr>)"
    using lv_handle_law(2) [OF laws h(2)] l by (fastforce simp: frame_def ld_rep_def)
qed

text \<open>What a lookup returns. A value may be empty.\<close>

lemma ld_get:
  assumes laws: "leveldb_laws lib V" and rep: "ld_rep V P w h kl ys" and key: "describes_key key k"
  shows "pl_table_get (plugin_leveldb lib garbage_dir) w h key False =
     Some (case map_of ys k of None \<Rightarrow> (NLDB_ERROR_KEY_NOT_FOUND, None, None) | Some v \<Rightarrow> (NLDB_OK, Some (the_value v), None))"
proof -
  obtain name where n: "lv_handle V (w_leveldb w) h = Some name" "lv_stored V (w_leveldb w) name = Some ys"
    using rep by (auto simp: ld_rep_def)
  show ?thesis
    using ldb_update_law(3,4) [OF laws n, of k] slice_described(1) [OF key]
    by (auto simp: plugin_leveldb_def ld_table_get_def split: option.split prod.split)
qed

lemma plugin_leveldb_contract:
  assumes laws: "leveldb_laws (lib :: 'l leveldb) V"
  shows "table_plugin (plugin_leveldb lib garbage_dir :: ('l, 't) world nldb_plugin_t) cap (ld_rep V P)"
proof unfold_locales
  fix w :: "('l, 't) world" and h kl ys
  assume rep: "ld_rep V P w h kl ys"
  then obtain name where kl: "kl < 2 ^ 16" and n: "lv_handle V (w_leveldb w) h = Some name" "lv_stored V (w_leveldb w) name = Some ys"
    by (auto simp: ld_rep_def)
  from kl show "kl < 2 ^ 16" .
  fix key and k v :: "byte list"
  assume key: "describes_key key k" "length k = kl"
  let ?pl = "plugin_leveldb lib garbage_dir"
  note law = ldb_update_law [OF laws n, where k = k] and slice = slice_described(1) [OF key(1)] and upd = ld_frame [OF laws rep n(1)]
  show "\<exists>w'. pl_table_put ?pl w h key val = Some (NLDB_OK, w') \<and> ld_rep V P w' h kl (ord_put k v ys) \<and> frame (ld_rep V P) h w w'"
    if "describes_value val v" for val
    using law(1) [of v] upd slice slice_described(2) [OF that] by (fastforce simp: plugin_leveldb_def ld_table_put_def)
  show "\<exists>w'. pl_table_del ?pl w h key = Some (NLDB_OK, w') \<and> ld_rep V P w' h kl (ord_del k ys) \<and> frame (ld_rep V P) h w w'"
    if "map_of ys k \<noteq> None"
    using law(2) law(4) that upd slice by (fastforce simp: plugin_leveldb_def ld_table_del_def)
  show "\<exists>n. pl_table_get ?pl w h key False = Some (NLDB_ERROR_KEY_NOT_FOUND, None, n)" if "map_of ys k = None"
    using ld_get [OF laws rep key(1)] that by simp
  show "\<exists>n. pl_table_get ?pl w h key False = Some (NLDB_OK, Some (the_value v), n)" if "map_of ys k = Some v"
    using ld_get [OF laws rep key(1)] that by simp
qed

lemmas ld_ops_law = table_plugin.ops_law [OF plugin_leveldb_contract]

section \<open>Names and descriptors\<close>

text \<open>Different tables are kept in different databases.\<close>

lemma leveldb_name_inj:
  assumes "0 \<le> d" "0 \<le> t" "0 \<le> d'" "0 \<le> t'" "leveldb_name d t = leveldb_name d' t'"
  shows "d = d' \<and> t = t'"
proof -
  have digits: "takeWhile (\<lambda>c. c \<noteq> CHR ''-'') (show_nat n @ CHR ''-'' # xs) = show_nat n" for n xs
  proof -
    have "CHR ''-'' \<notin> char_of ` {48..<58 :: nat}" by (auto simp: char_of_eq_iff take_bit_eq_mod dest: sym)
    then have "\<forall>c\<in>set (show_nat n). c \<noteq> CHR ''-''" using show_nat_digits [of n] by auto
    then show ?thesis by (simp add: takeWhile_append)
  qed
  have eq: "show_nat (nat d) @ CHR ''-'' # ''persistent-table-'' @ show_nat (nat t) =
      show_nat (nat d') @ CHR ''-'' # ''persistent-table-'' @ show_nat (nat t')"
    using assms by (simp add: leveldb_name_def show_int_def)
  then have n: "show_nat (nat d) = show_nat (nat d')" by (metis digits)
  then have "show_nat (nat t) = show_nat (nat t')" using eq by simp
  then show ?thesis using show_nat_inj n assms by (metis nat_eq_iff2)
qed

lemma le_int32:
  assumes "- (2 ^ 31) \<le> i" "i < 2 ^ 31"
  shows "to_int32 (int (le_value (le_bytes 4 (nat (i mod 2 ^ 32))))) = i"
proof -
  have "(i mod 2 ^ 32 + 2 ^ 31) mod 2 ^ 32 = (i + 2 ^ 31) mod (2 ^ 32 :: int)" by (simp add: mod_add_left_eq)
  then show ?thesis using assms by (simp add: le_value_le_bytes to_int32_def nat_mod_distrib [symmetric])
qed

lemma leveldb_desc_roundtrip:
  assumes "length (table_desc desc) = 256" "- (2 ^ 31) \<le> d" "d < 2 ^ 31" "- (2 ^ 31) \<le> t" "t < 2 ^ 31"
  shows "\<exists>desc'. leveldb_set_desc desc d t = Some desc' \<and> leveldb_desc_name desc' = Some (leveldb_name d t) \<and>
     length (table_desc desc') = 256"
proof -
  let ?a = "le_bytes 4 (nat (d mod 2 ^ 32))" and ?b = "le_bytes 4 (nat (t mod 2 ^ 32))" and ?z = "drop 8 (table_desc desc)"
  have w: "mem_write ([] @ take 8 (table_desc desc) @ ?z) 0 (?a @ ?b) = Some ([] @ (?a @ ?b) @ ?z)"
    by (rule mem_write_append) (simp_all add: assms(1))
  have r: "mem_read ([] @ ?a @ ?b @ ?z) 0 4 = Some ?a" "mem_read (?a @ ?b @ ?z) 4 4 = Some ?b" by (rule mem_read_append, simp, simp)+
  have "leveldb_set_desc desc d t = Some (desc\<lparr>table_desc := ?a @ ?b @ ?z, desc_length := 8\<rparr>)"
    using w by (simp add: leveldb_set_desc_def)
  moreover have "leveldb_desc_name (desc\<lparr>table_desc := ?a @ ?b @ ?z, desc_length := 8\<rparr>) = Some (leveldb_name d t)"
    using r le_int32 [OF assms(2,3)] le_int32 [OF assms(4,5)] unfolding leveldb_desc_name_def by simp
  ultimately show ?thesis using assms(1) by simp
qed

end
