(* ===== verification/Nldb.thy ===== *)
theory Nldb
  imports Plugin_Libraries Transactions
begin

text \<open>
  Model of the database layer \<^verbatim>\<open>nldb.cpp\<close>: the plugin registry, databases with their meta table, tables, cursors and the
  functions of the public interface \<^verbatim>\<open>nldb.h\<close>. Transactions are in the theory \<open>Transactions\<close>.

  The objects behind the handles \<^verbatim>\<open>nldb_db_t\<close>, \<^verbatim>\<open>nldb_table_t\<close>, \<^verbatim>\<open>nldb_tx_t\<close> and \<^verbatim>\<open>nldb_cursor_t\<close> are passed and returned as records; the
  memory that they share is the \<open>world\<close> of the plugins. The ring buffer of transaction logs, which a transaction reaches through its
  pointer to the database, is passed along with the transaction. \<open>lib\<close> is the LevelDB library, which holds the meta tables.
\<close>

section \<open>Plugin management\<close>

abbreviation (input) NLDB_PLUGIN_MAX_COUNT :: nat where "NLDB_PLUGIN_MAX_COUNT \<equiv> 16"

record 'w plugin_registry =
  plugins :: "'w nldb_plugin_t option list"
  next_plugin_id :: nat

definition plugin_registry_new :: "'w plugin_registry" where
  "plugin_registry_new = \<lparr>plugins = replicate NLDB_PLUGIN_MAX_COUNT None, next_plugin_id = 0\<rparr>"

definition nldb_plugin_add :: "'w plugin_registry \<Rightarrow> 'w nldb_plugin_t \<Rightarrow> nldb_rc_t \<times> nat option \<times> 'w plugin_registry" where
  "nldb_plugin_add reg plugin =
     (if next_plugin_id reg \<ge> NLDB_PLUGIN_MAX_COUNT then (NLDB_ERROR_PLUGIN_NO_MORE_SLOT, None, reg)
      else (NLDB_OK, Some (next_plugin_id reg),
            reg\<lparr>plugins := (plugins reg)[next_plugin_id reg := Some plugin], next_plugin_id := next_plugin_id reg + 1\<rparr>))"

text \<open>\<^verbatim>\<open>nldb_plugin\<close>: \<^term>\<open>None\<close> for a failing assertion and for a call through the null pointer that an unused slot holds.\<close>

definition nldb_plugin :: "'w plugin_registry \<Rightarrow> nat \<Rightarrow> 'w nldb_plugin_t option" where
  "nldb_plugin reg i = (if \<not> i < NLDB_PLUGIN_MAX_COUNT then None else plugins reg ! i)"

text \<open>The ids of the default plugins: persistent, volatile, Tokyo Cabinet.\<close>

definition nldb_init ::
    "'l leveldb \<Rightarrow> 't tokyo_cabinet \<Rightarrow> cursor_context \<Rightarrow> ('l, 't) world plugin_registry
      \<Rightarrow> nldb_rc_t \<times> (nat option \<times> nat option \<times> nat option) \<times> ('l, 't) world plugin_registry" where
  "nldb_init lib tclib garbage reg =
     (let (rc, persistent, reg1) = nldb_plugin_add reg (plugin_leveldb lib (cur_dir garbage)) in
      if rc \<noteq> NLDB_OK then (rc, (persistent, None, None), reg1) else
      let (rc, volatile, reg2) = nldb_plugin_add reg1 (plugin_array_tree garbage) in
      if rc \<noteq> NLDB_OK then (rc, (persistent, volatile, None), reg2) else
      let (rc, tc, reg3) = nldb_plugin_add reg2 (plugin_tc tclib) in
      (rc, (persistent, volatile, tc), reg3))"

definition nldb_destroy :: "'w plugin_registry \<Rightarrow> nldb_rc_t \<times> 'w plugin_registry" where
  "nldb_destroy reg = (NLDB_OK, reg\<lparr>next_plugin_id := 0\<rparr>)"

section \<open>Databases and their meta table\<close>

abbreviation (input) NLDB_MAX_DB_COUNT :: int where "NLDB_MAX_DB_COUNT \<equiv> 1024"
abbreviation (input) META_TABLE_ID :: int where "META_TABLE_ID \<equiv> 0"
abbreviation (input) DB_IMPL_OBJECT_MAGIC :: int where "DB_IMPL_OBJECT_MAGIC \<equiv> 0x19760622"

record db_impl =
  db_magic :: int
  db_id :: int
  db_meta_table_desc :: nldb_plugin_table_desc_t
  db_meta_table_context :: ptr
  db_tx_logs :: tx_logs

definition db_impl_new :: "byte list list \<Rightarrow> db_impl" where
  "db_impl_new mems =
     \<lparr>db_magic = 0, db_id = 0, db_meta_table_desc = fresh_desc, db_meta_table_context = NULL, db_tx_logs = tx_logs_new mems\<rparr>"

definition db_init :: "'l leveldb \<Rightarrow> ('l, 't) world \<Rightarrow> db_impl \<Rightarrow> int \<Rightarrow> (nldb_rc_t \<times> db_impl \<times> ('l, 't) world) option" where
  "db_init lib w db i =
     do { desc \<leftarrow> nldb_meta_table_desc i;
          (rc, ctx, w') \<leftarrow> ld_table_open lib w desc;
          Some (rc, db\<lparr>db_magic := DB_IMPL_OBJECT_MAGIC, db_meta_table_desc := desc, db_id := i, db_meta_table_context := ctx\<rparr>, w') }"

definition db_destroy :: "'l leveldb \<Rightarrow> ('l, 't) world \<Rightarrow> db_impl \<Rightarrow> (nldb_rc_t \<times> db_impl \<times> ('l, 't) world) option" where
  "db_destroy lib w db =
     do { let db' = db\<lparr>db_tx_logs := tl_destroy (db_tx_logs db)\<rparr>;
          (rc, w') \<leftarrow> ld_table_close lib w (db_meta_table_context db);
          Some (rc, db', w') }"

definition is_valid :: "db_impl \<Rightarrow> bool" where
  "is_valid db \<longleftrightarrow> db_magic db = DB_IMPL_OBJECT_MAGIC"

definition meta_create :: "'l leveldb \<Rightarrow> ('l, 't) world \<Rightarrow> int \<Rightarrow> (nldb_rc_t \<times> ('l, 't) world) option" where
  "meta_create lib w i = do { (rc, _, w') \<leftarrow> ld_table_create lib w i META_TABLE_ID fresh_desc; Some (rc, w') }"

definition meta_drop :: "'l leveldb \<Rightarrow> ('l, 't) world \<Rightarrow> int \<Rightarrow> (nldb_rc_t \<times> ('l, 't) world) option" where
  "meta_drop lib w i = do { desc \<leftarrow> nldb_meta_table_desc i; ld_table_drop lib w desc }"

definition meta_exists :: "'l leveldb \<Rightarrow> ('l, 't) world \<Rightarrow> int \<Rightarrow> (nldb_rc_t \<times> bool \<times> ('l, 't) world) option" where
  "meta_exists lib w i = do { desc \<leftarrow> nldb_meta_table_desc i; nldb_table_exists lib w desc }"

text \<open>The key and the value of the meta table are the bytes of the table id and of \<^verbatim>\<open>nldb_meta_table_value_t\<close>.\<close>

definition meta_key :: "int \<Rightarrow> nldb_key_t" where
  "meta_key table_id = \<lparr>key_data = le_bytes 4 (nat (table_id mod 2 ^ 32)), key_len = 4\<rparr>"

definition meta_table_value :: "nat \<Rightarrow> nldb_plugin_table_desc_t \<Rightarrow> nldb_value_t" where
  "meta_table_value plugin_id desc =
     \<lparr>value_data = le_bytes 4 plugin_id @ le_bytes 4 (unat (desc_length desc)) @ table_desc desc, value_len = 264\<rparr>"

definition meta_put :: "'l leveldb \<Rightarrow> ('l, 't) world \<Rightarrow> db_impl \<Rightarrow> int \<Rightarrow> nat \<Rightarrow> nldb_plugin_table_desc_t \<Rightarrow> (nldb_rc_t \<times> ('l, 't) world) option" where
  "meta_put lib w db table_id plugin_id desc =
     ld_table_put lib w (db_meta_table_context db) (meta_key table_id) (meta_table_value plugin_id desc)"

definition meta_get :: "'l leveldb \<Rightarrow> ('l, 't) world \<Rightarrow> db_impl \<Rightarrow> int \<Rightarrow> (nldb_rc_t \<times> (nat \<times> nldb_plugin_table_desc_t) option) option" where
  "meta_get lib w db table_id =
     do { (rc, value, _) \<leftarrow> ld_table_get lib w (db_meta_table_context db) (meta_key table_id) False;
          if rc \<noteq> NLDB_OK then Some (rc, None)
          else do {
            v \<leftarrow> value;
            b1 \<leftarrow> mem_read (value_data v) 0 4;
            b2 \<leftarrow> mem_read (value_data v) 4 4;
            b3 \<leftarrow> mem_read (value_data v) 8 256;
            Some (fst (ld_value_free v), Some (le_value b1, \<lparr>desc_length = of_nat (le_value b2), table_desc = b3\<rparr>)) } }"

definition meta_del :: "'l leveldb \<Rightarrow> ('l, 't) world \<Rightarrow> db_impl \<Rightarrow> int \<Rightarrow> (nldb_rc_t \<times> ('l, 't) world) option" where
  "meta_del lib w db table_id = ld_table_del lib w (db_meta_table_context db) (meta_key table_id)"

definition add_replicator :: "db_impl \<Rightarrow> db_impl option" where
  "add_replicator db = do { logs \<leftarrow> addReplicator (db_tx_logs db); Some (db\<lparr>db_tx_logs := logs\<rparr>) }"

section \<open>Database management\<close>

definition nldb_db_create :: "'l leveldb \<Rightarrow> ('l, 't) world \<Rightarrow> int \<Rightarrow> (nldb_rc_t \<times> ('l, 't) world) option" where
  "nldb_db_create lib w i =
     (if i < 0 \<or> i > NLDB_MAX_DB_COUNT then Some (NLDB_ERROR_INVALID_ARGUMENT, w)
      else do {
        (rc, exists, w1) \<leftarrow> meta_exists lib w i;
        if rc \<noteq> NLDB_OK then Some (rc, w1)
        else if exists then Some (NLDB_ERROR_DB_ALREADY_EXISTS, w1)
        else meta_create lib w1 i })"

definition nldb_db_drop :: "'l leveldb \<Rightarrow> ('l, 't) world \<Rightarrow> int \<Rightarrow> (nldb_rc_t \<times> ('l, 't) world) option" where
  "nldb_db_drop lib w i =
     (if i < 0 \<or> i > NLDB_MAX_DB_COUNT then Some (NLDB_ERROR_INVALID_ARGUMENT, w)
      else do {
        (rc, exists, w1) \<leftarrow> meta_exists lib w i;
        if rc \<noteq> NLDB_OK then Some (rc, w1)
        else if \<not> exists then Some (NLDB_ERROR_DB_NOT_FOUND, w1)
        else meta_drop lib w1 i })"

text \<open>
  \<open>master\<close> and \<open>slave\<close> say whether the options are given; with \<open>slave\<close> the thread of \<^verbatim>\<open>nldb_start_replication_slave_thread\<close>
  is started, which the last component of the result records.
\<close>

definition nldb_db_open ::
    "'l leveldb \<Rightarrow> byte list list \<Rightarrow> ('l, 't) world \<Rightarrow> int \<Rightarrow> bool \<Rightarrow> bool
      \<Rightarrow> (nldb_rc_t \<times> db_impl option \<times> ('l, 't) world \<times> bool) option" where
  "nldb_db_open lib mems w i master slave =
     (if i < 0 \<or> i > NLDB_MAX_DB_COUNT then Some (NLDB_ERROR_INVALID_ARGUMENT, None, w, False)
      else do {
        (rc, exists, w1) \<leftarrow> meta_exists lib w i;
        if rc \<noteq> NLDB_OK then Some (rc, None, w1, False)
        else if \<not> exists then Some (NLDB_ERROR_DB_NOT_FOUND, None, w1, False)
        else do {
          (rc, db, w2) \<leftarrow> db_init lib w1 (db_impl_new mems) i;
          if rc \<noteq> NLDB_OK then Some (rc, None, w2, False)
          else do { db' \<leftarrow> (if master then add_replicator db else Some db);
                    Some (NLDB_OK, Some db', w2, slave) } } })"

definition nldb_db_close :: "'l leveldb \<Rightarrow> ('l, 't) world \<Rightarrow> db_impl \<Rightarrow> (nldb_rc_t \<times> db_impl \<times> ('l, 't) world) option" where
  "nldb_db_close lib w db =
     (if \<not> is_valid db then Some (NLDB_ERROR_INVALID_ARGUMENT, db, w) else db_destroy lib w db)"

text \<open>\<open>expected\<close> is the cursor of the ring when the call began; the call returns when every publisher has reached it.\<close>

definition nldb_db_wait_for_replication_publishers :: "db_impl \<Rightarrow> int \<Rightarrow> nldb_rc_t option" where
  "nldb_db_wait_for_replication_publishers db expected =
     (if waitForReplicationPublishers (db_tx_logs db) expected then Some NLDB_OK else None)"

definition nldb_db_id :: "db_impl \<Rightarrow> int" where
  "nldb_db_id db = db_id db"

section \<open>Transaction management\<close>

text \<open>The handle of a transaction is its object; it is \<^term>\<open>None\<close> when the output parameter is not set, and after the object has been deleted.\<close>

definition nldb_tx_init :: "ptr \<Rightarrow> nldb_rc_t \<times> tx_impl option" where
  "nldb_tx_init db = (let (rc, tx) = tx_init tx_impl_new db in if rc \<noteq> NLDB_OK then (rc, None) else (NLDB_OK, Some tx))"

definition nldb_tx_begin :: "tx_impl \<Rightarrow> tx_logs \<Rightarrow> int \<Rightarrow> (nldb_rc_t \<times> tx_impl \<times> tx_logs \<times> int) option" where
  "nldb_tx_begin tx logs nextTxId = tx_begin tx logs nextTxId"

definition nldb_tx_commit :: "tx_impl \<Rightarrow> tx_logs \<Rightarrow> (nldb_rc_t \<times> tx_impl \<times> tx_logs) option" where
  "nldb_tx_commit tx logs = tx_commit tx logs"

definition nldb_tx_abort :: "tx_impl \<Rightarrow> tx_logs \<Rightarrow> (nldb_rc_t \<times> tx_impl \<times> tx_logs) option" where
  "nldb_tx_abort tx logs = tx_abort tx logs"

definition nldb_tx_destroy :: "tx_impl \<Rightarrow> nldb_rc_t \<times> tx_impl option" where
  "nldb_tx_destroy tx = (let (rc, tx') = tx_destroy tx in if rc \<noteq> NLDB_OK then (rc, Some tx') else (NLDB_OK, None))"

lemmas tx_methods = nldb_tx_begin_def nldb_tx_commit_def nldb_tx_abort_def

section \<open>Table management\<close>

record 'w table_impl =
  ti_table_id :: int
  ti_plugin_id :: nat
  ti_plugin :: "'w nldb_plugin_t"
  ti_desc :: nldb_plugin_table_desc_t
  ti_context :: ptr

definition nldb_table_create ::
    "'l leveldb \<Rightarrow> ('l, 't) world plugin_registry \<Rightarrow> ('l, 't) world \<Rightarrow> db_impl \<Rightarrow> int \<Rightarrow> nat \<Rightarrow> (nldb_rc_t \<times> ('l, 't) world) option" where
  "nldb_table_create lib reg w db table_id plugin_id =
     do { plugin \<leftarrow> nldb_plugin reg plugin_id;
          (rc, desc, w1) \<leftarrow> pl_table_create plugin w (db_id db) table_id fresh_desc;
          if rc \<noteq> NLDB_OK then Some (rc, w1) else meta_put lib w1 db table_id plugin_id desc }"

definition nldb_table_drop :: "'l leveldb \<Rightarrow> ('l, 't) world \<Rightarrow> db_impl \<Rightarrow> int \<Rightarrow> (nldb_rc_t \<times> ('l, 't) world) option" where
  "nldb_table_drop lib w db table_id = meta_del lib w db table_id"

text \<open>The member functions of \<^verbatim>\<open>nldb_table_impl_t\<close>, which call the plugin of the table.\<close>

definition ti_init ::
    "'l leveldb \<Rightarrow> ('l, 't) world plugin_registry \<Rightarrow> ('l, 't) world \<Rightarrow> db_impl \<Rightarrow> int
      \<Rightarrow> (nldb_rc_t \<times> ('l, 't) world table_impl option \<times> ('l, 't) world) option" where
  "ti_init lib reg w db table_id =
     do { (rc, meta) \<leftarrow> meta_get lib w db table_id;
          if rc \<noteq> NLDB_OK then Some (rc, None, w)
          else do {
            (plugin_id, desc) \<leftarrow> meta;
            plugin \<leftarrow> nldb_plugin reg plugin_id;
            (rc, ctx, w1) \<leftarrow> pl_table_open plugin w desc;
            if rc \<noteq> NLDB_OK then Some (rc, None, w1)
            else Some (NLDB_OK, Some \<lparr>ti_table_id = table_id, ti_plugin_id = plugin_id, ti_plugin = plugin, ti_desc = desc,
                                      ti_context = ctx\<rparr>, w1) } }"

definition ti_destroy :: "'w \<Rightarrow> 'w table_impl \<Rightarrow> (nldb_rc_t \<times> 'w) option" where
  "ti_destroy w table = pl_table_close (ti_plugin table) w (ti_context table)"

definition ti_put :: "'w \<Rightarrow> 'w table_impl \<Rightarrow> nldb_key_t \<Rightarrow> nldb_value_t \<Rightarrow> (nldb_rc_t \<times> 'w) option" where
  "ti_put w table key value = pl_table_put (ti_plugin table) w (ti_context table) key value"

definition ti_get_by_order :: "'w \<Rightarrow> 'w table_impl \<Rightarrow> int \<Rightarrow> (nldb_rc_t \<times> (nldb_key_t \<times> nldb_value_t) option) option" where
  "ti_get_by_order w table order = pl_table_get_by_order (ti_plugin table) w (ti_context table) order"

definition ti_get :: "'w \<Rightarrow> 'w table_impl \<Rightarrow> nldb_key_t \<Rightarrow> bool \<Rightarrow> (nldb_rc_t \<times> nldb_value_t option \<times> int option) option" where
  "ti_get w table key want_order = pl_table_get (ti_plugin table) w (ti_context table) key want_order"

definition ti_del :: "'w \<Rightarrow> 'w table_impl \<Rightarrow> nldb_key_t \<Rightarrow> (nldb_rc_t \<times> 'w) option" where
  "ti_del w table key = pl_table_del (ti_plugin table) w (ti_context table) key"

definition ti_stat :: "'w \<Rightarrow> 'w table_impl \<Rightarrow> (nldb_rc_t \<times> int option) option" where
  "ti_stat w table = pl_table_stat (ti_plugin table) w (ti_context table)"

lemmas table_methods = ti_init_def ti_destroy_def ti_put_def ti_get_by_order_def ti_get_def ti_del_def ti_stat_def

text \<open>The functions of the API.\<close>

definition nldb_table_open ::
    "'l leveldb \<Rightarrow> ('l, 't) world plugin_registry \<Rightarrow> ('l, 't) world \<Rightarrow> db_impl \<Rightarrow> int
      \<Rightarrow> (nldb_rc_t \<times> ('l, 't) world table_impl option \<times> ('l, 't) world) option" where
  "nldb_table_open lib reg w db table_id = ti_init lib reg w db table_id"

definition nldb_table_close :: "'w \<Rightarrow> 'w table_impl \<Rightarrow> (nldb_rc_t \<times> 'w) option" where
  "nldb_table_close w table = ti_destroy w table"

definition nldb_table_put ::
    "'w \<Rightarrow> tx_impl \<Rightarrow> tx_logs \<Rightarrow> 'w table_impl \<Rightarrow> nldb_key_t \<Rightarrow> nldb_value_t \<Rightarrow> (nldb_rc_t \<times> 'w \<times> tx_logs) option" where
  "nldb_table_put w tx logs table key value =
     do { (rc, w') \<leftarrow> ti_put w table key value;
          if rc \<noteq> NLDB_OK then Some (rc, w', logs)
          else do { (rc, logs') \<leftarrow> append_log_put tx logs (ti_table_id table) key value; Some (rc, w', logs') } }"

definition nldb_table_get ::
    "'w \<Rightarrow> 'w table_impl \<Rightarrow> nldb_key_t \<Rightarrow> bool \<Rightarrow> (nldb_rc_t \<times> nldb_value_t option \<times> int option) option" where
  "nldb_table_get w table key want_order = ti_get w table key want_order"

definition nldb_table_get_by_order ::
    "'w \<Rightarrow> 'w table_impl \<Rightarrow> int \<Rightarrow> (nldb_rc_t \<times> (nldb_key_t \<times> nldb_value_t) option) option" where
  "nldb_table_get_by_order w table order = ti_get_by_order w table order"

definition nldb_table_del ::
    "'w \<Rightarrow> tx_impl \<Rightarrow> tx_logs \<Rightarrow> 'w table_impl \<Rightarrow> nldb_key_t \<Rightarrow> (nldb_rc_t \<times> 'w \<times> tx_logs) option" where
  "nldb_table_del w tx logs table key =
     do { (rc, w') \<leftarrow> ti_del w table key;
          if rc \<noteq> NLDB_OK then Some (rc, w', logs)
          else do { (rc, logs') \<leftarrow> append_log_del tx logs (ti_table_id table) key; Some (rc, w', logs') } }"

text \<open>\<^verbatim>\<open>nldb_table_stat\<close> falls off its end when the plugin succeeds: the return code is then undefined.\<close>

definition nldb_table_stat :: "'w \<Rightarrow> 'w table_impl \<Rightarrow> (nldb_rc_t option \<times> int option) option" where
  "nldb_table_stat w table =
     do { (rc, n) \<leftarrow> ti_stat w table; Some (if rc \<noteq> NLDB_OK then Some rc else None, n) }"

definition nldb_table_id :: "'w table_impl \<Rightarrow> int" where
  "nldb_table_id table = ti_table_id table"

definition nldb_table_plugin_id :: "'w table_impl \<Rightarrow> nat" where
  "nldb_table_plugin_id table = ti_plugin_id table"

section \<open>Cursors, and freeing keys and values\<close>

record 'w cursor_impl =
  ci_table :: "'w table_impl"
  ci_cursor_context :: ptr

definition nldb_cursor_open :: "'w \<Rightarrow> 'w table_impl \<Rightarrow> (nldb_rc_t \<times> 'w cursor_impl option \<times> 'w) option" where
  "nldb_cursor_open w table =
     do { (rc, c, w') \<leftarrow> pl_cursor_open (ti_plugin table) w (ti_context table);
          if rc \<noteq> NLDB_OK then Some (rc, None, w')
          else Some (NLDB_OK, Some \<lparr>ci_table = table, ci_cursor_context = c\<rparr>, w') }"

definition nldb_cursor_close :: "'w \<Rightarrow> 'w cursor_impl \<Rightarrow> (nldb_rc_t \<times> 'w) option" where
  "nldb_cursor_close w cur =
     pl_cursor_close (ti_plugin (ci_table cur)) w (ti_context (ci_table cur)) (ci_cursor_context cur)"

definition nldb_cursor_seek :: "'w \<Rightarrow> 'w cursor_impl \<Rightarrow> nldb_cursor_direction_t \<Rightarrow> nldb_key_t \<Rightarrow> (nldb_rc_t \<times> 'w) option" where
  "nldb_cursor_seek w cur direction key =
     pl_cursor_seek (ti_plugin (ci_table cur)) w (ci_cursor_context cur) direction key"

definition nldb_cursor_seek_order :: "'w \<Rightarrow> 'w cursor_impl \<Rightarrow> nldb_cursor_direction_t \<Rightarrow> int \<Rightarrow> (nldb_rc_t \<times> 'w) option" where
  "nldb_cursor_seek_order w cur direction order =
     pl_cursor_seek_order (ti_plugin (ci_table cur)) w (ci_cursor_context cur) direction order"

definition nldb_cursor_fetch ::
    "'w \<Rightarrow> 'w cursor_impl \<Rightarrow> bool \<Rightarrow> bool \<Rightarrow> (nldb_rc_t \<times> (nldb_key_t \<times> nldb_value_t option \<times> int option) option \<times> 'w) option" where
  "nldb_cursor_fetch w cur want_value want_order =
     pl_cursor_fetch (ti_plugin (ci_table cur)) w (ci_cursor_context cur) want_value want_order"

text \<open>The value (key) after the call: null and of length 0 when the plugin succeeds.\<close>

definition nldb_value_free :: "'w table_impl \<Rightarrow> nldb_value_t \<Rightarrow> nldb_rc_t \<times> nldb_value_t" where
  "nldb_value_free table value =
     (let (rc, value') = pl_value_free (ti_plugin table) value
      in if rc \<noteq> NLDB_OK then (rc, value') else (NLDB_OK, \<lparr>value_data = [], value_len = 0\<rparr>))"

definition nldb_key_free :: "'w table_impl \<Rightarrow> nldb_key_t \<Rightarrow> nldb_rc_t \<times> nldb_key_t" where
  "nldb_key_free table key =
     (let (rc, key') = pl_key_free (ti_plugin table) key
      in if rc \<noteq> NLDB_OK then (rc, key') else (NLDB_OK, \<lparr>key_data = [], key_len = 0\<rparr>))"

end
