(* ===== verification/Nldb_Properties.thy ===== *)
theory Nldb_Properties
  imports Leveldb_Tables Nldb
begin

text \<open>
  Properties of the database layer: the plugin registry, the life cycle of transactions and databases, and the catalogue of tables in the
  LevelDB meta table. What is used of LevelDB are hypotheses of the properties: a \<^verbatim>\<open>Get\<close> after a \<^verbatim>\<open>Put\<close> of a key finds the value.
\<close>

section \<open>Meta table values\<close>

lemma mem_read_fields:
  assumes "length a = 4" "length b = 4" "length c = 256"
  shows "mem_read (a @ b @ c) 0 4 = Some a" "mem_read (a @ b @ c) 4 4 = Some b" "mem_read (a @ b @ c) 8 256 = Some c"
    "mem_read (a @ b @ c) 0 264 = Some (a @ b @ c)"
proof -
  show "mem_read (a @ b @ c) 0 4 = Some a" proof -
    have "mem_read ([] @ a @ b @ c) 0 4 = Some a" by (rule mem_read_append) (simp_all add: assms)
    then show ?thesis by (simp only: append_Nil)
  qed
  show "mem_read (a @ b @ c) 4 4 = Some b" by (rule mem_read_append) (simp_all add: assms)
  have "mem_read ((a @ b) @ c @ []) 8 256 = Some c" by (rule mem_read_append) (simp_all add: assms)
  then show "mem_read (a @ b @ c) 8 256 = Some c" by (simp only: append.assoc append_Nil2)
  have "mem_read ([] @ (a @ b @ c) @ []) 0 264 = Some (a @ b @ c)" by (rule mem_read_append) (simp_all add: assms)
  then show "mem_read (a @ b @ c) 0 264 = Some (a @ b @ c)" by (simp only: append_Nil append_Nil2)
qed

lemma meta_value_roundtrip:
  assumes "pid < 2 ^ 32" "length (table_desc desc) = 256"
  shows "get_slice_value (meta_table_value pid desc) = Some (value_data (meta_table_value pid desc))"
    and "mem_read (value_data (meta_table_value pid desc)) 0 4 = Some (le_bytes 4 pid)"
    and "mem_read (value_data (meta_table_value pid desc)) 4 4 = Some (le_bytes 4 (unat (desc_length desc)))"
    and "mem_read (value_data (meta_table_value pid desc)) 8 256 = Some (table_desc desc)"
    and "le_value (le_bytes 4 pid) = pid"
    and "of_nat (le_value (le_bytes 4 (unat (desc_length desc)))) = desc_length desc"
proof -
  let ?a = "le_bytes 4 pid" and ?b = "le_bytes 4 (unat (desc_length desc))" and ?c = "table_desc desc"
  note f = mem_read_fields [of ?a ?b ?c, OF length_le_bytes length_le_bytes assms(2)]
  show "get_slice_value (meta_table_value pid desc) = Some (value_data (meta_table_value pid desc))"
    unfolding get_slice_value_def meta_table_value_def using f(4) by simp
  show "mem_read (value_data (meta_table_value pid desc)) 0 4 = Some ?a" "mem_read (value_data (meta_table_value pid desc)) 4 4 = Some ?b"
      "mem_read (value_data (meta_table_value pid desc)) 8 256 = Some ?c"
    unfolding meta_table_value_def nldb_value_t.select_convs using f(1-3) by blast+
  show "le_value ?a = pid" using assms(1) by (simp add: le_value_le_bytes)
  have "unat (desc_length desc) < 2 ^ 32" using unsigned_less [where 'a = nat, of "desc_length desc"] by simp
  then have "le_value ?b = unat (desc_length desc)" by (simp add: le_value_le_bytes)
  then show "of_nat (le_value ?b) = desc_length desc" by simp
qed

lemma get_slice_meta_key: "get_slice_key (meta_key i) = Some (key_data (meta_key i))"
  using mem_read_append [of 0 "[]" 4 "key_data (meta_key i)" "[]"] by (simp add: get_slice_key_def meta_key_def)

definition meta_entry :: "int \<Rightarrow> byte list" where
  "meta_entry table_id = key_data (meta_key table_id)"

lemma meta_get_found:
  assumes "ldb_Get lib (w_leveldb w) (db_meta_table_context db) (meta_entry i) = (LdbOk, value_data (meta_table_value pid desc))"
    "pid < 2 ^ 32" "length (table_desc desc) = 256"
  shows "meta_get lib w db i = Some (NLDB_OK, Some (pid, desc))"
  using assms(1) meta_value_roundtrip [OF assms(2,3)] get_slice_meta_key [of i]
  by (simp add: meta_get_def ld_table_get_def meta_entry_def copy_value_from_slice_def ld_value_free_def)

lemma meta_put_law:
  assumes "length (table_desc desc) = 256" "pid < 2 ^ 32"
  shows "meta_put lib w db i pid desc = Some (NLDB_OK, w\<lparr>w_leveldb :=
     snd (ldb_Put lib (w_leveldb w) (db_meta_table_context db) (meta_entry i) (value_data (meta_table_value pid desc)))\<rparr>)"
  using meta_value_roundtrip(1) [OF assms(2,1)] get_slice_meta_key [of i] by (simp add: meta_put_def ld_table_put_def meta_entry_def)

text \<open>The descriptor of the meta table names the LevelDB database.\<close>

lemma meta_name:
  assumes "0 \<le> i" "i \<le> 1024"
  shows "\<exists>desc. nldb_meta_table_desc i = Some desc \<and> leveldb_desc_name desc = Some (leveldb_name i 0)"
proof -
  have "length (table_desc fresh_desc) = 256" by (simp add: fresh_desc_def)
  from leveldb_desc_roundtrip [OF this, of i 0] assms show ?thesis by (auto simp: nldb_meta_table_desc_def)
qed

section \<open>Properties\<close>

text \<open>
  the catalogue: a table of the array tree plugin that is created in a database can be opened by its id; it is served by the plugin
  it was created with and is empty. LevelDB is assumed to accept the entry of the meta table and to find what was put last.
\<close>

theorem create_then_open:
  assumes "\<forall>l db k v l'. ldb_Put lib l db k v = (LdbOk, l') \<longrightarrow> ldb_Get lib l' db k = (LdbOk, v)"
    "\<forall>v. fst (ldb_Put lib (w_leveldb w) (db_meta_table_context db) (meta_entry i) v) = LdbOk"
    "nldb_plugin reg pid = Some (plugin_array_tree garbage)" "0 < kl" "3 * kl \<le> KEY_SPACE_SIZE"
  shows "\<exists>w1 w2 tab. nldb_table_create lib reg w db i pid = Some (NLDB_OK, w1) \<and>
     nldb_table_open lib reg w1 db i = Some (NLDB_OK, Some tab, w2) \<and>
     ti_table_id tab = i \<and> ti_plugin_id tab = pid \<and> ti_plugin tab = plugin_array_tree garbage \<and> at_rep w2 (ti_context tab) kl []"
proof -
  let ?desc = "fresh_desc\<lparr>desc_length := 0\<rparr>"
  have pid: "pid < 2 ^ 32" using assms(3) by (auto simp: nldb_plugin_def split: if_splits)
  have d: "length (table_desc ?desc) = 256" by (simp add: fresh_desc_def)
  let ?w1 = "w\<lparr>w_leveldb := snd (ldb_Put lib (w_leveldb w) (db_meta_table_context db) (meta_entry i) (value_data (meta_table_value pid ?desc)))\<rparr>"
  have c: "nldb_table_create lib reg w db i pid = Some (NLDB_OK, ?w1)"
    using assms(3) meta_put_law [OF d pid, of lib w db i] by (simp add: nldb_table_create_def plugin_array_tree_def at_table_create_def)
  have g: "meta_get lib ?w1 db i = Some (NLDB_OK, Some (pid, ?desc))"
    by (rule meta_get_found [OF _ pid d]) (use assms(1,2) in \<open>simp add: prod_eq_iff\<close>)
  obtain w2 where "pl_table_open (plugin_array_tree garbage) ?w1 ?desc = Some (NLDB_OK, w_next ?w1, w2)" "at_rep w2 (w_next ?w1) kl []"
    using at_rep_open [OF assms(4,5), of garbage ?w1 ?desc] by blast
  then show ?thesis using c g assms(3) by (simp add: nldb_table_open_def ti_init_def)
qed

text \<open>A LevelDB that keeps one map from handle and key to value, for the examples.\<close>

definition toy_leveldb :: "(ptr \<times> byte list \<rightharpoonup> byte list) leveldb" where
  "toy_leveldb =
     \<lparr>ldb_Open = (\<lambda>l create name. (LdbOk, 1, l)), ldb_delete = (\<lambda>l db. l), ldb_DestroyDB = (\<lambda>l name. (LdbOk, l)),
      ldb_Put = (\<lambda>l db k v. (LdbOk, l((db, k) \<mapsto> v))),
      ldb_Get = (\<lambda>l db k. case l (db, k) of None \<Rightarrow> (LdbNotFound, []) | Some v \<Rightarrow> (LdbOk, v)),
      ldb_Delete = (\<lambda>l db k. (LdbOk, l((db, k) := None))), ldb_NewIterator = (\<lambda>l db. (1, l)), ldb_Seek = (\<lambda>l it k. l),
      ldb_iter_status = (\<lambda>l it. LdbOk), ldb_Valid = (\<lambda>l it. False), ldb_iter_key = (\<lambda>l it. []), ldb_iter_value = (\<lambda>l it. []),
      ldb_Next = (\<lambda>l it. l), ldb_Prev = (\<lambda>l it. l), ldb_delete_iterator = (\<lambda>l it. l)\<rparr>"

theorem create_then_open_witness:
  "\<forall>w :: (ptr \<times> byte list \<rightharpoonup> byte list, unit) world. \<forall>db garbage tclib. \<exists>reg w1 w2 tab.
     snd (snd (nldb_init toy_leveldb tclib garbage plugin_registry_new)) = reg \<and>
     nldb_table_create toy_leveldb reg w db 3 1 = Some (NLDB_OK, w1) \<and>
     nldb_table_open toy_leveldb reg w1 db 3 = Some (NLDB_OK, Some tab, w2) \<and> at_rep w2 (ti_context tab) 4 []"
proof (intro allI)
  fix w :: "(ptr \<times> byte list \<rightharpoonup> byte list, unit) world" and db :: db_impl and garbage and tclib :: "unit tokyo_cabinet"
  define reg where "reg = snd (snd (nldb_init toy_leveldb tclib garbage plugin_registry_new))"
  have l: "\<forall>l db k v l'. ldb_Put toy_leveldb l db k v = (LdbOk, l') \<longrightarrow> ldb_Get toy_leveldb l' db k = (LdbOk, v)"
    "\<forall>v. fst (ldb_Put toy_leveldb (w_leveldb w) (db_meta_table_context (db :: db_impl)) (meta_entry 3) v) = LdbOk"
    by (auto simp: toy_leveldb_def)
  have p: "nldb_plugin reg 1 = Some (plugin_array_tree garbage)"
    by (simp add: reg_def nldb_init_def nldb_plugin_add_def plugin_registry_new_def nldb_plugin_def numeral_eq_Suc)
  from create_then_open [OF l p, of 4] show "\<exists>reg w1 w2 tab.
     snd (snd (nldb_init toy_leveldb tclib garbage plugin_registry_new)) = reg \<and>
     nldb_table_create toy_leveldb reg w db 3 1 = Some (NLDB_OK, w1) \<and>
     nldb_table_open toy_leveldb reg w1 db 3 = Some (NLDB_OK, Some tab, w2) \<and> at_rep w2 (ti_context tab) 4 []"
    by (auto simp: reg_def)
qed

text \<open>Adding plugins one after the other.\<close>

fun add_plugins :: "'w plugin_registry \<Rightarrow> 'w nldb_plugin_t list \<Rightarrow> 'w plugin_registry" where
  "add_plugins reg [] = reg"
| "add_plugins reg (p # ps) = add_plugins (snd (snd (nldb_plugin_add reg p))) ps"

lemma add_plugins_spec:
  "length (plugins reg) = 16 \<Longrightarrow> next_plugin_id reg + length ps \<le> 16 \<Longrightarrow> reg' = add_plugins reg ps \<Longrightarrow>
     next_plugin_id reg' = next_plugin_id reg + length ps \<and> length (plugins reg') = 16 \<and>
     (\<forall>i<next_plugin_id reg. plugins reg' ! i = plugins reg ! i) \<and>
     (\<forall>i<length ps. plugins reg' ! (next_plugin_id reg + i) = Some (ps ! i))"
proof (induction ps arbitrary: reg)
  case (Cons p ps)
  let ?r = "reg\<lparr>plugins := (plugins reg)[next_plugin_id reg := Some p], next_plugin_id := next_plugin_id reg + 1\<rparr>"
  have a: "snd (snd (nldb_plugin_add reg p)) = ?r" using Cons.prems(2) by (simp add: nldb_plugin_add_def)
  have ih: "next_plugin_id reg' = next_plugin_id ?r + length ps \<and> length (plugins reg') = 16 \<and>
     (\<forall>i<next_plugin_id ?r. plugins reg' ! i = plugins ?r ! i) \<and>
     (\<forall>i<length ps. plugins reg' ! (next_plugin_id ?r + i) = Some (ps ! i))"
    by (rule Cons.IH) (use Cons.prems a in simp_all)
  have "plugins reg' ! (next_plugin_id reg + i) = Some ((p # ps) ! i)" if "i < Suc (length ps)" for i
    using that ih Cons.prems(1,2) by (cases i) auto
  then show ?case using ih by auto
qed simp

text \<open>
  the registry holds up to sixteen plugins: each of them is found under the id in whose order it was added, and a
  seventeenth is rejected with an error code and changes nothing.
\<close>

theorem plugin_registry_limit:
  assumes "length ps = 16" "i < 16"
  shows "nldb_plugin (add_plugins plugin_registry_new ps) i = Some (ps ! i) \<and>
     nldb_plugin_add (add_plugins plugin_registry_new ps) p =
       (NLDB_ERROR_PLUGIN_NO_MORE_SLOT, None, add_plugins plugin_registry_new ps)"
proof -
  have "next_plugin_id (add_plugins plugin_registry_new ps) = 16 \<and> plugins (add_plugins plugin_registry_new ps) ! i = Some (ps ! i)"
    using add_plugins_spec [of plugin_registry_new ps] assms by (simp add: plugin_registry_new_def)
  then show ?thesis using assms(2) by (simp add: nldb_plugin_def nldb_plugin_add_def)
qed

theorem plugin_registry_limit_witness:
  "\<forall>p q :: (unit, unit) world nldb_plugin_t. nldb_plugin (add_plugins plugin_registry_new (replicate 16 p)) 15 = Some p \<and>
     fst (nldb_plugin_add (add_plugins plugin_registry_new (replicate 16 p)) q) = - 16"
proof (intro allI)
  fix p q :: "(unit, unit) world nldb_plugin_t"
  show "nldb_plugin (add_plugins plugin_registry_new (replicate 16 p)) 15 = Some p \<and>
     fst (nldb_plugin_add (add_plugins plugin_registry_new (replicate 16 p)) q) = - 16"
    using plugin_registry_limit [of "replicate 16 p" 15 q] by simp
qed

text \<open>
  the state machine of a transaction object: a second initialisation, destroying it while a transaction is open and destroying it
  twice are answered by their error codes and change nothing; beginning a second transaction and ending one that was not begun violate assertions.
\<close>

theorem transaction_misuse:
  assumes "db \<noteq> NULL"
  shows "tx_init (snd (tx_init tx_impl_new db)) db' = (NLDB_ERROR_TX_ALREADY_INITIALIZED, snd (tx_init tx_impl_new db)) \<and>
     fst (tx_destroy (snd (tx_init tx_impl_new db))) = NLDB_OK \<and>
     fst (tx_destroy (snd (tx_destroy (snd (tx_init tx_impl_new db))))) = NLDB_ERROR_TX_ALREADY_DESTROYED \<and>
     (tx_txEvent tx = Some slot \<longrightarrow> tx_destroy tx = (NLDB_ERROR_TX_NOT_ENDED, tx) \<and> tx_begin tx logs nextTxId = None) \<and>
     (tx_txEvent tx = None \<longrightarrow> tx_commit tx logs = None \<and> tx_abort tx logs = None \<and>
        append_log_put tx logs t key val = None \<and> append_log_del tx logs t key = None)"
  using assms by (simp add: tx_init_def tx_impl_new_def tx_destroy_def tx_begin_def tx_commit_def tx_end_def tx_abort_def
      append_log_put_def append_log_del_def)

theorem transaction_misuse_witness:
  "\<forall>logs. tx_destroy \<lparr>tx_db = 1, tx_txEvent = Some 0\<rparr> = (NLDB_ERROR_TX_NOT_ENDED, \<lparr>tx_db = 1, tx_txEvent = Some 0\<rparr>) \<and>
     tx_commit tx_impl_new logs = None"
  using transaction_misuse [of 1 2 "\<lparr>tx_db = 1, tx_txEvent = Some 0\<rparr>" 0] transaction_misuse [of 1 2 tx_impl_new 0]
  by (simp add: tx_impl_new_def)

text \<open>
  C28: creating, dropping and opening a database: an id outside of 0 to 1024 is rejected; creating a database whose meta table can be opened
  fails with the code for an existing database, and dropping or opening one whose meta table cannot be opened fails with the code
  for a missing database. The meta table of database \<open>i\<close> is the LevelDB database of that name.
\<close>

theorem database_errors:
  shows "(i < 0 \<or> i > 1024 \<longrightarrow> nldb_db_create lib w i = Some (NLDB_ERROR_INVALID_ARGUMENT, w) \<and>
        nldb_db_drop lib w i = Some (NLDB_ERROR_INVALID_ARGUMENT, w) \<and>
        nldb_db_open lib mems w i master slave = Some (NLDB_ERROR_INVALID_ARGUMENT, None, w, False)) \<and>
     (0 \<le> i \<and> i \<le> 1024 \<and> ldb_Open lib (w_leveldb w) False (leveldb_name i 0) = (st, db, l) \<longrightarrow>
        (st = LdbOk \<and> db \<noteq> NULL \<longrightarrow>
           nldb_db_create lib w i = Some (NLDB_ERROR_DB_ALREADY_EXISTS, w\<lparr>w_leveldb := ldb_delete lib l db\<rparr>)) \<and>
        (st \<noteq> LdbOk \<longrightarrow>
           nldb_db_drop lib w i = Some (NLDB_ERROR_DB_NOT_FOUND, w\<lparr>w_leveldb := l\<rparr>) \<and>
           nldb_db_open lib mems w i master slave = Some (NLDB_ERROR_DB_NOT_FOUND, None, w\<lparr>w_leveldb := l\<rparr>, False)))"
proof (intro conjI impI)
  assume "i < 0 \<or> i > 1024"
  then show "nldb_db_create lib w i = Some (NLDB_ERROR_INVALID_ARGUMENT, w)" "nldb_db_drop lib w i = Some (NLDB_ERROR_INVALID_ARGUMENT, w)"
    "nldb_db_open lib mems w i master slave = Some (NLDB_ERROR_INVALID_ARGUMENT, None, w, False)"
    by (simp_all add: nldb_db_create_def nldb_db_drop_def nldb_db_open_def)
next
  assume a: "0 \<le> i \<and> i \<le> 1024 \<and> ldb_Open lib (w_leveldb w) False (leveldb_name i 0) = (st, db, l)"
  obtain desc where d: "nldb_meta_table_desc i = Some desc" "leveldb_desc_name desc = Some (leveldb_name i 0)"
    using meta_name [of i] a by auto
  { assume "st = LdbOk \<and> db \<noteq> NULL"
    then show "nldb_db_create lib w i = Some (NLDB_ERROR_DB_ALREADY_EXISTS, w\<lparr>w_leveldb := ldb_delete lib l db\<rparr>)"
      using a d by (simp add: nldb_db_create_def meta_exists_def nldb_table_exists_def) }
  { assume "st \<noteq> LdbOk"
    then show "nldb_db_drop lib w i = Some (NLDB_ERROR_DB_NOT_FOUND, w\<lparr>w_leveldb := l\<rparr>)"
      "nldb_db_open lib mems w i master slave = Some (NLDB_ERROR_DB_NOT_FOUND, None, w\<lparr>w_leveldb := l\<rparr>, False)"
      using a d by (simp_all add: nldb_db_drop_def nldb_db_open_def meta_exists_def nldb_table_exists_def) }
qed

theorem database_errors_witness:
  "\<forall>w :: (ptr \<times> byte list \<rightharpoonup> byte list, unit) world.
     nldb_db_create toy_leveldb w 1025 = Some (NLDB_ERROR_INVALID_ARGUMENT, w) \<and>
     nldb_db_create toy_leveldb w 7 = Some (NLDB_ERROR_DB_ALREADY_EXISTS, w)"
proof (intro allI)
  fix w :: "(ptr \<times> byte list \<rightharpoonup> byte list, unit) world"
  show "nldb_db_create toy_leveldb w 1025 = Some (NLDB_ERROR_INVALID_ARGUMENT, w) \<and>
     nldb_db_create toy_leveldb w 7 = Some (NLDB_ERROR_DB_ALREADY_EXISTS, w)"
    using database_errors [of 1025 toy_leveldb w "[]" False False LdbOk 1 "w_leveldb w"]
      database_errors [of 7 toy_leveldb w "[]" False False LdbOk 1 "w_leveldb w"]
    by (simp add: toy_leveldb_def)
qed

end
