(* ===== verification/Solo_Logs.thy ===== *)
theory Solo_Logs
  imports Master_Steps
begin

text \<open>
  The transaction logs of a database without replicators, such as a slave or a stand-alone instance: one event of the ring is claimed by the
  first transaction and used again by every later one, since ending a transaction clears the log instead of publishing it.
\<close>

definition idle_logs :: "tx_impl \<Rightarrow> tx_logs \<Rightarrow> bool" where
  "idle_logs tx logs \<longleftrightarrow> tx_txEvent tx = None \<and> ring_ok logs \<and> tl_replicators logs = [] \<and>
     (tl_currentSequence logs = - 1 \<and> claimed logs = - 1 \<and> clean (lg logs 0) \<or>
      0 \<le> tl_currentSequence logs \<and> clean (lg logs (sl (tl_currentSequence logs))))"

definition busy_logs :: "tx_impl \<Rightarrow> tx_logs \<Rightarrow> log_record list \<Rightarrow> bool" where
  "busy_logs tx logs rs \<longleftrightarrow> ring_ok logs \<and> tl_replicators logs = [] \<and> 0 \<le> tl_currentSequence logs \<and>
     tx_txEvent tx = Some (int (sl (tl_currentSequence logs))) \<and> holds_logs (lg logs (sl (tl_currentSequence logs))) rs \<and>
     \<not> isFinalized (lg logs (sl (tl_currentSequence logs))) \<and> 0 < transactionId (lg logs (sl (tl_currentSequence logs)))"

lemma busy_logsD:
  assumes "busy_logs tx logs rs"
  shows "ring_ok logs" "tl_replicators logs = []" "0 \<le> tl_currentSequence logs"
    "tx_txEvent tx = Some (int (sl (tl_currentSequence logs)))" "holds_logs (lg logs (sl (tl_currentSequence logs))) rs"
    "\<not> isFinalized (lg logs (sl (tl_currentSequence logs)))" "0 < transactionId (lg logs (sl (tl_currentSequence logs)))"
  using assms by (auto simp: busy_logs_def)

lemma idle_logs_new:
  assumes "length mems = NLDB_TX_EVENT_COUNT" "\<forall>mem\<in>set mems. length mem = TX_REPLICATION_MESSAGE_SIZE" "tx_txEvent tx = None"
  shows "idle_logs tx (tx_logs_new mems)"
proof -
  have l: "lg (tx_logs_new mems) 0 = log_buffer_new (mems ! 0)"
    using assms(1) by (simp add: lg_def tx_logs_new_def ring_buffer_new_def NewInstance_def)
  have "length (mems ! 0) = 65536" using assms by simp
  then have "clean (lg (tx_logs_new mems) 0)" unfolding l log_buffer_new_def clean_def
    using holds_logs_clear(2) [of "\<lparr>replicationMessageBuffer = mems ! 0, nextLogAddr = 0, totalLogSize = 0, transactionId = 0, totalLogCount = 0, isFinalized = False\<rparr>"]
    by (simp add: reset_def clearLog_def)
  then show ?thesis
    using assms by (simp add: idle_logs_def ring_ok_def tx_logs_new_def ring_buffer_new_def claim_strategy_new_def NewInstance_def)
qed

text \<open>The event that \<^verbatim>\<open>begin\<close> uses: the current one, or the first of the ring.\<close>

lemma first_event:
  assumes "ring_ok logs" "tl_replicators logs = []" "claimed logs = - 1"
  obtains logs' where "getNextTransactionEvent logs = Some (int (sl 0), logs')" "ring_ok logs'" "tl_replicators logs' = []"
    "tl_currentSequence logs' = 0" "\<forall>j. lg logs' j = lg logs j"
proof -
  let ?rb = "tl_ring logs"
  let ?rb' = "?rb\<lparr>rb_claim_strategy := (rb_claim_strategy ?rb)\<lparr>cs_sequence := 0\<rparr>\<rparr>"
  let ?logs = "logs\<lparr>tl_ring := rb_set_event ?rb' (int (sl 0)) (TranslateTo 0 (rb_events ?rb ! sl 0)), tl_currentSequence := 0\<rparr>"
  have slot: "rb_slot ?rb' q = int (sl q)" for q using rb_slot_sl [OF assms(1)] by (simp add: rb_slot_def)
  have ev: "rb_Get ?rb' 0 = Some (rb_events ?rb ! sl 0)"
    using assms(1) sl_less [of 0] unfolding rb_Get_def slot by (simp add: ring_ok_def)
  have "getNextTransactionEvent logs = Some (int (sl 0), ?logs)"
    using assms ev slot
    by (simp add: getNextTransactionEvent_def rb_Next_def cs_IncrementAndGet_def WaitForFreeSlotAt_def sequence_to_track_def Let_def ring_ok_def)
  moreover have "ring_ok ?logs" "\<forall>j. lg ?logs j = lg logs j"
    using assms(1) sl_less [of 0]
    by (auto simp: ring_ok_def rb_set_event_def lg_def TranslateTo_def nth_list_update)
  ultimately show ?thesis using that [of ?logs] assms(2) by simp
qed

lemma begin_solo:
  assumes idle: "idle_logs tx logs" and nid: "0 < nid"
  obtains tx' logs' where "tx_begin tx logs nid = Some (NLDB_OK, tx', logs', nid + 1)" "busy_logs tx' logs' []"
proof -
  note goal = that
  have *: thesis if L: "(case getCurrentTransactionEvent logs of
             Some txEvent \<Rightarrow> do { lb \<leftarrow> getLogBuffer logs txEvent; if totalLogCount lb \<noteq> 0 then None else Some (txEvent, logs) }
           | None \<Rightarrow> getNextTransactionEvent logs) = Some (int (sl q), L)" "ring_ok L" "tl_replicators L = []"
      "tl_currentSequence L = q" "0 \<le> q" "clean (lg L (sl q))" for q L
  proof -
    let ?lb = "(lg L (sl q))\<lparr>transactionId := nid\<rparr>"
    have lb: "getLogBuffer L (int (sl q)) = Some (lg L (sl q))" by (rule getLogBuffer_lg [OF L(2) sl_less])
    have c: "isClear (lg L (sl q))" "setTransactionId (lg L (sl q)) nid = Some ?lb"
      using L(6) by (auto simp: clean_def isClear_def setTransactionId_def holds_logs_def)
    have none: "tx_txEvent tx = None" using idle by (simp add: idle_logs_def)
    have "tx_begin tx logs nid =
        Some (NLDB_OK, tx\<lparr>tx_txEvent := Some (int (sl q))\<rparr>, setLogBuffer L (int (sl q)) ?lb, nid + 1)"
      unfolding tx_begin_def L(1) using none lb c by simp
    moreover have "holds_logs ?lb []" using L(6) holds_logs_cong [of ?lb "lg L (sl q)"] by (simp add: clean_def)
    then have "busy_logs (tx\<lparr>tx_txEvent := Some (int (sl q))\<rparr>) (setLogBuffer L (int (sl q)) ?lb) []"
      using L nid lg_setLogBuffer [OF L(2) sl_less, of q ?lb] by (simp add: busy_logs_def clean_def)
    ultimately show thesis by (rule goal)
  qed
  have r: "ring_ok logs" "tl_replicators logs = []" using idle by (simp_all add: idle_logs_def)
  consider "tl_currentSequence logs = - 1" "claimed logs = - 1" "clean (lg logs 0)"
    | "0 \<le> tl_currentSequence logs" "clean (lg logs (sl (tl_currentSequence logs)))"
    using idle unfolding idle_logs_def by blast
  then show thesis
  proof cases
    case 1
    obtain L where "getNextTransactionEvent logs = Some (int (sl 0), L)" "ring_ok L" "tl_replicators L = []"
        "tl_currentSequence L = 0" "\<forall>j. lg L j = lg logs j"
      by (rule first_event [OF r 1(2)])
    moreover have "sl 0 = 0" by (simp add: sl_def)
    ultimately show thesis using 1 by (intro * [of 0 L]) (simp_all add: getCurrentTransactionEvent_def)
  next
    case 2
    let ?q = "tl_currentSequence logs"
    have "totalLogCount (lg logs (sl ?q)) = 0" using 2(2) by (auto simp: clean_def holds_logs_def)
    then show thesis
      using 2 r rb_slot_sl [OF r(1), of ?q] getLogBuffer_lg [OF r(1) sl_less, of ?q]
      by (intro * [of ?q logs]) (simp_all add: getCurrentTransactionEvent_def)
  qed
qed

text \<open>Appending to the log of the open transaction; key and value may be part of a larger memory.\<close>

lemma appendLog_described:
  assumes "length k < 2 ^ 16" "length v < 2 ^ 16" "kd = k @ k'" "vd = v @ v'"
  shows "appendLog lb t y kd (of_nat (length k)) vd (of_nat (length v)) = appendLog lb t y k (of_nat (length k)) v (of_nat (length v))"
proof -
  have u: "uint (of_nat n :: 64 word) = int n" if "n < 2 ^ 16" for n
    using that unat_of_nat64 [of n] by (simp add: uint_unat del: of_nat_unat)
  have r: "mem_read (xs @ ys) 0 (int (length xs)) = Some xs" "mem_read xs 0 (int (length xs)) = Some xs" for xs ys :: "byte list"
    using mem_read_append [of 0 "[]" "int (length xs)" xs ys] mem_read_append [of 0 "[]" "int (length xs)" xs "[]"] by simp_all
  show ?thesis unfolding appendLog_def u [OF assms(1)] u [OF assms(2)] assms(3,4) r by (rule refl)
qed

text \<open>The log of the open transaction, wherever it is in the ring, and its extension by a record.\<close>

definition tx_log :: "tx_impl \<Rightarrow> tx_logs \<Rightarrow> log_record list \<Rightarrow> bool" where
  "tx_log tx logs rs \<longleftrightarrow> ring_ok logs \<and> 0 \<le> tl_currentSequence logs \<and>
     (\<exists>i<2048. tx_txEvent tx = Some (int i) \<and> holds_logs (lg logs i) rs \<and> 0 < transactionId (lg logs i))"

definition log_extended :: "tx_impl \<Rightarrow> tx_logs \<Rightarrow> log_record list \<Rightarrow> tx_logs \<Rightarrow> bool" where
  "log_extended tx logs rs logs' \<longleftrightarrow> (\<exists>i lb. i < 2048 \<and> tx_txEvent tx = Some (int i) \<and> logs' = setLogBuffer logs (int i) lb \<and>
     holds_logs lb rs \<and> transactionId lb = transactionId (lg logs i) \<and> isFinalized lb = isFinalized (lg logs i))"

lemma busy_tx_log: "busy_logs tx logs rs \<Longrightarrow> tx_log tx logs rs"
  using sl_less by (auto simp: busy_logs_def tx_log_def)

lemma open_tx_log: "open_tx tx logs rs \<Longrightarrow> ring_ok logs \<Longrightarrow> 0 \<le> claimed logs \<Longrightarrow> tx_log tx logs rs"
  using sl_less by (auto simp: open_tx_def tx_log_def)

lemma log_extended_tx_log: "log_extended tx logs rs logs' \<Longrightarrow> tx_log tx logs rs0 \<Longrightarrow> tx_log tx logs' rs"
  by (auto simp: log_extended_def tx_log_def lg_setLogBuffer)

lemma log_extended_busy:
  assumes ext: "log_extended tx logs rs' logs'" and busy: "busy_logs tx logs rs"
  shows "busy_logs tx logs' rs'"
proof -
  note b = busy_logsD [OF busy]
  obtain lb where "logs' = setLogBuffer logs (int (sl (tl_currentSequence logs))) lb" "holds_logs lb rs'"
      "transactionId lb = transactionId (lg logs (sl (tl_currentSequence logs)))"
      "isFinalized lb = isFinalized (lg logs (sl (tl_currentSequence logs)))"
    using ext b(4) by (auto simp: log_extended_def)
  then show ?thesis using b lg_setLogBuffer [OF b(1) sl_less, of "tl_currentSequence logs" lb] by (simp add: busy_logs_def)
qed

lemma append_to_log:
  assumes log: "tx_log tx logs rs" and ok: "record_ok r" and room: "16 + logs_size rs + record_size r < TX_REPLICATION_MESSAGE_SIZE"
  obtains i lb where "tx_txEvent tx = Some (int i)" "getLogBuffer logs (int i) = Some (lg logs i)" "append_record (lg logs i) r = Some lb"
    "log_extended tx logs (rs @ [r]) (setLogBuffer logs (int i) lb)"
proof -
  obtain i where i: "ring_ok logs" "i < 2048" "tx_txEvent tx = Some (int i)" "holds_logs (lg logs i) rs"
    using log by (auto simp: tx_log_def)
  obtain lb where lb: "append_record (lg logs i) r = Some lb" "holds_logs lb (rs @ [r])"
      "transactionId lb = transactionId (lg logs i)" "isFinalized lb = isFinalized (lg logs i)"
    using append_record_spec [OF i(4) ok room] by blast
  then have "log_extended tx logs (rs @ [r]) (setLogBuffer logs (int i) lb)" using i(2,3) by (auto simp: log_extended_def)
  then show ?thesis using that [OF i(3) getLogBuffer_lg [OF i(1,2)] lb(1)] by blast
qed

lemma append_put_log:
  assumes log: "tx_log tx logs rs" and ok: "record_ok (put_record t k v)"
    and room: "16 + logs_size rs + record_size (put_record t k v) < TX_REPLICATION_MESSAGE_SIZE"
    and d: "describes_key key k" "describes_value val v"
  obtains logs' where "append_log_put tx logs t key val = Some (NLDB_OK, logs')" "log_extended tx logs (rs @ [put_record t k v]) logs'"
proof -
  obtain i lb where a: "tx_txEvent tx = Some (int i)" "getLogBuffer logs (int i) = Some (lg logs i)"
      "append_record (lg logs i) (put_record t k v) = Some lb"
      "log_extended tx logs (rs @ [put_record t k v]) (setLogBuffer logs (int i) lb)"
    by (rule append_to_log [OF log ok room])
  have l: "ucast (key_len key) = (of_nat (length k) :: 64 word)" "ucast (value_len val) = (of_nat (length v) :: 64 word)"
    using d ucast_16_64 by (simp_all add: describes_key_def describes_value_def)
  have "appendLog lb t LT_PUT (key_data key) (of_nat (length k)) (value_data val) (of_nat (length v)) =
      append_record lb (put_record t k v)" for lb
    using d appendLog_described [of k v _ _ _ _ lb t LT_PUT]
    by (auto simp: describes_key_def describes_value_def append_record_def put_record_def)
  then have "append_log_put tx logs t key val = Some (NLDB_OK, setLogBuffer logs (int i) lb)"
    using a(1-3) by (simp add: append_log_put_def l)
  from that [OF this a(4)] show ?thesis .
qed

lemma append_del_log:
  assumes log: "tx_log tx logs rs" and ok: "record_ok (del_record t k)"
    and room: "16 + logs_size rs + record_size (del_record t k) < TX_REPLICATION_MESSAGE_SIZE" and d: "describes_key key k"
  obtains logs' where "append_log_del tx logs t key = Some (NLDB_OK, logs')" "log_extended tx logs (rs @ [del_record t k]) logs'"
proof -
  obtain i lb where a: "tx_txEvent tx = Some (int i)" "getLogBuffer logs (int i) = Some (lg logs i)"
      "append_record (lg logs i) (del_record t k) = Some lb"
      "log_extended tx logs (rs @ [del_record t k]) (setLogBuffer logs (int i) lb)"
    by (rule append_to_log [OF log ok room])
  have l: "ucast (key_len key) = (of_nat (length k) :: 64 word)" using d ucast_16_64 by (simp add: describes_key_def)
  have "appendLog lb t LT_DEL (key_data key) (of_nat (length k)) [] 0 = append_record lb (del_record t k)" for lb
    using d appendLog_described [of k "[]" _ _ _ _ lb t LT_DEL] by (auto simp: describes_key_def append_record_def del_record_def)
  then have "append_log_del tx logs t key = Some (NLDB_OK, setLogBuffer logs (int i) lb)"
    using a(1-3) by (simp add: append_log_del_def l)
  from that [OF this a(4)] show ?thesis .
qed

text \<open>Aborting clears the log, whether or not there are replicators.\<close>

lemma abort_log:
  assumes "tx_log tx logs rs"
  obtains i logs' where "tx_txEvent tx = Some (int i)" "tx_abort tx logs = Some (NLDB_OK, tx\<lparr>tx_txEvent := None\<rparr>, logs')"
    "holds_logs (lg logs' i) []"
proof -
  obtain i where i: "ring_ok logs" "i < 2048" "tx_txEvent tx = Some (int i)" "holds_logs (lg logs i) rs" "0 < transactionId (lg logs i)"
      "0 \<le> tl_currentSequence logs"
    using assms by (auto simp: tx_log_def)
  let ?lb = "clearLog (lg logs i)"
  let ?L = "setLogBuffer logs (int i) ?lb"
  have c: "holds_logs ?lb []" by (rule holds_logs_clear(1) [OF holds_logs_buffer [OF i(4)]])
  moreover have "0 < transactionId ?lb" using i(5) by (simp add: clearLog_def)
  ultimately obtain lb where f: "finalize ?lb = Some lb" "holds_logs lb []" using finalize_spec by blast
  have r: "holds_logs (reset lb) []" by (rule holds_logs_clear(2) [OF holds_logs_buffer [OF f(2)]])
  have ring: "ring_ok (setLogBuffer X (int i) b)" if "ring_ok X" for X b using that by simp
  let ?L1 = "setLogBuffer ?L (int i) lb"
  let ?L2 = "if hasReplicators ?L1 then ?L1\<lparr>tl_ring := rb_Publish (tl_ring ?L1) (tl_currentSequence ?L1), tl_currentSequence := - 1\<rparr>
             else setLogBuffer ?L1 (int i) (reset lb)"
  have "tx_abort tx logs = Some (NLDB_OK, tx\<lparr>tx_txEvent := None\<rparr>, ?L2)"
    using i(3,6) f(1) getLogBuffer_lg [OF i(1,2)] getLogBuffer_lg [OF ring [OF i(1)] i(2), of ?lb] lg_setLogBuffer [OF i(1,2), of ?lb i]
    by (simp add: tx_abort_def tx_end_def commitCurrentTransactionEvent_def Let_def)
  moreover have "lg (X\<lparr>tl_ring := rb_Publish (tl_ring X) q, tl_currentSequence := - 1\<rparr>) i = lg X i" for X q by (simp add: lg_def rb_Publish_def)
  then have "holds_logs (lg ?L2 i) []"
    using f(2) r lg_setLogBuffer [OF ring [OF i(1)] i(2), of ?lb lb i] lg_setLogBuffer [OF ring [OF ring [OF i(1)]] i(2), of ?lb lb "reset lb" i]
    by simp
  ultimately show ?thesis by (rule that [OF i(3)])
qed

lemma end_solo:
  assumes "busy_logs tx logs rs"
  obtains tx' logs' where "tx_commit tx logs = Some (NLDB_OK, tx', logs')" "idle_logs tx' logs'"
proof -
  note b = busy_logsD [OF assms]
  let ?q = "tl_currentSequence logs"
  obtain lb where f: "finalize (lg logs (sl ?q)) = Some lb" "holds_logs lb rs" using finalize_spec [OF b(5,7)] by blast
  let ?logs = "setLogBuffer (setLogBuffer logs (int (sl ?q)) lb) (int (sl ?q)) (reset lb)"
  have "tx_commit tx logs = Some (NLDB_OK, tx\<lparr>tx_txEvent := None\<rparr>, ?logs)"
    using b(2,4) f(1) getLogBuffer_lg [OF b(1) sl_less, of ?q] by (simp add: tx_commit_def tx_end_def hasReplicators_def)
  moreover have "clean (reset lb)"
    using holds_logs_clear(2) [OF holds_logs_buffer [OF f(2)]] by (simp add: clean_def) (simp add: reset_def clearLog_def)
  then have "idle_logs (tx\<lparr>tx_txEvent := None\<rparr>) ?logs"
    using b(1,2,3) lg_setLogBuffer [of "setLogBuffer logs (int (sl ?q)) lb" "sl ?q" "reset lb"] sl_less [of ?q] by (simp add: idle_logs_def)
  ultimately show ?thesis by (rule that)
qed

end
