(* ===== verification/Table_Client.thy ===== *)
theory Table_Client
  imports Plugin_Contract Solo_Logs Nldb
begin

text \<open>
  The database layer as a client of a table plugin: an update of a table through \<^verbatim>\<open>nldb_table_put\<close> or \<^verbatim>\<open>nldb_table_del\<close> changes the
  table and appends one record to the log of the transaction, so that after any permitted sequence of updates the log is exactly the list of
  the updates, for whatever plugin keeps the contract.
\<close>

fun op_record :: "int \<Rightarrow> byte list table_op \<Rightarrow> log_record" where
  "op_record t (Put k v) = put_record t k v"
| "op_record t (Del k) = del_record t k"

fun nldb_update :: "'w table_impl \<Rightarrow> tx_impl \<Rightarrow> byte list table_op \<Rightarrow> 'w \<times> tx_logs \<Rightarrow> (nldb_rc_t \<times> 'w \<times> tx_logs) option" where
  "nldb_update tab tx (Put k v) (w, logs) = nldb_table_put w tx logs tab (the_key k) (the_value v)"
| "nldb_update tab tx (Del k) (w, logs) = nldb_table_del w tx logs tab (the_key k)"

fun nldb_updates :: "'w table_impl \<Rightarrow> tx_impl \<Rightarrow> byte list table_op list \<Rightarrow> 'w \<times> tx_logs \<Rightarrow> ('w \<times> tx_logs) option" where
  "nldb_updates tab tx [] st = Some st"
| "nldb_updates tab tx (p # ps) st =
     do { (rc, st') \<leftarrow> nldb_update tab tx p st; if rc \<noteq> NLDB_OK then None else nldb_updates tab tx ps st' }"

lemma record_ok_simps:
  "record_ok (put_record t k v) \<longleftrightarrow> 0 < t \<and> t \<le> 65536 \<and> length k < 2 ^ 16 \<and> length v < 2 ^ 16"
  "record_ok (del_record t k) \<longleftrightarrow> 0 < t \<and> t \<le> 65536 \<and> length k < 2 ^ 16"
  by (auto simp: record_ok_def put_record_def del_record_def)

context table_plugin
begin

lemma nldb_put_law:
  assumes rep: "rep w (ti_context tab) kl ys" and tab: "ti_plugin tab = pl" and log: "tx_log tx logs rs"
    and key: "describes_key key k" "length k = kl" and val: "describes_value val v" and cap: "length ys < cap"
    and t: "0 < ti_table_id tab" "ti_table_id tab \<le> 65536"
    and room: "16 + logs_size rs + record_size (put_record (ti_table_id tab) k v) < TX_REPLICATION_MESSAGE_SIZE"
  obtains w' logs' where "nldb_table_put w tx logs tab key val = Some (NLDB_OK, w', logs')"
    "rep w' (ti_context tab) kl (ord_put k v ys)" "frame rep (ti_context tab) w w'"
    "log_extended tx logs (rs @ [put_record (ti_table_id tab) k v]) logs'"
proof -
  obtain w' where w': "pl_table_put pl w (ti_context tab) key val = Some (NLDB_OK, w')"
      "rep w' (ti_context tab) kl (ord_put k v ys)" "frame rep (ti_context tab) w w'"
    using put_law [OF rep key val cap] by blast
  have "record_ok (put_record (ti_table_id tab) k v)"
    using t key val by (simp add: record_ok_simps describes_key_def describes_value_def)
  then obtain logs' where "append_log_put tx logs (ti_table_id tab) key val = Some (NLDB_OK, logs')"
      "log_extended tx logs (rs @ [put_record (ti_table_id tab) k v]) logs'"
    by (rule append_put_log [OF log _ room key(1) val])
  with w' show ?thesis using tab by (intro that [of w' logs']) (simp_all add: nldb_table_put_def ti_put_def)
qed

lemma nldb_del_law:
  assumes rep: "rep w (ti_context tab) kl ys" and tab: "ti_plugin tab = pl" and log: "tx_log tx logs rs"
    and key: "describes_key key k" "length k = kl" and present: "map_of ys k \<noteq> None"
    and t: "0 < ti_table_id tab" "ti_table_id tab \<le> 65536"
    and room: "16 + logs_size rs + record_size (del_record (ti_table_id tab) k) < TX_REPLICATION_MESSAGE_SIZE"
  obtains w' logs' where "nldb_table_del w tx logs tab key = Some (NLDB_OK, w', logs')"
    "rep w' (ti_context tab) kl (ord_del k ys)" "frame rep (ti_context tab) w w'"
    "log_extended tx logs (rs @ [del_record (ti_table_id tab) k]) logs'"
proof -
  obtain w' where w': "pl_table_del pl w (ti_context tab) key = Some (NLDB_OK, w')"
      "rep w' (ti_context tab) kl (ord_del k ys)" "frame rep (ti_context tab) w w'"
    using del_law [OF rep key present] by blast
  have "record_ok (del_record (ti_table_id tab) k)" using t key by (simp add: record_ok_simps describes_key_def)
  then obtain logs' where "append_log_del tx logs (ti_table_id tab) key = Some (NLDB_OK, logs')"
      "log_extended tx logs (rs @ [del_record (ti_table_id tab) k]) logs'"
    by (rule append_del_log [OF log _ room key(1)])
  with w' show ?thesis using tab by (intro that [of w' logs']) (simp_all add: nldb_table_del_def ti_del_def)
qed

lemma nldb_update_law:
  assumes rep: "rep w (ti_context tab) kl ys" and tab: "ti_plugin tab = pl" and log: "tx_log tx logs rs"
    and p: "op_ok kl cap p ys" "value_ok p" and t: "0 < ti_table_id tab" "ti_table_id tab \<le> 65536"
    and room: "16 + logs_size rs + record_size (op_record (ti_table_id tab) p) < TX_REPLICATION_MESSAGE_SIZE"
  obtains w' logs' where "nldb_update tab tx p (w, logs) = Some (NLDB_OK, w', logs')"
    "rep w' (ti_context tab) kl (apply_op p ys)" "frame rep (ti_context tab) w w'"
    "log_extended tx logs (rs @ [op_record (ti_table_id tab) p]) logs'"
proof (cases p)
  case (Put k v)
  then have "describes_key (the_key k) k" "length k = kl" "describes_value (the_value v) v" "length ys < cap"
    using p rep_key_length [OF rep] by (auto intro: describes_the_key describes_the_value)
  then show ?thesis using Put room that nldb_put_law [OF rep tab log, of "the_key k" k "the_value v" v] t by auto
next
  case (Del k)
  then have "describes_key (the_key k) k" "length k = kl" "map_of ys k \<noteq> None"
    using p rep_key_length [OF rep] by (auto intro: describes_the_key)
  then show ?thesis using Del room that nldb_del_law [OF rep tab log, of "the_key k" k] t by auto
qed

lemma nldb_updates_law:
  assumes tab: "ti_plugin tab = pl" and t: "0 < ti_table_id tab" "ti_table_id tab \<le> 65536"
  shows "rep w (ti_context tab) kl ys \<Longrightarrow> tx_log tx logs rs \<Longrightarrow> ops_ok kl cap ps ys \<Longrightarrow> list_all value_ok ps \<Longrightarrow>
     16 + logs_size (rs @ map (op_record (ti_table_id tab)) ps) < TX_REPLICATION_MESSAGE_SIZE \<Longrightarrow>
     \<exists>w' logs'. nldb_updates tab tx ps (w, logs) = Some (w', logs') \<and> rep w' (ti_context tab) kl (fold apply_op ps ys) \<and>
       frame rep (ti_context tab) w w' \<and> tx_log tx logs' (rs @ map (op_record (ti_table_id tab)) ps)"
proof (induction ps arbitrary: w logs ys rs)
  case (Cons p ps)
  have room: "16 + logs_size rs + record_size (op_record (ti_table_id tab) p) < 65536" using Cons.prems(5) by simp
  obtain w1 logs1 where u: "nldb_update tab tx p (w, logs) = Some (NLDB_OK, w1, logs1)" "rep w1 (ti_context tab) kl (apply_op p ys)"
      "frame rep (ti_context tab) w w1" "log_extended tx logs (rs @ [op_record (ti_table_id tab) p]) logs1"
    using nldb_update_law [OF Cons.prems(1) tab Cons.prems(2) _ _ t room] Cons.prems(3,4) by auto
  have "tx_log tx logs1 (rs @ [op_record (ti_table_id tab) p])"
    by (rule log_extended_tx_log [OF u(4) Cons.prems(2)])
  from Cons.IH [OF u(2) this] Cons.prems(3-5) u(1,3) show ?case by (auto simp: frame_def)
qed (simp add: frame_def)

end

end
