(* ===== verification/Redoer.thy ===== *)
theory Redoer
  imports Nldb
begin

text \<open>
  Model of the slave side of replication: \<^verbatim>\<open>nldb_transaction_log_redoer.h\<close>, the function \<^verbatim>\<open>applyReplicationMessage\<close> of
  \<^verbatim>\<open>nldb_transaction_log_buffer.h\<close> and the receiving loop of \<^verbatim>\<open>nldb_repl_slave_thread.cpp\<close>.

  The state of a slave consists of the memory of the plugins, the database, the redoer, and the function-local static
  variables \<^verbatim>\<open>nextTxId\<close> of \<^verbatim>\<open>nldb_tx_impl_t::begin\<close> and \<^verbatim>\<open>prevTransactionId\<close> of \<^verbatim>\<open>applyReplicationMessage\<close>. The calls of the trigger handler
  are recorded in order. Pointers into a message are represented by the bytes from there to the end of the message, the null pointer
  by no bytes. Here a slave is given the list of messages that it receives; the sockets are
  the subject of \<^verbatim>\<open>Sockets\<close>.
\<close>

section \<open>State\<close>

abbreviation (input) TT_PUT :: int where "TT_PUT \<equiv> 1"
abbreviation (input) TT_DEL :: int where "TT_DEL \<equiv> 2"

record 'w redoer =
  rd_tx :: tx_impl
  rd_tables :: "'w table_impl option list"
  rd_trigger_handler :: bool
  rd_triggered :: "(int \<times> int \<times> nldb_key_t \<times> nldb_value_t) list"

record ('l, 't) slave =
  sv_world :: "('l, 't) world"
  sv_db :: db_impl
  sv_redoer :: "('l, 't) world redoer"
  sv_nextTxId :: int
  sv_prevTransactionId :: int

section \<open>The redoer\<close>

definition redoer_new :: "bool \<Rightarrow> 'w redoer" where
  "redoer_new trigger_handler =
     \<lparr>rd_tx = tx_impl_new, rd_tables = replicate (nat (NLDB_MAX_TABLE_COUNT_PER_DB + 1)) None,
      rd_trigger_handler = trigger_handler, rd_triggered = []\<rparr>"

definition redoer_init :: "ptr \<Rightarrow> 'w redoer \<Rightarrow> nldb_rc_t \<times> 'w redoer" where
  "redoer_init db rd = (case nldb_tx_init db of (rc, None) \<Rightarrow> (rc, rd) | (rc, Some tx) \<Rightarrow> (rc, rd\<lparr>rd_tx := tx\<rparr>))"

definition beginTransaction :: "('l, 't) slave \<Rightarrow> (nldb_rc_t \<times> ('l, 't) slave) option" where
  "beginTransaction s =
     do { (rc, tx, logs, nextTxId) \<leftarrow> nldb_tx_begin (rd_tx (sv_redoer s)) (db_tx_logs (sv_db s)) (sv_nextTxId s);
          Some (rc, s\<lparr>sv_db := (sv_db s)\<lparr>db_tx_logs := logs\<rparr>, sv_redoer := (sv_redoer s)\<lparr>rd_tx := tx\<rparr>, sv_nextTxId := nextTxId\<rparr>) }"

definition commitTransaction :: "('l, 't) slave \<Rightarrow> (nldb_rc_t \<times> ('l, 't) slave) option" where
  "commitTransaction s =
     do { (rc, tx, logs) \<leftarrow> nldb_tx_commit (rd_tx (sv_redoer s)) (db_tx_logs (sv_db s));
          Some (rc, s\<lparr>sv_db := (sv_db s)\<lparr>db_tx_logs := logs\<rparr>, sv_redoer := (sv_redoer s)\<lparr>rd_tx := tx\<rparr>\<rparr>) }"

definition abortTransaction :: "('l, 't) slave \<Rightarrow> (nldb_rc_t \<times> ('l, 't) slave) option" where
  "abortTransaction s =
     do { (rc, tx, logs) \<leftarrow> nldb_tx_abort (rd_tx (sv_redoer s)) (db_tx_logs (sv_db s));
          Some (rc, s\<lparr>sv_db := (sv_db s)\<lparr>db_tx_logs := logs\<rparr>, sv_redoer := (sv_redoer s)\<lparr>rd_tx := tx\<rparr>\<rparr>) }"

text \<open>\<^verbatim>\<open>getOpenTable\<close> opens the table when it is used for the first time. The table is \<^term>\<open>None\<close> when the output parameter is left null.\<close>

definition getOpenTable ::
    "'l leveldb \<Rightarrow> ('l, 't) world plugin_registry \<Rightarrow> ('l, 't) slave \<Rightarrow> int
      \<Rightarrow> (nldb_rc_t \<times> ('l, 't) world table_impl option \<times> ('l, 't) slave) option" where
  "getOpenTable lib reg s tableId =
     (if \<not> tableId \<le> NLDB_MAX_TABLE_COUNT_PER_DB then None
      else do {
        slot \<leftarrow> mem_get (rd_tables (sv_redoer s)) tableId;
        case slot of
          Some table \<Rightarrow> Some (NLDB_OK, Some table, s)
        | None \<Rightarrow> do {
            (rc, table, w) \<leftarrow> nldb_table_open lib reg (sv_world s) (sv_db s) tableId;
            if rc \<noteq> NLDB_OK then Some (rc, None, s\<lparr>sv_world := w\<rparr>)
            else Some (NLDB_OK, table,
                       s\<lparr>sv_world := w,
                         sv_redoer := (sv_redoer s)\<lparr>rd_tables := (rd_tables (sv_redoer s))[nat tableId := table]\<rparr>\<rparr>) } })"

definition call_trigger :: "int \<Rightarrow> int \<Rightarrow> nldb_key_t \<Rightarrow> nldb_value_t \<Rightarrow> ('l, 't) slave \<Rightarrow> ('l, 't) slave" where
  "call_trigger trigger_type tableId key value s =
     (if rd_trigger_handler (sv_redoer s)
      then s\<lparr>sv_redoer := (sv_redoer s)\<lparr>rd_triggered := rd_triggered (sv_redoer s) @ [(trigger_type, tableId, key, value)]\<rparr>\<rparr>
      else s)"

text \<open>
  \<^verbatim>\<open>redoLog\<close> passes \<^verbatim>\<open>sizeof(valueLength)\<close>, which is 2, as the length of the value. It does not look at the return code of
  \<^verbatim>\<open>getOpenTable\<close> and then goes through the null pointer.
\<close>

definition redoLog ::
    "'l leveldb \<Rightarrow> ('l, 't) world plugin_registry \<Rightarrow> ('l, 't) slave \<Rightarrow> int \<Rightarrow> log_type_t
      \<Rightarrow> byte list \<Rightarrow> 16 word \<Rightarrow> byte list \<Rightarrow> 16 word \<Rightarrow> (nldb_rc_t \<times> ('l, 't) slave) option" where
  "redoLog lib reg s tableId logType keyData keyLength valueData valueLength =
     do { (_, table, s1) \<leftarrow> getOpenTable lib reg s tableId;
          let nldb_key = \<lparr>key_data = keyData, key_len = keyLength\<rparr>;
          if logType = LT_PUT then do {
            let nldb_value = \<lparr>value_data = valueData, value_len = 2\<rparr>;
            tab \<leftarrow> table;
            (rc, w, logs) \<leftarrow> nldb_table_put (sv_world s1) (rd_tx (sv_redoer s1)) (db_tx_logs (sv_db s1)) tab nldb_key nldb_value;
            let s2 = s1\<lparr>sv_world := w, sv_db := (sv_db s1)\<lparr>db_tx_logs := logs\<rparr>\<rparr>;
            Some (if rc \<noteq> NLDB_OK then (rc, s2) else (NLDB_OK, call_trigger TT_PUT tableId nldb_key nldb_value s2)) }
          else if logType = LT_DEL then do {
            tab \<leftarrow> table;
            (rc, w, logs) \<leftarrow> nldb_table_del (sv_world s1) (rd_tx (sv_redoer s1)) (db_tx_logs (sv_db s1)) tab nldb_key;
            let s2 = s1\<lparr>sv_world := w, sv_db := (sv_db s1)\<lparr>db_tx_logs := logs\<rparr>\<rparr>;
            Some (if rc \<noteq> NLDB_OK then (rc, s2)
                  else (NLDB_OK, call_trigger TT_DEL tableId nldb_key \<lparr>value_data = [], value_len = 0\<rparr> s2)) }
          else None }"

section \<open>Applying a replication message\<close>

definition bytes_at :: "byte list \<Rightarrow> int option \<Rightarrow> byte list" where
  "bytes_at msg addr = (case addr of None \<Rightarrow> [] | Some a \<Rightarrow> drop (nat a) msg)"

text \<open>The loop over the log records, up to the address \<open>limit\<close>. The lengths of type \<^verbatim>\<open>size_t\<close> are narrowed to 16 bits for \<^verbatim>\<open>redoLog\<close>.\<close>

partial_function (option) redo_logs ::
    "'l leveldb \<Rightarrow> ('l, 't) world plugin_registry \<Rightarrow> byte list \<Rightarrow> int \<Rightarrow> int \<Rightarrow> ('l, 't) slave \<Rightarrow> (nldb_rc_t \<times> ('l, 't) slave) option" where
  "redo_logs lib reg msg logRecord limit s =
     (if logRecord < limit
      then do {
        p \<leftarrow> parseLog msg logRecord;
        (rc, s') \<leftarrow> redoLog lib reg s (pl_tableId p) (pl_logType p) (bytes_at msg (Some (pl_keyData p))) (ucast (pl_keyLength p))
                     (bytes_at msg (pl_valueData p)) (ucast (pl_valueLength p));
        if rc \<noteq> NLDB_OK then Some (rc, s')
        else redo_logs lib reg msg (logRecord + uint (calcLogSize (pl_keyLength p) (pl_valueLength p))) limit s' }
      else Some (NLDB_OK, s))"

declare redo_logs.simps [code]

definition message_transactionId :: "byte list \<Rightarrow> int option" where
  "message_transactionId msg = do { b \<leftarrow> mem_read msg 0 8; Some (sint (of_nat (le_value b) :: 64 word)) }"

definition applyReplicationMessage ::
    "'l leveldb \<Rightarrow> ('l, 't) world plugin_registry \<Rightarrow> byte list \<Rightarrow> ('l, 't) slave \<Rightarrow> (nldb_rc_t \<times> ('l, 't) slave) option" where
  "applyReplicationMessage lib reg msg s =
     do { _ \<leftarrow> checkReplicationMessage msg;
          logSize \<leftarrow> message_logSize msg;
          masterTxId \<leftarrow> message_transactionId msg;
          if sv_prevTransactionId s + 1 \<noteq> masterTxId then None
          else do {
            (rc, s1) \<leftarrow> beginTransaction (s\<lparr>sv_prevTransactionId := masterTxId\<rparr>);
            if rc \<noteq> NLDB_OK then Some (rc, s1)
            else do {
              (rc, s2) \<leftarrow> redo_logs lib reg msg 16 (16 + uint logSize) s1;
              if rc \<noteq> NLDB_OK
              then do { (abortRc, s3) \<leftarrow> abortTransaction s2; if abortRc \<noteq> NLDB_OK then None else Some (rc, s3) }
              else commitTransaction s2 } } }"

section \<open>The slave thread\<close>

definition slave_start :: "('l, 't) world \<Rightarrow> db_impl \<Rightarrow> ptr \<Rightarrow> bool \<Rightarrow> int \<Rightarrow> nldb_rc_t \<times> ('l, 't) slave" where
  "slave_start w db dbp trigger_handler nextTxId =
     (let (rc, rd) = redoer_init dbp (redoer_new trigger_handler)
      in (rc, \<lparr>sv_world = w, sv_db = db, sv_redoer = rd, sv_nextTxId = nextTxId,
               sv_prevTransactionId = INITIAL_TRANSACTION_ID - 1\<rparr>))"

text \<open>The loop of \<^verbatim>\<open>replication_slave_thread_func\<close> over the messages received; it asserts that each is applied with success.\<close>

fun replication_slave_thread_func ::
    "'l leveldb \<Rightarrow> ('l, 't) world plugin_registry \<Rightarrow> byte list list \<Rightarrow> ('l, 't) slave \<Rightarrow> ('l, 't) slave option" where
  "replication_slave_thread_func lib reg [] s = Some s"
| "replication_slave_thread_func lib reg (msg # msgs) s =
     do { (rc, s') \<leftarrow> applyReplicationMessage lib reg msg s;
          if rc \<noteq> NLDB_OK then None else replication_slave_thread_func lib reg msgs s' }"

end
