(* ===== verification/Replication.thy ===== *)
theory Replication
  imports Table_Client Redoer
begin

text \<open>
  What a slave does with the messages of its master. The tables of the slave are described by a map from table ids to key length and
  content; each log record of a message changes one of them. As \<^verbatim>\<open>redoLog\<close> passes the size of the length field instead of the length, a
  put stores the first two bytes of the value. The lemmas are proved for any plugin that keeps the contract and interpreted for the array tree plugin.
\<close>

type_synonym tables = "int \<rightharpoonup> nat \<times> table_content"

section \<open>The effect of a log record\<close>

definition redo_content :: "log_record \<Rightarrow> table_content \<Rightarrow> table_content" where
  "redo_content r ys = (if lr_type r = LT_PUT then ord_put (lr_key r) (take 2 (lr_value r)) ys else ord_del (lr_key r) ys)"

definition redo :: "log_record \<Rightarrow> tables \<Rightarrow> tables" where
  "redo r T = (case T (lr_table r) of None \<Rightarrow> T | Some (kl, ys) \<Rightarrow> T(lr_table r \<mapsto> (kl, redo_content r ys)))"

definition redo_ok :: "nat \<Rightarrow> log_record \<Rightarrow> tables \<Rightarrow> bool" where
  "redo_ok cap r T \<longleftrightarrow> record_ok r \<and> (\<exists>kl ys. T (lr_table r) = Some (kl, ys) \<and> length (lr_key r) = kl \<and>
     (lr_type r = LT_PUT \<and> 2 \<le> length (lr_value r) \<and> length ys < cap \<or>
      lr_type r = LT_DEL \<and> lr_value r = [] \<and> map_of ys (lr_key r) \<noteq> None))"

fun redos_ok :: "nat \<Rightarrow> log_record list \<Rightarrow> tables \<Rightarrow> bool" where
  "redos_ok cap [] T \<longleftrightarrow> True"
| "redos_ok cap (r # rs) T \<longleftrightarrow> redo_ok cap r T \<and> redos_ok cap rs (redo r T)"

lemma redos_ok_append: "redos_ok cap (rs @ rs') T \<longleftrightarrow> redos_ok cap rs T \<and> redos_ok cap rs' (fold redo rs T)"
  by (induction rs arbitrary: T) auto

text \<open>The record that the slave itself logs.\<close>

definition slave_record :: "log_record \<Rightarrow> log_record" where
  "slave_record r = (if lr_type r = LT_PUT then put_record (lr_table r) (lr_key r) (take 2 (lr_value r)) else del_record (lr_table r) (lr_key r))"

lemma al_mono: "m \<le> n \<Longrightarrow> al m \<le> al n"
  unfolding al_def by (intro mult_le_mono div_le_mono) simp_all

lemma slave_record_size: "record_size (slave_record r) \<le> record_size r"
proof -
  have "al (length (take 2 (lr_value r))) \<le> al (length (lr_value r))" by (rule al_mono) simp
  moreover have "al 0 = 0" by (simp add: al_def)
  ultimately show ?thesis by (simp add: record_size_def slave_record_def put_record_def del_record_def)
qed

lemma slave_records_size: "logs_size (map slave_record rs) \<le> logs_size rs"
proof (induction rs)
  case (Cons r rs)
  then show ?case using slave_record_size [of r] by simp
qed simp

section \<open>The state of a slave\<close>

definition slave_tables ::
    "('l, 't) world nldb_plugin_t \<Rightarrow> (('l, 't) world \<Rightarrow> ptr \<Rightarrow> nat \<Rightarrow> table_content \<Rightarrow> bool) \<Rightarrow> ('l, 't) slave \<Rightarrow> tables \<Rightarrow> bool" where
  "slave_tables pl rep s T \<longleftrightarrow> length (rd_tables (sv_redoer s)) = 65537 \<and>
     (\<exists>open_table. inj_on (\<lambda>t. ti_context (open_table t)) (dom T) \<and>
       (\<forall>t kl ys. T t = Some (kl, ys) \<longrightarrow> 0 < t \<and> t \<le> 65536 \<and> rd_tables (sv_redoer s) ! nat t = Some (open_table t) \<and>
          ti_plugin (open_table t) = pl \<and> ti_table_id (open_table t) = t \<and> rep (sv_world s) (ti_context (open_table t)) kl ys))"

text \<open>What is unchanged while a message is applied.\<close>

abbreviation (input) slave_tx :: "('l, 't) slave \<Rightarrow> tx_impl" where "slave_tx s \<equiv> rd_tx (sv_redoer s)"
abbreviation (input) slave_logs :: "('l, 't) slave \<Rightarrow> tx_logs" where "slave_logs s \<equiv> db_tx_logs (sv_db s)"

definition idle_slave ::
    "('l, 't) world nldb_plugin_t \<Rightarrow> (('l, 't) world \<Rightarrow> ptr \<Rightarrow> nat \<Rightarrow> table_content \<Rightarrow> bool) \<Rightarrow> ('l, 't) slave \<Rightarrow> tables \<Rightarrow> bool" where
  "idle_slave pl rep s T \<longleftrightarrow> slave_tables pl rep s T \<and> idle_logs (slave_tx s) (slave_logs s) \<and> 0 < sv_nextTxId s"

definition busy_slave ::
    "('l, 't) world nldb_plugin_t \<Rightarrow> (('l, 't) world \<Rightarrow> ptr \<Rightarrow> nat \<Rightarrow> table_content \<Rightarrow> bool) \<Rightarrow> ('l, 't) slave \<Rightarrow> tables
      \<Rightarrow> log_record list \<Rightarrow> bool" where
  "busy_slave pl rep s T rs \<longleftrightarrow> slave_tables pl rep s T \<and> busy_logs (slave_tx s) (slave_logs s) rs \<and> 0 < sv_nextTxId s"

lemma getOpenTable_open:
  assumes "rd_tables (sv_redoer s) ! nat t = Some tab" "length (rd_tables (sv_redoer s)) = 65537" "0 < t" "t \<le> 65536"
  shows "getOpenTable lib reg s t = Some (NLDB_OK, Some tab, s)"
  using assms by (simp add: getOpenTable_def mem_get_def)

lemma call_trigger_simps [simp]:
  "sv_world (call_trigger y t k v s) = sv_world s" "sv_db (call_trigger y t k v s) = sv_db s"
  "rd_tx (sv_redoer (call_trigger y t k v s)) = rd_tx (sv_redoer s)"
  "rd_tables (sv_redoer (call_trigger y t k v s)) = rd_tables (sv_redoer s)"
  "sv_nextTxId (call_trigger y t k v s) = sv_nextTxId s"
  "sv_prevTransactionId (call_trigger y t k v s) = sv_prevTransactionId s"
  by (simp_all add: call_trigger_def)

lemma slave_tables_update:
  assumes tabs: "slave_tables pl rep s T" and t: "T t = Some (kl, ys)" "rd_tables (sv_redoer s) ! nat t = Some tab"
    and w: "rep (sv_world s') (ti_context tab) kl zs" "frame rep (ti_context tab) (sv_world s) (sv_world s')"
    and same: "rd_tables (sv_redoer s') = rd_tables (sv_redoer s)"
  shows "slave_tables pl rep s' (T(t \<mapsto> (kl, zs)))"
proof -
  obtain f where inj: "inj_on (\<lambda>t. ti_context (f t)) (dom T)" and len: "length (rd_tables (sv_redoer s)) = 65537"
    and f: "\<forall>t kl ys. T t = Some (kl, ys) \<longrightarrow> 0 < t \<and> t \<le> 65536 \<and> rd_tables (sv_redoer s) ! nat t = Some (f t) \<and>
          ti_plugin (f t) = pl \<and> ti_table_id (f t) = t \<and> rep (sv_world s) (ti_context (f t)) kl ys"
    using tabs unfolding slave_tables_def by blast
  have dom: "dom (T(t \<mapsto> (kl, zs))) = dom T" using t(1) by auto
  have ft: "f t = tab" using f t by (metis option.inject)
  have other: "ti_context (f u) \<noteq> ti_context tab" if "T u = Some x" "u \<noteq> t" for u x
    using inj that t(1) ft by (metis domI inj_onD)
  have "0 < u \<and> u \<le> 65536 \<and> rd_tables (sv_redoer s') ! nat u = Some (f u) \<and> ti_plugin (f u) = pl \<and> ti_table_id (f u) = u \<and>
      rep (sv_world s') (ti_context (f u)) kl' ys'" if u: "(T(t \<mapsto> (kl, zs))) u = Some (kl', ys')" for u kl' ys'
  proof (cases "u = t")
    case True
    then show ?thesis using f t(1) u w(1) ft same by auto
  next
    case False
    then have "T u = Some (kl', ys')" using u by simp
    then show ?thesis using f frameD [OF w(2) other] False same by metis
  qed
  then show ?thesis unfolding slave_tables_def dom using inj len same by metis
qed

section \<open>Redoing a record\<close>

text \<open>Where the bytes of a record are found in a message.\<close>

lemma key_in_image:
  assumes "log_image r b"
  shows "\<exists>rest. bytes_at (as @ b @ cs) (Some (int (length as) + 24)) = lr_key r @ rest"
proof -
  obtain p1 p2 where "b = record_header r @ lr_key r @ p1 @ lr_value r @ p2" using assms unfolding log_image_def by blast
  moreover have "nat (int (length as) + 24) = length (as @ record_header r)" by simp
  ultimately show ?thesis by (simp add: bytes_at_def)
qed

lemma value_in_image:
  assumes "log_image r b"
  shows "\<exists>rest. bytes_at (as @ b @ cs) (Some (int (length as) + 24 + int (al (length (lr_key r))))) = lr_value r @ rest"
proof -
  obtain p1 p2 where b: "b = record_header r @ lr_key r @ p1 @ lr_value r @ p2" "length p1 = al (length (lr_key r)) - length (lr_key r)"
    using assms unfolding log_image_def by blast
  have "nat (int (length as) + 24 + int (al (length (lr_key r)))) = length (as @ record_header r @ lr_key r @ p1)"
    using al_ge [of "length (lr_key r)"] b(2) by simp
  then have "bytes_at (as @ b @ cs) (Some (int (length as) + 24 + int (al (length (lr_key r))))) =
      drop (length (as @ record_header r @ lr_key r @ p1)) ((as @ record_header r @ lr_key r @ p1) @ lr_value r @ p2 @ cs)"
    by (simp only: bytes_at_def option.case b(1) append.assoc)
  then show ?thesis by (simp only: append_eq_conv_conj) simp
qed

lemma ucast_64_16: "n < 2 ^ 16 \<Longrightarrow> (ucast (of_nat n :: 64 word) :: 16 word) = of_nat n"
  using of_nat_unat [where 'a = "16 word", of "of_nat n :: 64 word"] by (simp add: unat_of_nat64 del: of_nat_unat)

lemma message_transactionId_spec:
  assumes "0 \<le> txId" "txId < 2 ^ 63"
  shows "message_transactionId (message_header_bytes txId n @ body) = Some txId"
proof -
  have "mem_read (message_header_bytes txId n @ body) 0 8 = Some (le_bytes 8 (nat (txId mod 2 ^ 64)))"
    using mem_read_append [of 0 "[]" 8 "le_bytes 8 (nat (txId mod 2 ^ 64))"] by (simp add: message_header_bytes_def)
  moreover have "le_value (le_bytes 8 (nat (txId mod 2 ^ 64))) = nat txId"
    using assms by (simp add: le_value_le_bytes nat_mod_distrib [symmetric])
  moreover have "sint (of_nat (nat txId) :: 64 word) = txId"
    using assms by (simp add: sint_uint uint_word_of_int signed_take_bit_int_eq_self take_bit_eq_mod)
  ultimately show ?thesis by (simp add: message_transactionId_def)
qed

text \<open>The array that holds the messages is part of the memory of the messaging library, not of the plugins.\<close>

locale replicated_tables = table_plugin pl cap rep
  for pl :: "('l, 't) world nldb_plugin_t" and cap :: nat and rep :: "('l, 't) world \<Rightarrow> ptr \<Rightarrow> nat \<Rightarrow> table_content \<Rightarrow> bool"
begin

lemma redoLog_law:
  assumes busy: "busy_slave pl rep s T rs" and ok: "redo_ok cap r T"
    and room: "16 + logs_size rs + record_size (slave_record r) < TX_REPLICATION_MESSAGE_SIZE"
    and key: "keyData = lr_key r @ rest" and val: "lr_value r \<noteq> [] \<longrightarrow> valueData = lr_value r @ rest'"
  obtains s' where "redoLog lib reg s (lr_table r) (lr_type r) keyData (of_nat (length (lr_key r))) valueData vl = Some (NLDB_OK, s')"
    "busy_slave pl rep s' (redo r T) (rs @ [slave_record r])" "sv_prevTransactionId s' = sv_prevTransactionId s"
proof -
  let ?k = "lr_key r" and ?t = "lr_table r"
  have tabs: "slave_tables pl rep s T" and logs: "busy_logs (slave_tx s) (slave_logs s) rs" and nid: "0 < sv_nextTxId s"
    using busy by (auto simp: busy_slave_def)
  obtain kl ys where T: "T ?t = Some (kl, ys)" "length ?k = kl"
    and y: "lr_type r = LT_PUT \<and> 2 \<le> length (lr_value r) \<and> length ys < cap \<or> lr_type r = LT_DEL \<and> map_of ys ?k \<noteq> None"
    using ok by (auto simp: redo_ok_def)
  obtain tab where tab: "rd_tables (sv_redoer s) ! nat ?t = Some tab" "ti_plugin tab = pl" "ti_table_id tab = ?t"
      "rep (sv_world s) (ti_context tab) kl ys" "0 < ?t" "?t \<le> 65536" "length (rd_tables (sv_redoer s)) = 65537"
    using tabs T(1) unfolding slave_tables_def by blast
  note opened = getOpenTable_open [OF tab(1,7,5,6)] and log = busy_tx_log [OF logs]
  let ?key = "\<lparr>key_data = keyData, key_len = of_nat (length ?k)\<rparr>"
  have kd: "describes_key ?key ?k" using ok by (simp add: describes_key_def key redo_ok_def record_ok_def)
  note goal = that
  have finish: thesis
    if s': "redoLog lib reg s ?t (lr_type r) keyData (of_nat (length ?k)) valueData vl = Some (NLDB_OK, call_trigger y ?t ?key v s1)"
      "s1 = s\<lparr>sv_world := w', sv_db := (sv_db s)\<lparr>db_tx_logs := logs'\<rparr>\<rparr>"
      "rep w' (ti_context tab) kl (redo_content r ys)" "frame rep (ti_context tab) (sv_world s) w'"
      "log_extended (slave_tx s) (slave_logs s) (rs @ [slave_record r]) logs'" for y v s1 w' logs'
  proof -
    have "slave_tables pl rep (call_trigger y ?t ?key v s1) (redo r T)"
      using slave_tables_update [OF tabs T(1) tab(1), of "call_trigger y ?t ?key v s1" "redo_content r ys"] s'(2-4) T(1) by (simp add: redo_def)
    then have "busy_slave pl rep (call_trigger y ?t ?key v s1) (redo r T) (rs @ [slave_record r])"
      using log_extended_busy [OF s'(5) logs] nid s'(2) by (simp add: busy_slave_def)
    then show thesis using goal s'(1,2) by simp
  qed
  show thesis
  proof (cases "lr_type r = LT_PUT")
    case True
    let ?v = "take 2 (lr_value r)" and ?val = "\<lparr>value_data = valueData, value_len = 2\<rparr>"
    have y': "2 \<le> length (lr_value r)" "length ys < cap" using y True by auto
    have vd: "describes_value ?val ?v"
      using y'(1) val by (auto simp: describes_value_def min_def intro: exI [of _ "drop 2 (lr_value r) @ rest'"])
    have room': "16 + logs_size rs + record_size (put_record (ti_table_id tab) ?k ?v) < 65536"
      using room True tab(3) by (simp add: slave_record_def)
    obtain w' logs' where n: "nldb_table_put (sv_world s) (slave_tx s) (slave_logs s) tab ?key ?val = Some (NLDB_OK, w', logs')"
        "rep w' (ti_context tab) kl (ord_put ?k ?v ys)" "frame rep (ti_context tab) (sv_world s) w'"
        "log_extended (slave_tx s) (slave_logs s) (rs @ [put_record (ti_table_id tab) ?k ?v]) logs'"
      by (rule nldb_put_law [OF tab(4,2) log kd T(2) vd y'(2) _ _ room']) (use tab in auto)
    show thesis
      by (rule finish [where y = TT_PUT and v = ?val and w' = w' and logs' = logs', OF _ refl])
        (use n opened True tab(3) in \<open>simp_all add: redoLog_def redo_content_def slave_record_def\<close>)
  next
    case False
    then have y': "lr_type r = LT_DEL" "map_of ys ?k \<noteq> None" using y by auto
    have room': "16 + logs_size rs + record_size (del_record (ti_table_id tab) ?k) < 65536"
      using room False tab(3) by (simp add: slave_record_def)
    obtain w' logs' where n: "nldb_table_del (sv_world s) (slave_tx s) (slave_logs s) tab ?key = Some (NLDB_OK, w', logs')"
        "rep w' (ti_context tab) kl (ord_del ?k ys)" "frame rep (ti_context tab) (sv_world s) w'"
        "log_extended (slave_tx s) (slave_logs s) (rs @ [del_record (ti_table_id tab) ?k]) logs'"
      by (rule nldb_del_law [OF tab(4,2) log kd T(2) y'(2) _ _ room']) (use tab in auto)
    show thesis
      by (rule finish [where y = TT_DEL and v = "\<lparr>value_data = [], value_len = 0\<rparr>" and w' = w' and logs' = logs', OF _ refl])
        (use n opened y'(1) tab(3) in \<open>simp_all add: redoLog_def redo_content_def slave_record_def\<close>)
  qed
qed

text \<open>The loop over the records of a message.\<close>

lemma redo_logs_law:
  "logs_image rs body \<Longrightarrow> redos_ok cap rs T \<Longrightarrow> busy_slave pl rep s T ds \<Longrightarrow>
     16 + logs_size ds + logs_size (map slave_record rs) < TX_REPLICATION_MESSAGE_SIZE \<Longrightarrow>
     \<exists>s'. redo_logs lib reg (as @ body) (int (length as)) (int (length (as @ body))) s = Some (NLDB_OK, s') \<and>
       busy_slave pl rep s' (fold redo rs T) (ds @ map slave_record rs) \<and> sv_prevTransactionId s' = sv_prevTransactionId s"
proof (induction rs arbitrary: as body T s ds)
  case Nil
  then show ?case by (subst redo_logs.simps) simp
next
  case (Cons r rs)
  obtain b cs where body: "body = b @ cs" and img: "log_image r b" "logs_image rs cs" using Cons.prems(1) by auto
  have ok: "redo_ok cap r T" "redos_ok cap rs (redo r T)" "record_ok r" using Cons.prems(2) by (auto simp: redo_ok_def)
  have len: "length (lr_key r) < 2 ^ 16" "length (lr_value r) < 2 ^ 16" using ok(3) by (simp_all add: record_ok_def)
  note parse = parseLog_spec [OF img(1) ok(3), of as cs]
  obtain rest where kd: "bytes_at (as @ b @ cs) (Some (int (length as) + 24)) = lr_key r @ rest"
    using key_in_image [OF img(1), of as cs] by blast
  obtain rest' where vd: "bytes_at (as @ b @ cs) (Some (int (length as) + 24 + int (al (length (lr_key r))))) = lr_value r @ rest'"
    using value_in_image [OF img(1), of as cs] by blast
  let ?va = "if lr_value r = [] then None else Some (int (length as) + 24 + int (al (length (lr_key r))))"
  have vd': "lr_value r \<noteq> [] \<longrightarrow> bytes_at (as @ b @ cs) ?va = lr_value r @ rest'" using vd by simp
  have room: "16 + logs_size ds + record_size (slave_record r) < 65536" using Cons.prems(4) by simp
  obtain s1 where s1: "redoLog lib reg s (lr_table r) (lr_type r) (bytes_at (as @ b @ cs) (Some (int (length as) + 24)))
        (of_nat (length (lr_key r))) (bytes_at (as @ b @ cs) ?va) (ucast (of_nat (length (lr_value r)) :: 64 word)) = Some (NLDB_OK, s1)"
      "busy_slave pl rep s1 (redo r T) (ds @ [slave_record r])" "sv_prevTransactionId s1 = sv_prevTransactionId s"
    by (rule redoLog_law [OF Cons.prems(3) ok(1) room kd vd'])
  obtain s' where s': "redo_logs lib reg ((as @ b) @ cs) (int (length (as @ b))) (int (length ((as @ b) @ cs))) s1 = Some (NLDB_OK, s')"
      "busy_slave pl rep s' (fold redo rs (redo r T)) ((ds @ [slave_record r]) @ map slave_record rs)"
      "sv_prevTransactionId s' = sv_prevTransactionId s1"
    using Cons.IH [OF img(2) ok(2) s1(2), of "as @ b"] Cons.prems(4) by auto
  have nxt: "int (length as) + uint (calcLogSize (of_nat (length (lr_key r))) (of_nat (length (lr_value r)))) = int (length (as @ b))"
    using unat_calcLogSize [OF len] log_image_length [OF img(1)] by (simp add: uint_unat record_size_def del: of_nat_unat)
  have pos: "0 < int (length b) + int (length cs)" using log_image_length [OF img(1)] by (simp add: record_size_def)
  have "redo_logs lib reg (as @ b @ cs) (int (length as)) (int (length (as @ b @ cs))) s = Some (NLDB_OK, s')"
    using pos parse s1(1) s'(1) nxt ucast_64_16 [OF len(1)] by (subst redo_logs.simps) simp
  then show ?case using s'(2,3) s1(3) body by auto
qed

text \<open>A whole message.\<close>

lemma apply_law:
  assumes idle: "idle_slave pl rep s T" and msg: "message_image (sv_prevTransactionId s + 1) rs msg" and ok: "redos_ok cap rs T"
    and tx: "- 1 \<le> sv_prevTransactionId s" "sv_prevTransactionId s < 2 ^ 63 - 1"
  obtains s' where "applyReplicationMessage lib reg msg s = Some (NLDB_OK, s')" "idle_slave pl rep s' (fold redo rs T)"
    "sv_prevTransactionId s' = sv_prevTransactionId s + 1"
proof -
  let ?id = "sv_prevTransactionId s + 1"
  let ?s = "s\<lparr>sv_prevTransactionId := ?id\<rparr>"
  obtain body where m: "msg = message_header_bytes ?id (of_nat (length body)) @ body" "logs_image rs body" "length msg < 65536"
    using msg unfolding message_image_def by blast
  have idle': "slave_tables pl rep s T" "idle_logs (slave_tx s) (slave_logs s)" "0 < sv_nextTxId s" using idle by (auto simp: idle_slave_def)
  obtain tx' logs' where b: "tx_begin (slave_tx s) (slave_logs s) (sv_nextTxId s) = Some (NLDB_OK, tx', logs', sv_nextTxId s + 1)"
      "busy_logs tx' logs' []"
    by (rule begin_solo [OF idle'(2,3)])
  let ?s1 = "?s\<lparr>sv_db := (sv_db s)\<lparr>db_tx_logs := logs'\<rparr>, sv_redoer := (sv_redoer s)\<lparr>rd_tx := tx'\<rparr>, sv_nextTxId := sv_nextTxId s + 1\<rparr>"
  have bt: "beginTransaction ?s = Some (NLDB_OK, ?s1)" using b(1) by (simp add: beginTransaction_def tx_methods)
  have busy: "busy_slave pl rep ?s1 T []" using idle' b(2) by (simp add: busy_slave_def slave_tables_def)
  have "length body = logs_size rs" by (rule logs_image_length [OF m(2)])
  then have room: "16 + logs_size [] + logs_size (map slave_record rs) < 65536" using slave_records_size [of rs] m(1,3) by simp
  obtain s2 where s2: "redo_logs lib reg msg 16 (int (length msg)) ?s1 = Some (NLDB_OK, s2)"
      "busy_slave pl rep s2 (fold redo rs T) ([] @ map slave_record rs)" "sv_prevTransactionId s2 = ?id"
    using redo_logs_law [OF m(2) ok busy room, of lib reg "message_header_bytes ?id (of_nat (length body))"] m(1) by auto
  have size: "16 + uint (of_nat (length body) :: 64 word) = int (length msg)"
    using m(1,3) unat_of_nat64 [of "length body"] by (simp add: uint_unat del: of_nat_unat)
  obtain tx3 logs3 where c: "tx_commit (slave_tx s2) (slave_logs s2) = Some (NLDB_OK, tx3, logs3)" "idle_logs tx3 logs3"
    using end_solo s2(2) unfolding busy_slave_def by blast
  let ?s3 = "s2\<lparr>sv_db := (sv_db s2)\<lparr>db_tx_logs := logs3\<rparr>, sv_redoer := (sv_redoer s2)\<lparr>rd_tx := tx3\<rparr>\<rparr>"
  have commit: "commitTransaction s2 = Some (NLDB_OK, ?s3)" using c(1) by (simp add: commitTransaction_def tx_methods)
  have "applyReplicationMessage lib reg msg s = Some (NLDB_OK, ?s3)"
    using checkReplicationMessage_ok [OF msg] message_logSize_spec [of body ?id] message_transactionId_spec [of ?id "of_nat (length body)" body]
      m(1,3) tx bt s2(1) size commit by (simp add: applyReplicationMessage_def)
  moreover have "idle_slave pl rep ?s3 (fold redo rs T)" using s2(2) c(2) by (simp add: idle_slave_def busy_slave_def slave_tables_def)
  ultimately show ?thesis using that s2(3) by simp
qed

text \<open>A sequence of messages with consecutive transaction ids.\<close>

lemma thread_law:
  "idle_slave pl rep s T \<Longrightarrow> length msgs = length rss \<Longrightarrow>
     \<forall>i<length msgs. message_image (sv_prevTransactionId s + 1 + int i) (rss ! i) (msgs ! i) \<Longrightarrow> redos_ok cap (concat rss) T \<Longrightarrow>
     - 1 \<le> sv_prevTransactionId s \<Longrightarrow> sv_prevTransactionId s + int (length msgs) < 2 ^ 63 \<Longrightarrow>
     \<exists>s'. replication_slave_thread_func lib reg msgs s = Some s' \<and> idle_slave pl rep s' (fold redo (concat rss) T) \<and>
       sv_prevTransactionId s' = sv_prevTransactionId s + int (length msgs)"
proof (induction msgs arbitrary: s T rss)
  case (Cons msg msgs)
  obtain rs rss' where rss: "rss = rs # rss'" using Cons.prems(2) by (cases rss) auto
  have ok: "redos_ok cap rs T" "redos_ok cap (concat rss') (fold redo rs T)" using Cons.prems(4) by (auto simp: rss redos_ok_append)
  have img: "message_image (sv_prevTransactionId s + 1) rs msg" using Cons.prems(3) [rule_format, of 0] by (simp add: rss)
  obtain s1 where s1: "applyReplicationMessage lib reg msg s = Some (NLDB_OK, s1)" "idle_slave pl rep s1 (fold redo rs T)"
      "sv_prevTransactionId s1 = sv_prevTransactionId s + 1"
    by (rule apply_law [OF Cons.prems(1) img ok(1)]) (use Cons.prems(5,6) in auto)
  have "\<forall>i<length msgs. message_image (sv_prevTransactionId s1 + 1 + int i) (rss' ! i) (msgs ! i)"
  proof (intro allI impI)
    fix i assume "i < length msgs"
    then show "message_image (sv_prevTransactionId s1 + 1 + int i) (rss' ! i) (msgs ! i)"
      using Cons.prems(3) [rule_format, of "Suc i"] s1(3) by (simp add: rss add.assoc)
  qed
  from Cons.IH [OF s1(2) _ this ok(2)] show ?case using s1 Cons.prems(2,5,6) by (auto simp: rss)
qed simp

end

section \<open>The array tree plugin\<close>

interpretation at_slave: replicated_tables "plugin_array_tree garbage" "2 ^ 31 - 1" at_rep
  for garbage
  by unfold_locales

end
