(* ===== verification/Replication_Properties.thy ===== *)
theory Replication_Properties
  imports Replication Master_Properties
begin

text \<open>
  What replication guarantees for tables of the array tree plugin, from the transactions of the master to the tables of the slave, and where it
  fails: values that are not two bytes long.
\<close>

section \<open>The effect on the master\<close>




section \<open>A slave for the examples\<close>

text \<open>Table 1 is open and empty, with keys of one byte; there is no other table.\<close>

definition sample_garbage :: cursor_context where
  "sample_garbage = \<lparr>cur_iter = \<lparr>current_node = 0, key_iter = \<lparr>it_key_pos = 0, it_data_pos = 0\<rparr>\<rparr>, cur_dir = 0, cur_key_order = 0\<rparr>"

definition sample_table :: "(unit, unit) world table_impl" where
  "sample_table = \<lparr>ti_table_id = 1, ti_plugin_id = 1, ti_plugin = plugin_array_tree sample_garbage, ti_desc = fresh_desc, ti_context = 5\<rparr>"

definition sample_world :: "(unit, unit) world" where
  "sample_world = \<lparr>w_leveldb = (), w_tc = (), w_tables = [5 \<mapsto> table_context_new], w_cursors = Map.empty,
     w_leveldb_cursors = Map.empty, w_next = 6\<rparr>"

definition sample_slave :: "(unit, unit) slave" where
  "sample_slave = (let s = snd (slave_start sample_world (db_impl_new sample_mems) 1 False 1)
     in s\<lparr>sv_redoer := (sv_redoer s)\<lparr>rd_tables := (rd_tables (sv_redoer s))[1 := Some sample_table]\<rparr>\<rparr>)"

lemma sample_at_rep: "at_rep sample_world 5 1 []"
  by (simp add: at_rep_def sample_world_def table_rep_of_def)

lemma sample_slave_fields:
  "sv_world sample_slave = sample_world" "rd_tables (sv_redoer sample_slave) = (replicate 65537 None)[1 := Some sample_table]"
  "sv_prevTransactionId sample_slave = 0" "sv_nextTxId sample_slave = 1"
  "db_tx_logs (sv_db sample_slave) = tx_logs_new sample_mems" "tx_txEvent (rd_tx (sv_redoer sample_slave)) = None"
  by (simp_all add: sample_slave_def slave_start_def redoer_init_def redoer_new_def nldb_tx_init_def tx_init_def tx_impl_new_def db_impl_new_def)

lemma sample_slave_idle: "idle_slave (plugin_array_tree sample_garbage) at_rep sample_slave [1 \<mapsto> (1, [])]"
proof -
  have "slave_tables (plugin_array_tree sample_garbage) at_rep sample_slave [1 \<mapsto> (1, [])]"
    unfolding slave_tables_def sample_slave_fields
    by (intro conjI exI [of _ "\<lambda>t. sample_table"]) (auto simp: sample_at_rep [unfolded One_nat_def] sample_table_def split: if_splits)
  then show ?thesis
    using idle_logs_new [OF sample_mems_ok] by (simp add: idle_slave_def sample_slave_fields)
qed

lemma sample_redos_ok: "2 \<le> length v \<Longrightarrow> length v < 2 ^ 16 \<Longrightarrow> redos_ok (2 ^ 31 - 1) [put_record 1 [7] v] [1 \<mapsto> (1, [])]"
  by (simp add: redo_ok_def record_ok_simps) (simp add: put_record_def)

lemma sample_tx_log: "\<exists>tx logs. tx_log tx logs []"
proof -
  have idle: "idle_logs tx_impl_new (tx_logs_new sample_mems)" by (rule idle_logs_new [OF sample_mems_ok]) (simp add: tx_impl_new_def)
  have "0 < (1 :: int)" by simp
  from begin_solo [OF idle this] show ?thesis using busy_tx_log by metis
qed

text \<open>A message with given records.\<close>

lemma image_exists: "\<exists>bs. log_image r bs"
  unfolding log_image_def by (intro exI conjI, rule refl, rule length_replicate, rule length_replicate)

lemma message_exists:
  assumes "record_ok r" "16 + record_size r < TX_REPLICATION_MESSAGE_SIZE"
  shows "\<exists>msg. message_image txId [r] msg"
proof -
  obtain bs where "log_image r bs" using image_exists by blast
  then show ?thesis using assms log_image_length [of r bs] by (auto simp: message_image_def)
qed

text \<open>The plugin cannot store a value of which not all bytes are there.\<close>

lemma put_unreadable:
  assumes "length (value_data value) < unat (value_len value)"
  shows "pl_table_put (plugin_array_tree garbage) w h key value = None"
proof -
  have "mem_read (value_data value) 0 (int (unat (value_len value))) = None" using assms by (auto simp: mem_read_def simp del: of_nat_unat)
  then have "pack_value_object pool (value_len value) (value_data value) = None" for pool
    by (auto simp: pack_value_object_def pool_malloc_def Let_def simp del: of_nat_unat split: Option.bind_split)
  then show ?thesis by (auto simp: plugin_array_tree_def atw_table_put_def at_table_put_def split: Option.bind_split)
qed

section \<open>Properties\<close>

text \<open>
  C10: a slave whose tables are open applies any number of well-formed messages with consecutive transaction ids without violating an
  assertion, and its tables then hold the result of redoing all their records in order; a put is redone with the first two bytes of the value.
\<close>

theorem slave_applies_messages:
  assumes "idle_slave (plugin_array_tree garbage) at_rep s T" "sv_prevTransactionId s = 0" "length msgs = length rss" "length msgs < 2 ^ 63"
    "\<forall>i<length msgs. message_image (int i + 1) (rss ! i) (msgs ! i)" "redos_ok (2 ^ 31 - 1) (concat rss) T"
  shows "\<exists>s'. replication_slave_thread_func lib reg msgs s = Some s' \<and> sv_prevTransactionId s' = int (length msgs) \<and>
     idle_slave (plugin_array_tree garbage) at_rep s' (fold redo (concat rss) T)"
proof -
  have "\<forall>i<length msgs. message_image (sv_prevTransactionId s + 1 + int i) (rss ! i) (msgs ! i)"
    using assms(2,5) by (simp add: add.commute)
  moreover have "int (length msgs) < 2 ^ 63" using assms(4) by (metis of_nat_less_iff of_nat_numeral of_nat_power)
  ultimately show ?thesis using at_slave.thread_law [OF assms(1,3) _ assms(6), of lib reg] assms(2) by auto
qed

theorem slave_applies_messages_witness:
  "\<forall>lib reg. \<exists>msg s'. message_image 1 [put_record 1 [7] [8, 9]] msg \<and>
     replication_slave_thread_func lib reg [msg] sample_slave = Some s' \<and>
     idle_slave (plugin_array_tree sample_garbage) at_rep s' [1 \<mapsto> (1, [([7], [8, 9])])]"
proof (intro allI)
  fix lib reg
  have "record_ok (put_record 1 [7] [8, 9])" "16 + record_size (put_record 1 [7] [8, 9]) < 65536"
    by (simp add: record_ok_simps) (simp add: record_size_def put_record_def al_def)
  then obtain msg where m: "message_image 1 [put_record 1 [7] [8, 9]] msg" using message_exists by blast
  have "redos_ok (2 ^ 31 - 1) (concat [[put_record 1 [7] [8, 9]]]) [1 \<mapsto> (1, [])]" using sample_redos_ok [of "[8, 9]"] by simp
  from slave_applies_messages [OF sample_slave_idle _ _ _ _ this, of "[msg]" lib reg] m
  obtain s' where "replication_slave_thread_func lib reg [msg] sample_slave = Some s'"
      "idle_slave (plugin_array_tree sample_garbage) at_rep s' (redo (put_record 1 [7] [8, 9]) [1 \<mapsto> (1, [])])"
    by (auto simp: sample_slave_fields)
  moreover have "redo (put_record 1 [7] [8, 9]) [1 \<mapsto> (1, [])] = [1 \<mapsto> (1, [([7], [8, 9])])]"
    by (simp add: redo_def redo_content_def put_record_def ord_put_def)
  ultimately show "\<exists>msg s'. message_image 1 [put_record 1 [7] [8, 9]] msg \<and>
     replication_slave_thread_func lib reg [msg] sample_slave = Some s' \<and>
     idle_slave (plugin_array_tree sample_garbage) at_rep s' [1 \<mapsto> (1, [([7], [8, 9])])]"
    using m by metis
qed



text \<open>
  C13: updates of an array tree table within a transaction, in any permitted sequence, are stored in the table and recorded in the log of
  the transaction, one record per update, in the order in which they were made.
\<close>

theorem updates_stored_and_logged:
  assumes "at_rep w (ti_context tab) kl ys" "ti_plugin tab = plugin_array_tree garbage" "0 < ti_table_id tab" "ti_table_id tab \<le> 65536"
    "tx_log tx logs rs" "ops_ok kl (2 ^ 31 - 1) ps ys" "list_all value_ok ps"
    "16 + logs_size (rs @ map (op_record (ti_table_id tab)) ps) < TX_REPLICATION_MESSAGE_SIZE"
  shows "\<exists>w' logs'. nldb_updates tab tx ps (w, logs) = Some (w', logs') \<and> at_rep w' (ti_context tab) kl (fold apply_op ps ys) \<and>
     tx_log tx logs' (rs @ map (op_record (ti_table_id tab)) ps)"
  using at.nldb_updates_law [OF assms(2-4,1,5-8)] by blast

theorem updates_stored_and_logged_witness:
  "\<exists>tx logs w' logs'. tx_log tx logs [] \<and>
     nldb_updates sample_table tx [Put [7] [8, 9, 10], Put [6] [5], Put [7] [1], Del [6]] (sample_world, logs) = Some (w', logs') \<and>
     at_rep w' 5 1 [([7], [1])] \<and>
     tx_log tx logs' [put_record 1 [7] [8, 9, 10], put_record 1 [6] [5], put_record 1 [7] [1], del_record 1 [6]]"
proof -
  let ?ps = "[Put [7] [8, 9, 10], Put [6] [5], Put [7] [1], Del [6]] :: byte list table_op list"
  obtain tx logs where log: "tx_log tx logs []" using sample_tx_log by blast
  have tab: "ti_plugin sample_table = plugin_array_tree sample_garbage" "0 < ti_table_id sample_table" "ti_table_id sample_table \<le> 65536"
      "ti_context sample_table = 5" "ti_table_id sample_table = 1"
    by (simp_all add: sample_table_def)
  have ok: "ops_ok 1 (2 ^ 31 - 1) ?ps []" "list_all value_ok ?ps" by (simp_all add: ord_put_def)
  have room: "16 + logs_size ([] @ map (op_record (ti_table_id sample_table)) ?ps) < 65536"
    by (simp add: record_size_def put_record_def del_record_def al_def)
  have res: "fold apply_op ?ps [] = [([7], [1])]" by (simp add: ord_put_def ord_del_def)
  have rep: "at_rep sample_world (ti_context sample_table) 1 []" using sample_at_rep tab(4) by simp
  from updates_stored_and_logged [OF rep tab(1-3) log ok room] obtain w' logs' where
    "nldb_updates sample_table tx ?ps (sample_world, logs) = Some (w', logs')"
    "at_rep w' (ti_context sample_table) 1 (fold apply_op ?ps [])"
    "tx_log tx logs' ([] @ map (op_record (ti_table_id sample_table)) ?ps)" by blast
  then show ?thesis using log unfolding res tab(4,5) by (intro exI conjI) (assumption | simp)+
qed

text \<open>
  C31: aborting a transaction does not undo it: the updates made before stay in the table and are read afterwards, while the log that is handed to the
  replicators has no records, so that slaves never see them.
\<close>

theorem abort_keeps_updates:
  assumes "at_rep w (ti_context tab) kl ys" "ti_plugin tab = plugin_array_tree garbage" "0 < ti_table_id tab" "ti_table_id tab \<le> 65536"
    "tx_log tx logs rs" "ops_ok kl (2 ^ 31 - 1) ps ys" "list_all value_ok ps"
    "16 + logs_size (rs @ map (op_record (ti_table_id tab)) ps) < TX_REPLICATION_MESSAGE_SIZE"
    "length k = kl" "map_of (fold apply_op ps ys) k = Some v" "v \<noteq> []"
  shows "\<exists>w' logs' logs'' i n. nldb_updates tab tx ps (w, logs) = Some (w', logs') \<and> tx_txEvent tx = Some (int i) \<and>
     nldb_tx_abort tx logs' = Some (NLDB_OK, tx\<lparr>tx_txEvent := None\<rparr>, logs'') \<and> holds_logs (lg logs'' i) [] \<and>
     nldb_table_get w' tab (the_key k) want = Some (NLDB_OK, Some (the_value v), n)"
proof -
  obtain w' logs' where u: "nldb_updates tab tx ps (w, logs) = Some (w', logs')" "at_rep w' (ti_context tab) kl (fold apply_op ps ys)"
      "tx_log tx logs' (rs @ map (op_record (ti_table_id tab)) ps)"
    using at.nldb_updates_law [OF assms(2-4,1,5-8)] by blast
  obtain i logs'' where a: "tx_txEvent tx = Some (int i)" "tx_abort tx logs' = Some (NLDB_OK, tx\<lparr>tx_txEvent := None\<rparr>, logs'')"
      "holds_logs (lg logs'' i) []"
    by (rule abort_log [OF u(3)])
  have "describes_key (the_key k) k" using at.rep_key_length [OF assms(1)] assms(9) by (simp add: describes_the_key)
  from at.get_present_any [OF u(2) this assms(9-11), of garbage want]
  obtain n where "nldb_table_get w' tab (the_key k) want = Some (NLDB_OK, Some (the_value v), n)"
    using assms(2) by (auto simp: nldb_table_get_def ti_get_def)
  with u(1) a show ?thesis by (auto simp: nldb_tx_abort_def)
qed

theorem abort_keeps_updates_witness:
  "\<exists>tx logs w' logs' logs'' i n. tx_log tx logs [] \<and>
     nldb_updates sample_table tx [Put [7] [8, 9, 10]] (sample_world, logs) = Some (w', logs') \<and>
     nldb_tx_abort tx logs' = Some (NLDB_OK, tx\<lparr>tx_txEvent := None\<rparr>, logs'') \<and> holds_logs (lg logs'' i) [] \<and>
     nldb_table_get w' sample_table (the_key [7]) False = Some (NLDB_OK, Some (the_value [8, 9, 10]), n)"
proof -
  let ?ps = "[Put [7] [8, 9, 10]] :: byte list table_op list"
  obtain tx logs where log: "tx_log tx logs []" using sample_tx_log by blast
  have tab: "ti_plugin sample_table = plugin_array_tree sample_garbage" "0 < ti_table_id sample_table" "ti_table_id sample_table \<le> 65536"
    by (simp_all add: sample_table_def)
  have rep: "at_rep sample_world (ti_context sample_table) 1 []" using sample_at_rep by (simp add: sample_table_def)
  have ok: "ops_ok 1 (2 ^ 31 - 1) ?ps []" "list_all value_ok ?ps" by simp_all
  have room: "16 + logs_size ([] @ map (op_record (ti_table_id sample_table)) ?ps) < 65536" by (simp add: record_size_def put_record_def al_def)
  have k: "length [7 :: byte] = 1" "map_of (fold apply_op ?ps []) [7] = Some [8, 9, 10]" "[8 :: byte, 9, 10] \<noteq> []" by (simp_all add: ord_put_def)
  from abort_keeps_updates [OF rep tab log ok room k, of False] log show ?thesis by blast
qed

text \<open>
  C26: when the log of a transaction has no room for another record, \<^verbatim>\<open>nldb_table_put\<close> does not return: the assertion in \<^verbatim>\<open>appendLog\<close>
  fails although the plugin accepts the pair and stores it. The plugin has been called by then: with the same full log, a plugin that rejects the
  pair makes \<^verbatim>\<open>nldb_table_put\<close> return its error code.
\<close>

theorem put_fails_when_log_is_full:
  assumes "at_rep w (ti_context tab) kl ys" "ti_plugin tab = plugin_array_tree garbage" "tx_log tx logs rs"
    "length k = kl" "length v < 2 ^ 16" "length ys < 2 ^ 31 - 1" "record_ok (put_record (ti_table_id tab) k v)"
    "TX_REPLICATION_MESSAGE_SIZE \<le> 16 + logs_size rs + record_size (put_record (ti_table_id tab) k v)"
  shows "nldb_table_put w tx logs tab (the_key k) (the_value v) = None \<and>
     (\<exists>w'. pl_table_put (ti_plugin tab) w (ti_context tab) (the_key k) (the_value v) = Some (NLDB_OK, w') \<and>
        at_rep w' (ti_context tab) kl (ord_put k v ys)) \<and>
     (\<forall>pl rc w'. rc \<noteq> NLDB_OK \<and> pl_table_put pl w (ti_context tab) (the_key k) (the_value v) = Some (rc, w') \<longrightarrow>
        nldb_table_put w tx logs (tab\<lparr>ti_plugin := pl\<rparr>) (the_key k) (the_value v) = Some (rc, w', logs))"
proof -
  have len: "length k < 2 ^ 16" using assms(7) by (simp add: record_ok_simps)
  obtain w' where w': "pl_table_put (ti_plugin tab) w (ti_context tab) (the_key k) (the_value v) = Some (NLDB_OK, w')"
      "at_rep w' (ti_context tab) kl (ord_put k v ys)"
    using at.put_law [OF assms(1) describes_the_key [OF len] assms(4) describes_the_value [OF assms(5)] assms(6)] assms(2) by auto
  obtain i where i: "tx_txEvent tx = Some (int i)" "getLogBuffer logs (int i) = Some (lg logs i)" "holds_logs (lg logs i) rs"
    using assms(3) getLogBuffer_lg by (auto simp: tx_log_def)
  have "append_record (lg logs i) (put_record (ti_table_id tab) k v) = None" by (rule append_record_full [OF i(3) assms(7,8)])
  then have "append_log_put tx logs (ti_table_id tab) (the_key k) (the_value v) = None"
    using i(1,2) ucast_16_64 [OF len] ucast_16_64 [OF assms(5)] by (simp add: append_log_put_def append_record_def put_record_def)
  then show ?thesis using w' by (auto simp: nldb_table_put_def ti_put_def)
qed

theorem put_fails_when_log_is_full_witness:
  "\<exists>tx logs w'. tx_log tx logs [] \<and> nldb_table_put sample_world tx logs sample_table (the_key [7]) (the_value (replicate 65500 0)) = None \<and>
     pl_table_put (ti_plugin sample_table) sample_world 5 (the_key [7]) (the_value (replicate 65500 0)) = Some (NLDB_OK, w') \<and>
     at_rep w' 5 1 [([7], replicate 65500 0)]"
proof -
  obtain tx logs where log: "tx_log tx logs []" using sample_tx_log by blast
  have rep: "at_rep sample_world (ti_context sample_table) 1 []" using sample_at_rep by (simp add: sample_table_def)
  have tab: "ti_plugin sample_table = plugin_array_tree sample_garbage" "ti_context sample_table = 5" "ti_table_id sample_table = 1"
    by (simp_all add: sample_table_def)
  have "record_ok (put_record (ti_table_id sample_table) [7] (replicate 65500 0))"
      "TX_REPLICATION_MESSAGE_SIZE \<le> 16 + logs_size [] + record_size (put_record (ti_table_id sample_table) [7] (replicate 65500 0))"
    by (simp_all add: tab(3) record_ok_def record_size_def put_record_def al_def)
  from put_fails_when_log_is_full [OF rep tab(1) log _ _ _ this] log show ?thesis
    unfolding tab(2) by (auto simp: ord_put_def)
qed

text \<open>
  C39: a slave that applies a put of a value longer than two bytes answers a lookup of the key with the first two bytes of the value.
\<close>

theorem slave_reads_two_bytes:
  assumes "idle_slave (plugin_array_tree garbage) at_rep s T" "T t = Some (kl, ys)" "length k = kl" "2 \<le> length v" "length v < 2 ^ 16"
    "length ys < 2 ^ 31 - 1" "message_image (sv_prevTransactionId s + 1) [put_record t k v] msg"
    "- 1 \<le> sv_prevTransactionId s" "sv_prevTransactionId s < 2 ^ 63 - 1"
  shows "\<exists>s' tab n. applyReplicationMessage lib reg msg s = Some (NLDB_OK, s') \<and> rd_tables (sv_redoer s') ! nat t = Some tab \<and>
     nldb_table_get (sv_world s') tab (the_key k) False = Some (NLDB_OK, Some (the_value (take 2 v)), n)"
proof -
  have ok: "record_ok (put_record t k v)" using assms(7) by (auto simp: message_image_def)
  then have r: "redos_ok (2 ^ 31 - 1) [put_record t k v] T" using assms(2-6) by (simp add: redo_ok_def) (simp add: put_record_def)
  obtain s' where s': "applyReplicationMessage lib reg msg s = Some (NLDB_OK, s')"
      "idle_slave (plugin_array_tree garbage) at_rep s' (fold redo [put_record t k v] T)"
    by (rule at_slave.apply_law [OF assms(1,7) r assms(8,9)])
  have "fold redo [put_record t k v] T t = Some (kl, ord_put k (take 2 v) ys)"
    using assms(2) by (simp add: redo_def redo_content_def put_record_def)
  then obtain tab where tab: "rd_tables (sv_redoer s') ! nat t = Some tab" "ti_plugin tab = plugin_array_tree garbage"
      "at_rep (sv_world s') (ti_context tab) kl (ord_put k (take 2 v) ys)"
    using s'(2) unfolding idle_slave_def slave_tables_def by blast
  have d: "describes_key (the_key k) k" using ok by (intro describes_the_key) (simp add: record_ok_simps)
  have "map_of (ord_put k (take 2 v) ys) k = Some (take 2 v)" "take 2 v \<noteq> []" using assms(4) by (auto simp: map_of_ord_put)
  from at.get_present_law [OF tab(3) d assms(3) this, of garbage] show ?thesis
    using s'(1) tab(1,2) by (auto simp: nldb_table_get_def ti_get_def)
qed

theorem slave_reads_two_bytes_witness:
  "\<forall>lib reg. \<exists>msg s' tab n. message_image 1 [put_record 1 [7] [8, 9, 10, 11]] msg \<and>
     applyReplicationMessage lib reg msg sample_slave = Some (NLDB_OK, s') \<and> rd_tables (sv_redoer s') ! 1 = Some tab \<and>
     nldb_table_get (sv_world s') tab (the_key [7]) False = Some (NLDB_OK, Some (the_value [8, 9]), n)"
proof (intro allI)
  fix lib reg
  have "record_ok (put_record 1 [7] [8, 9, 10, 11])" "16 + record_size (put_record 1 [7] [8, 9, 10, 11]) < 65536"
    by (simp add: record_ok_simps) (simp add: record_size_def put_record_def al_def)
  then obtain msg where m: "message_image 1 [put_record 1 [7] [8, 9, 10, 11]] msg" using message_exists by blast
  from slave_reads_two_bytes [OF sample_slave_idle, of 1 1 "[]" "[7]" "[8, 9, 10, 11]" msg lib reg] m
  show "\<exists>msg s' tab n. message_image 1 [put_record 1 [7] [8, 9, 10, 11]] msg \<and>
     applyReplicationMessage lib reg msg sample_slave = Some (NLDB_OK, s') \<and> rd_tables (sv_redoer s') ! 1 = Some tab \<and>
     nldb_table_get (sv_world s') tab (the_key [7]) False = Some (NLDB_OK, Some (the_value [8, 9]), n)"
    by (auto simp: sample_slave_fields)
qed

text \<open>
  C40: the slave does not survive the replication of an empty value, which the master stores and logs: \<^verbatim>\<open>parseLog\<close> hands a null
  pointer to \<^verbatim>\<open>redoLog\<close>, and the plugin reads two bytes from it.
\<close>

theorem slave_fails_on_empty_value:
  assumes "idle_slave (plugin_array_tree garbage) at_rep s T" "T t \<noteq> None"
    "message_image (sv_prevTransactionId s + 1) [put_record t k []] msg"
  shows "applyReplicationMessage lib reg msg s = None"
proof -
  let ?r = "put_record t k []" and ?id = "sv_prevTransactionId s + 1"
  obtain body where m: "msg = message_header_bytes ?id (of_nat (length body)) @ body" "log_image ?r body" "record_ok ?r" "length msg < 65536"
    using assms(3) by (auto simp: message_image_def)
  have parse: "parseLog msg 16 = Some \<lparr>pl_tableId = t, pl_logType = LT_PUT, pl_keyData = 40, pl_keyLength = of_nat (length k),
      pl_valueData = None, pl_valueLength = 0\<rparr>"
    using parseLog_spec [OF m(2,3), of "message_header_bytes ?id (of_nat (length body))" "[]"] by (simp add: m(1) put_record_def)
  have opened: "\<exists>tab. getOpenTable lib reg s1 t = Some (NLDB_OK, Some tab, s1) \<and> ti_plugin tab = plugin_array_tree garbage"
    if "rd_tables (sv_redoer s1) = rd_tables (sv_redoer s)" for s1
    using assms(1,2) that getOpenTable_open [of s1 t] unfolding idle_slave_def slave_tables_def by force
  have "redoLog lib reg s1 t LT_PUT kd kl [] vl = None" if "rd_tables (sv_redoer s1) = rd_tables (sv_redoer s)" for s1 kd kl vl
    using opened [OF that] by (auto simp: redoLog_def nldb_table_put_def ti_put_def Let_def put_unreadable)
  then have loop: "redo_logs lib reg msg 16 limit s1 = None" if "rd_tables (sv_redoer s1) = rd_tables (sv_redoer s)" "16 < limit" for s1 limit
    using that parse by (subst redo_logs.simps) (simp add: bytes_at_def)
  have size: "message_logSize msg = Some (of_nat (length body))" using message_logSize_spec [of body ?id] m(1,4) by simp
  have "0 < uint (of_nat (length body) :: 64 word)"
    using log_image_length [OF m(2)] m(1,4) unat_of_nat64 [of "length body"] by (simp add: uint_unat record_size_def del: of_nat_unat)
  moreover have "tx_begin tx logs nid = Some (rc, x) \<Longrightarrow> rc = NLDB_OK" for tx logs nid rc x
    by (auto simp: tx_begin_def split: Option.bind_splits if_splits)
  ultimately show ?thesis
    using loop size by (auto simp: applyReplicationMessage_def beginTransaction_def tx_methods split: Option.bind_splits)
qed

theorem slave_fails_on_empty_value_witness:
  "\<forall>lib reg. \<exists>msg. message_image 1 [put_record 1 [7] []] msg \<and> applyReplicationMessage lib reg msg sample_slave = None"
proof (intro allI)
  fix lib reg
  have "record_ok (put_record 1 [7] [])" "16 + record_size (put_record 1 [7] []) < 65536"
    by (simp add: record_ok_simps) (simp add: record_size_def put_record_def al_def)
  then obtain msg where m: "message_image 1 [put_record 1 [7] []] msg" using message_exists by blast
  then show "\<exists>msg. message_image 1 [put_record 1 [7] []] msg \<and> applyReplicationMessage lib reg msg sample_slave = None"
    using slave_fails_on_empty_value [OF sample_slave_idle, of 1 "[7]" msg lib reg] by (auto simp: sample_slave_fields)
qed

end
