(* ===== verification/Event_Processor.thy ===== *)
theory Event_Processor
  imports Disruptor
begin

text \<open>
  The thread of a batch event processor (\<^verbatim>\<open>event_processor.h\<close>) from start to stop: which events the handler sees when it throws exceptions, and
  what \<^verbatim>\<open>Halt\<close> achieves. A processor with no dependent sequences is followed through any number of steps, while the publisher moves the cursor.
\<close>

section \<open>Runs of the thread\<close>

text \<open>One step for each cursor value that the barrier reads.\<close>

fun bp_steps ::
    "('s \<Rightarrow> int \<Rightarrow> bool \<Rightarrow> 's outcome option) \<Rightarrow> 's exception_handler \<Rightarrow> int list \<Rightarrow> batch_processor \<times> 's \<Rightarrow> (batch_processor \<times> 's) option" where
  "bp_steps H E [] x = Some x"
| "bp_steps H E (c # cs) x = bp_run_step [] c H E (fst x) (snd x) \<bind> bp_steps H E cs"

text \<open>Reachability while the cursor stays where it is.\<close>

definition reaches ::
    "('s \<Rightarrow> int \<Rightarrow> bool \<Rightarrow> 's outcome option) \<Rightarrow> 's exception_handler \<Rightarrow> int \<Rightarrow> batch_processor \<times> 's \<Rightarrow> batch_processor \<times> 's \<Rightarrow> bool" where
  "reaches H E c x y \<longleftrightarrow> (\<exists>n. bp_steps H E (replicate n c) x = Some y)"

lemma reaches_refl: "reaches H E c x x"
  unfolding reaches_def by (rule exI [of _ 0]) simp

lemma reaches_step:
  assumes "bp_run_step [] c H E (fst x) (snd x) = Some y" "reaches H E c y z"
  shows "reaches H E c x z"
proof -
  obtain n where "bp_steps H E (replicate n c) y = Some z" using assms(2) by (auto simp: reaches_def)
  then have "bp_steps H E (replicate (Suc n) c) x = Some z" using assms(1) by simp
  then show ?thesis unfolding reaches_def by blast
qed

lemma bp_steps_append: "bp_steps H E (cs @ cs') x = bp_steps H E cs x \<bind> bp_steps H E cs'"
  by (induction cs arbitrary: x) (auto split: Option.bind_split)

lemma reaches_then:
  assumes "reaches H E c x y" "bp_run_step [] c H E (fst y) (snd y) = Some z"
  shows "reaches H E c x z"
proof -
  obtain n where "bp_steps H E (replicate n c) x = Some y" using assms(1) by (auto simp: reaches_def)
  then have "bp_steps H E (replicate n c @ [c]) x = Some z" using assms(2) by (simp add: bp_steps_append)
  then show ?thesis unfolding reaches_def by (metis replicate_append_same replicate_Suc)
qed

section \<open>Delivery\<close>

text \<open>What a handler that never raises an alert leaves behind, whether it returned or threw.\<close>

fun left_behind :: "'s outcome \<Rightarrow> 's" where
  "left_behind (Returned st) = st"
| "left_behind (ThrewAlert st) = st"
| "left_behind (Threw st) = st"

definition deliver :: "('s \<Rightarrow> int \<Rightarrow> bool \<Rightarrow> 's outcome) \<Rightarrow> int \<Rightarrow> int list \<Rightarrow> 's \<Rightarrow> 's" where
  "deliver h c seqs st = fold (\<lambda>s st. left_behind (h st s (s = c))) seqs st"

abbreviation (input) total :: "('s \<Rightarrow> int \<Rightarrow> bool \<Rightarrow> 's outcome) \<Rightarrow> 's \<Rightarrow> int \<Rightarrow> bool \<Rightarrow> 's outcome option" where
  "total h st s b \<equiv> Some (h st s b)"

definition no_alert :: "('s \<Rightarrow> int \<Rightarrow> bool \<Rightarrow> 's outcome) \<Rightarrow> bool" where
  "no_alert h \<longleftrightarrow> (\<forall>st s b st'. h st s b \<noteq> ThrewAlert st')"

definition drained :: "int \<Rightarrow> batch_processor \<Rightarrow> batch_processor" where
  "drained c p = p\<lparr>bp_sequence := c, bp_next_sequence := c + 1, bp_pc := Waiting\<rparr>"

lemma deliver_next: "s \<le> c \<Longrightarrow> deliver h c [s..c] st = deliver h c [s + 1..c] (left_behind (h st s (s = c)))"
  by (simp add: deliver_def upto_rec1)

text \<open>
  A state in which the processor has events up to \<open>c\<close> before it, or none: then its sequence is at \<open>c\<close>, or it is about to be set.
\<close>

definition behind :: "int \<Rightarrow> batch_processor \<Rightarrow> bool" where
  "behind c p \<longleftrightarrow> bp_next_sequence p \<le> c + 1 \<and> (bp_pc p = Waiting \<and> (bp_next_sequence p = c + 1 \<longrightarrow> bp_sequence p = c) \<or> bp_pc p = Handling c)"

lemma handle_one:
  assumes h: "no_alert h" and p: "bp_pc p = Handling c" "bp_next_sequence p \<le> c"
  shows "\<exists>p'. bp_run_step [] c (total h) IgnoreExceptionHandler p st = Some (p', left_behind (h st (bp_next_sequence p) (bp_next_sequence p = c))) \<and>
     behind c p' \<and> bp_next_sequence p' = bp_next_sequence p + 1 \<and> drained c p' = drained c p"
proof (cases "h st (bp_next_sequence p) (bp_next_sequence p = c)")
  case (ThrewAlert st')
  then show ?thesis using h by (simp add: no_alert_def)
qed (use p in \<open>simp_all add: bp_run_step_def behind_def drained_def IgnoreExceptionHandler_def\<close>)

lemma reaches_drained:
  assumes h: "no_alert h"
  shows "behind c p \<Longrightarrow>
     reaches (total h) IgnoreExceptionHandler c (p, st) (drained c p, deliver h c [bp_next_sequence p..c] st)"
proof (induction "nat (c + 1 - bp_next_sequence p)" arbitrary: p st)
  case 0
  then have s: "bp_next_sequence p = c + 1" by (simp add: behind_def)
  show ?case
  proof (cases "bp_pc p = Waiting")
    case True
    then have "drained c p = p" using 0(2) s by (simp add: behind_def drained_def)
    then show ?thesis using s by (simp add: deliver_def reaches_refl)
  next
    case False
    then have "bp_run_step [] c (total h) IgnoreExceptionHandler p st = Some (drained c p, st)"
      using 0(2) s by (auto simp: behind_def bp_run_step_def drained_def)
    then show ?thesis using s by (intro reaches_step [where x = "(p, st)" and y = "(drained c p, st)"]) (simp_all add: deliver_def reaches_refl)
  qed
next
  case (Suc n)
  then have s: "bp_next_sequence p \<le> c" by (simp add: behind_def)
  let ?q = "p\<lparr>bp_pc := Handling c\<rparr>"
  let ?st = "left_behind (h st (bp_next_sequence p) (bp_next_sequence p = c))"
  obtain p' where p': "bp_run_step [] c (total h) IgnoreExceptionHandler ?q st = Some (p', ?st)" "behind c p'"
      "bp_next_sequence p' = bp_next_sequence p + 1" "drained c p' = drained c p"
    using handle_one [OF h, of ?q c st] s by (auto simp: drained_def)
  have "reaches (total h) IgnoreExceptionHandler c (p', ?st) (drained c p', deliver h c [bp_next_sequence p'..c] ?st)"
    by (rule Suc.hyps(1) [OF _ p'(2)]) (use Suc.hyps(2) p'(3) in simp)
  then have q: "reaches (total h) IgnoreExceptionHandler c (?q, st) (drained c p, deliver h c [bp_next_sequence p..c] st)"
    using p' deliver_next [OF s, of h st] by (intro reaches_step [where x = "(?q, st)"]) simp_all
  show ?case
  proof (cases "bp_pc p = Waiting")
    case True
    then have "bp_run_step [] c (total h) IgnoreExceptionHandler p st = Some (?q, st)"
      using s by (simp add: bp_run_step_def busy_spin_WaitFor_def)
    then show ?thesis using q by (intro reaches_step [where x = "(p, st)"]) simp_all
  next
    case False
    then have "?q = p" using Suc.prems by (auto simp: behind_def)
    then show ?thesis using q by simp
  qed
qed

section \<open>Properties\<close>

text \<open>
  C14: exactly-once delivery: a processor that waits for its next event, with the exception handler that the database uses, hands every published
  event to the event handler once and in order, also when the handler throws; then its sequence is the cursor. Asked to halt meanwhile, it stops after that.
\<close>

theorem processor_delivers_once:
  assumes "\<forall>st s b st'. h st s b \<noteq> ThrewAlert st'" "bp_pc p = Waiting" "bp_next_sequence p \<le> c"
  shows "(\<exists>n. bp_steps (\<lambda>st s b. Some (h st s b)) IgnoreExceptionHandler (replicate n c) (p, st) =
        Some (p\<lparr>bp_sequence := c, bp_next_sequence := c + 1\<rparr>, fold (\<lambda>s st. left_behind (h st s (s = c))) [bp_next_sequence p..c] st)) \<and>
     (\<exists>n p'. bp_steps (\<lambda>st s b. Some (h st s b)) IgnoreExceptionHandler (replicate n c) (bp_Halt p, st) =
        Some (p', fold (\<lambda>s st. left_behind (h st s (s = c))) [bp_next_sequence p..c] st) \<and>
        bp_pc p' = Stopped \<and> \<not> bp_running p' \<and> bp_sequence p' = c)"
proof -
  have h: "no_alert h" using assms(1) by (simp add: no_alert_def)
  have d: "drained c p = p\<lparr>bp_sequence := c, bp_next_sequence := c + 1\<rparr>" using assms(2) by (simp add: drained_def)
  have "behind c p" "behind c (bp_Halt p)" using assms(2,3) by (simp_all add: behind_def bp_Halt_def)
  note r = this [THEN reaches_drained [OF h]]
  let ?st = "deliver h c [bp_next_sequence p..c] st" and ?p = "drained c (bp_Halt p)\<lparr>bp_running := False, bp_pc := Stopped\<rparr>"
  have n: "bp_next_sequence (bp_Halt p) = bp_next_sequence p" by (simp add: bp_Halt_def)
  have "bp_run_step [] c (total h) IgnoreExceptionHandler (drained c (bp_Halt p)) ?st = Some (?p, ?st)"
    by (simp add: bp_run_step_def busy_spin_WaitFor_def drained_def bp_Halt_def)
  then have "reaches (total h) IgnoreExceptionHandler c (bp_Halt p, st) (?p, ?st)"
    using reaches_then [OF r(2) [of st]] n by simp
  moreover have "bp_sequence ?p = c" by (simp add: drained_def)
  ultimately show ?thesis using r(1) [of st] unfolding reaches_def d deliver_def by fastforce
qed

text \<open>A handler that collects the sequences it sees and throws at every even one.\<close>

theorem processor_delivers_once_witness:
  "\<exists>n. bp_steps (\<lambda>st s b. Some ((if even s then Threw else Returned) (st @ [s]))) IgnoreExceptionHandler (replicate n 3)
       (batch_processor_new\<lparr>bp_running := True, bp_pc := Waiting\<rparr>, []) =
     Some (batch_processor_new\<lparr>bp_running := True, bp_pc := Waiting, bp_sequence := 3, bp_next_sequence := 4\<rparr>, [0, 1, 2, 3])"
  using processor_delivers_once [of "\<lambda>st s b. (if even s then Threw else Returned) (st @ [s])"
      "batch_processor_new\<lparr>bp_running := True, bp_pc := Waiting\<rparr>" 3 "[]"]
  by (simp add: batch_processor_new_def upto_rec1 split: if_splits)

text \<open>
  C35: a \<^verbatim>\<open>Halt\<close> that comes before the thread has entered \<^verbatim>\<open>Run\<close> is lost: \<^verbatim>\<open>Run\<close> sets the processor running and clears the alert. Whatever is
  published afterwards, the thread does not stop, so that the \<^verbatim>\<open>join\<close> by which a database is closed does not return.
\<close>

theorem halt_before_run_is_lost:
  "\<exists>p p' st'. bp_Run (bp_Halt batch_processor_new) = Some p \<and>
     bp_steps (\<lambda>st s b. Some (h st s b)) IgnoreExceptionHandler cs (p, st) = Some (p', st') \<and> bp_running p' \<and> bp_pc p' \<noteq> Stopped"
proof -
  have step: "\<exists>p' st'. bp_run_step [] c (total h) IgnoreExceptionHandler p st = Some (p', st') \<and>
      bp_running p' \<and> \<not> bp_alerted p' \<and> bp_pc p' \<noteq> Stopped"
    if "bp_running p" "\<not> bp_alerted p" "bp_pc p \<noteq> Stopped" for c p st
    using that
    by (auto simp: bp_run_step_def busy_spin_WaitFor_def IgnoreExceptionHandler_def Let_def split: processor_pc.splits outcome.split)
  have steps: "\<exists>p' st'. bp_steps (total h) IgnoreExceptionHandler cs (p, st) = Some (p', st') \<and> bp_running p' \<and> bp_pc p' \<noteq> Stopped"
    if "bp_running p" "\<not> bp_alerted p" "bp_pc p \<noteq> Stopped" for p
    using that
  proof (induction cs arbitrary: p st)
    case (Cons c cs)
    obtain q st1 where "bp_run_step [] c (total h) IgnoreExceptionHandler p st = Some (q, st1)" "bp_running q" "\<not> bp_alerted q" "bp_pc q \<noteq> Stopped"
      using step [OF Cons.prems] by blast
    then show ?case using Cons.IH [of q st1] by simp
  qed simp
  let ?p = "batch_processor_new\<lparr>bp_running := True, bp_alerted := False, bp_next_sequence := 0, bp_pc := Waiting\<rparr>"
  have "bp_Run (bp_Halt batch_processor_new) = Some ?p" by (simp add: bp_Run_def bp_Halt_def batch_processor_new_def)
  then show ?thesis using steps [of ?p] by simp
qed

end
