(* ===== verification/Tc_Tables.thy ===== *)
theory Tc_Tables
  imports Plugin_Contract Plugin_Libraries
begin

text \<open>
  Tables of the Tokyo Cabinet plugin (\<^verbatim>\<open>nldb_plugin_tc.cpp\<close>), given the documented behaviour of the on-memory tree database of that library: each
  database object is a map from byte strings to byte strings. The plugin keeps the contract of table plugins; its tables do not survive closing.
\<close>

section \<open>What Tokyo Cabinet documents\<close>

text \<open>\<open>M t h\<close> is the map behind the database object \<open>h\<close>, \<open>None\<close> when there is no such object.\<close>

type_synonym 't tc_view = "'t \<Rightarrow> ptr \<rightharpoonup> (byte list \<rightharpoonup> byte list)"

definition tc_laws :: "'t tokyo_cabinet \<Rightarrow> 't tc_view \<Rightarrow> bool" where
  "tc_laws lib M \<longleftrightarrow>
     (\<forall>t. \<exists>h t'. tcndbnew lib t = (h, t') \<and> h \<noteq> NULL \<and> M t h = None \<and> M t' = (M t)(h \<mapsto> Map.empty)) \<and>
     (\<forall>t h m. M t h = Some m \<longrightarrow> M (tcndbdel lib t h) = (M t)(h := None) \<and>
        (\<forall>k v. M (tcndbput lib t h k v) = (M t)(h \<mapsto> m(k \<mapsto> v))) \<and> (\<forall>k. tcndbget lib t h k = m k) \<and>
        (\<forall>k. fst (tcndbout lib t h k) = (m k \<noteq> None) \<and> M (snd (tcndbout lib t h k)) = (M t)(h \<mapsto> m(k := None))))"

lemma tcndbnew_law:
  assumes "tc_laws lib M"
  obtains h t' where "tcndbnew lib t = (h, t')" "h \<noteq> NULL" "M t h = None" "M t' = (M t)(h \<mapsto> Map.empty)"
  using assms unfolding tc_laws_def by blast

lemma tcndb_law:
  assumes "tc_laws lib M" "M t h = Some m"
  shows "M (tcndbdel lib t h) = (M t)(h := None)" "M (tcndbput lib t h k v) = (M t)(h \<mapsto> m(k \<mapsto> v))" "tcndbget lib t h k = m k"
    "fst (tcndbout lib t h k) = (m k \<noteq> None)" "M (snd (tcndbout lib t h k)) = (M t)(h \<mapsto> m(k := None))"
  using assms unfolding tc_laws_def by blast+

section \<open>The plugin keeps the contract\<close>

definition tc_rep :: "'t tc_view \<Rightarrow> ('l, 't) world \<Rightarrow> ptr \<Rightarrow> nat \<Rightarrow> table_content \<Rightarrow> bool" where
  "tc_rep M w h kl ys \<longleftrightarrow> kl < 2 ^ 16 \<and> M (w_tc w) h = Some (map_of ys)"

lemma tc_rep_update:
  assumes "M t = (M (w_tc w))(h \<mapsto> map_of zs)"
  shows "kl < 2 ^ 16 \<Longrightarrow> tc_rep M (w\<lparr>w_tc := t\<rparr>) h kl zs" "frame (tc_rep M) h w (w\<lparr>w_tc := t\<rparr>)"
  using assms by (simp_all add: tc_rep_def frame_def)

lemma tc_get:
  assumes "tc_laws lib M" "tc_rep M w h kl ys" "describes_key key k"
  shows "pl_table_get (plugin_tc lib) w h key False =
     Some (case map_of ys k of None \<Rightarrow> (NLDB_ERROR_KEY_NOT_FOUND, None, None) | Some v \<Rightarrow> (NLDB_OK, Some (the_value v), None))"
  using tcndb_law(3) [OF assms(1), of "w_tc w" h "map_of ys" k] assms(2) described_read(1) [OF assms(3)]
  by (simp add: plugin_tc_def tc_table_get_def tc_rep_def the_value_def del: of_nat_unat split: option.split)

lemma plugin_tc_contract:
  assumes laws: "tc_laws (lib :: 't tokyo_cabinet) M"
  shows "table_plugin (plugin_tc lib :: ('l, 't) world nldb_plugin_t) cap (tc_rep M)"
proof unfold_locales
  fix w :: "('l, 't) world" and h kl ys
  assume rep: "tc_rep M w h kl ys"
  then have kl: "kl < 2 ^ 16" and m: "M (w_tc w) h = Some (map_of ys)" by (simp_all add: tc_rep_def)
  from kl show "kl < 2 ^ 16" .
  fix key and k v :: "byte list"
  assume key: "describes_key key k" "length k = kl"
  note law = tcndb_law [OF laws m] and get = tc_get [OF laws rep key(1)]
  show "\<exists>w'. pl_table_put (plugin_tc lib) w h key val = Some (NLDB_OK, w') \<and> tc_rep M w' h kl (ord_put k v ys) \<and> frame (tc_rep M) h w w'"
    if "describes_value val v" for val
    using tc_rep_update [of M "tcndbput lib (w_tc w) h k v" w h "ord_put k v ys"] law(2) [of k v] kl described_read(1) [OF key(1)] described_read(2) [OF that]
    by (simp add: plugin_tc_def tc_table_put_def map_of_ord_put del: of_nat_unat)
  show "\<exists>w'. pl_table_del (plugin_tc lib) w h key = Some (NLDB_OK, w') \<and> tc_rep M w' h kl (ord_del k ys) \<and> frame (tc_rep M) h w w'"
    if "map_of ys k \<noteq> None"
    using tc_rep_update [of M "snd (tcndbout lib (w_tc w) h k)" w h "ord_del k ys"] law(4,5) [of k] kl described_read(1) [OF key(1)] that
    by (simp add: plugin_tc_def tc_table_del_def map_of_ord_del split_beta del: of_nat_unat)
  show "\<exists>n. pl_table_get (plugin_tc lib) w h key False = Some (NLDB_ERROR_KEY_NOT_FOUND, None, n)" if "map_of ys k = None"
    using get that by simp
  show "\<exists>n. pl_table_get (plugin_tc lib) w h key False = Some (NLDB_OK, Some (the_value v), n)" if "map_of ys k = Some v"
    using get that by simp
qed

lemma tc_open:
  assumes "tc_laws lib M" "kl < 2 ^ 16"
  shows "\<exists>h w'. pl_table_open (plugin_tc lib) w desc = Some (NLDB_OK, h, w') \<and> tc_rep M w' h kl []"
proof -
  obtain h t' where "tcndbnew lib (w_tc w) = (h, t')" "M t' = (M (w_tc w))(h \<mapsto> Map.empty)"
    by (rule tcndbnew_law [OF assms(1)])
  then show ?thesis using assms(2) by (simp add: plugin_tc_def tc_table_open_def tc_rep_def)
qed

section \<open>Properties\<close>

text \<open>
  C20: a Tokyo Cabinet table that was just opened, updated by any permitted sequence of put and del, answers each lookup with the value of the
  last update of the key. Tables are volatile: after closing, the same table is opened empty.
\<close>

theorem tc_get_after_updates:
  assumes "tc_laws lib M" "ops_ok kl cap ps []" "list_all value_ok ps" "kl < 2 ^ 16" "length k = kl"
  shows "\<exists>h w1 w2 w3 h' w4. pl_table_open (plugin_tc lib) w desc = Some (NLDB_OK, h, w1) \<and> plugin_ops (plugin_tc lib) h ps w1 = Some w2 \<and>
     pl_table_get (plugin_tc lib) w2 h (the_key k) False = Some (case history ps Map.empty k of
       None \<Rightarrow> (NLDB_ERROR_KEY_NOT_FOUND, None, None) | Some v \<Rightarrow> (NLDB_OK, Some (the_value v), None)) \<and>
     pl_table_close (plugin_tc lib) w2 h = Some (NLDB_OK, w3) \<and> pl_table_open (plugin_tc lib) w3 desc = Some (NLDB_OK, h', w4) \<and>
     pl_table_get (plugin_tc lib) w4 h' (the_key k) False = Some (NLDB_ERROR_KEY_NOT_FOUND, None, None)"
proof -
  have d: "describes_key (the_key k) k" using assms(4,5) by (intro describes_the_key) simp
  obtain h w1 where w1: "pl_table_open (plugin_tc lib) w desc = Some (NLDB_OK, h, w1)" "tc_rep M w1 h kl []"
    using tc_open [OF assms(1,4)] by blast
  obtain w2 where w2: "plugin_ops (plugin_tc lib) h ps w1 = Some w2" "tc_rep M w2 h kl (fold apply_op ps [])"
    using table_plugin.ops_law [OF plugin_tc_contract [OF assms(1)] w1(2) assms(2,3)] by blast
  obtain w3 where w3: "pl_table_close (plugin_tc lib) w2 h = Some (NLDB_OK, w3)" by (simp add: plugin_tc_def tc_table_close_def)
  obtain h' w4 where w4: "pl_table_open (plugin_tc lib) w3 desc = Some (NLDB_OK, h', w4)" "tc_rep M w4 h' kl []"
    using tc_open [OF assms(1,4)] by blast
  show ?thesis
    using w1(1) w2(1) w3 w4(1) tc_get [OF assms(1) w2(2) d] tc_get [OF assms(1) w4(2) d] by (auto simp: map_of_fold_apply_op)
qed

text \<open>A Tokyo Cabinet for the example: the objects are numbered.\<close>

type_synonym sample_cabinet = "nat \<times> (ptr \<rightharpoonup> (byte list \<rightharpoonup> byte list))"

definition sample_tc :: "sample_cabinet tokyo_cabinet" where
  "sample_tc =
     \<lparr>tcndbnew = (\<lambda>(n, f). (Suc n, Suc n, f(Suc n \<mapsto> Map.empty))), tcndbdel = (\<lambda>(n, f) h. (n, f(h := None))),
      tcndbput = (\<lambda>(n, f) h k v. (n, f(h \<mapsto> (the (f h))(k \<mapsto> v)))), tcndbget = (\<lambda>(n, f) h k. the (f h) k),
      tcndbout = (\<lambda>(n, f) h k. (the (f h) k \<noteq> None, n, f(h \<mapsto> (the (f h))(k := None))))\<rparr>"

definition sample_tc_view :: "sample_cabinet tc_view" where
  "sample_tc_view = (\<lambda>(n, f) h. if 0 < h \<and> h \<le> n then f h else None)"

lemma sample_tc_laws: "tc_laws sample_tc sample_tc_view"
  unfolding tc_laws_def
proof (intro conjI allI impI)
  fix t
  show "\<exists>h t'. tcndbnew sample_tc t = (h, t') \<and> h \<noteq> NULL \<and> sample_tc_view t h = None \<and> sample_tc_view t' = (sample_tc_view t)(h \<mapsto> Map.empty)"
    by (cases t) (auto simp: sample_tc_def sample_tc_view_def fun_eq_iff)
  fix h m assume m: "sample_tc_view t h = Some m"
  then show "sample_tc_view (tcndbdel sample_tc t h) = (sample_tc_view t)(h := None)"
    "sample_tc_view (tcndbput sample_tc t h k v) = (sample_tc_view t)(h \<mapsto> m(k \<mapsto> v))" "tcndbget sample_tc t h k = m k"
    "fst (tcndbout sample_tc t h k) = (m k \<noteq> None)" "sample_tc_view (snd (tcndbout sample_tc t h k)) = (sample_tc_view t)(h \<mapsto> m(k := None))" for k v
    by (cases t; auto simp: sample_tc_def sample_tc_view_def fun_eq_iff split: if_splits)+
qed

theorem tc_get_after_updates_witness:
  "\<forall>w :: (unit, sample_cabinet) world. \<forall>desc. \<exists>h w1 w2. pl_table_open (plugin_tc sample_tc) w desc = Some (NLDB_OK, h, w1) \<and>
     plugin_ops (plugin_tc sample_tc) h [Put [7] [1], Put [7] [2, 3]] w1 = Some w2 \<and>
     pl_table_get (plugin_tc sample_tc) w2 h (the_key [7]) False = Some (NLDB_OK, Some (the_value [2, 3]), None)"
proof (intro allI)
  fix w :: "(unit, sample_cabinet) world" and desc
  from tc_get_after_updates [OF sample_tc_laws, of 1 100 "[Put [7] [1], Put [7] [2, 3]]" "[7]" w desc]
  show "\<exists>h w1 w2. pl_table_open (plugin_tc sample_tc) w desc = Some (NLDB_OK, h, w1) \<and>
     plugin_ops (plugin_tc sample_tc) h [Put [7] [1], Put [7] [2, 3]] w1 = Some w2 \<and>
     pl_table_get (plugin_tc sample_tc) w2 h (the_key [7]) False = Some (NLDB_OK, Some (the_value [2, 3]), None)"
    by (simp add: ord_put_def) blast
qed

end
