(* ===== verification/Leveldb_Cursors.thy ===== *)
theory Leveldb_Cursors
  imports Leveldb_Tables
begin

text \<open>
  Cursors of the LevelDB plugin: a cursor owns an iterator, which walks over the content that the table had when the cursor was opened.
\<close>

section \<open>Fetching in a loop\<close>

text \<open>The loop in which clients use a cursor: fetch until a return code other than success; \<open>rc\<close> is that code.\<close>

partial_function (option) cursor_scan ::
    "'w nldb_plugin_t \<Rightarrow> 'w \<Rightarrow> ptr \<Rightarrow> ((nldb_key_t \<times> nldb_value_t option \<times> int option) list \<times> nldb_rc_t) option" where
  "cursor_scan pl w c =
     do { (rc, item, w') \<leftarrow> pl_cursor_fetch pl w c True False;
          if rc \<noteq> NLDB_OK then Some ([], rc)
          else do { x \<leftarrow> item; (xs, rc') \<leftarrow> cursor_scan pl w' c; Some (x # xs, rc') } }"

definition fetched :: "byte list \<times> byte list \<Rightarrow> nldb_key_t \<times> nldb_value_t option \<times> int option" where
  "fetched e = (the_key (fst e), Some (the_value (snd e)), None)"

text \<open>The cursor \<open>c\<close> walks over \<open>ys\<close> in the given direction and is at the given position.\<close>

definition cursor_at ::
    "ptr \<Rightarrow> nldb_cursor_direction_t \<Rightarrow> table_content \<Rightarrow> nat option \<Rightarrow> cursor_map \<Rightarrow> iterator_map \<Rightarrow> bool" where
  "cursor_at c dir ys p cs its \<longleftrightarrow> (\<exists>it. cs c = Some (it, dir) \<and> its it = Some (ys, p))"

abbreviation ld_cursor :: "'l leveldb_view \<Rightarrow> ptr \<Rightarrow> nldb_cursor_direction_t \<Rightarrow> table_content \<Rightarrow> nat option \<Rightarrow> ('l, 't) world \<Rightarrow> bool" where
  "ld_cursor V c dir ys p w \<equiv> cursor_at c dir ys p (w_leveldb_cursors w) (lv_iter V (w_leveldb w))"

lemma ldb_iter_law:
  assumes "leveldb_laws lib V" "lv_iter V l it = Some (ys, p)"
  shows "ldb_iter_status lib l it = LdbOk" "ldb_Valid lib l it \<longleftrightarrow> p \<noteq> None"
    "lv_iter V (ldb_Seek lib l it k) it = Some (ys, position ys (rank_lt k ys))"
    "p = Some i \<Longrightarrow> ldb_iter_key lib l it = fst (ys ! i)" "p = Some i \<Longrightarrow> ldb_iter_value lib l it = snd (ys ! i)"
    "p = Some i \<Longrightarrow> lv_iter V (ldb_Next lib l it) it = Some (ys, position ys (i + 1))"
    "p = Some i \<Longrightarrow> lv_iter V (ldb_Prev lib l it) it = Some (ys, if i = 0 then None else position ys (i - 1))"
proof -
  note law = leveldb_lawsD(3) [OF assms(1), unfolded leveldb_iterator_laws_def, THEN conjunct2, rule_format, OF assms(2)]
  show "ldb_iter_status lib l it = LdbOk" "ldb_Valid lib l it \<longleftrightarrow> p \<noteq> None"
    "lv_iter V (ldb_Seek lib l it k) it = Some (ys, position ys (rank_lt k ys))"
    using law by simp_all
  assume "p = Some i"
  then have "(ldb_iter_key lib l it, ldb_iter_value lib l it) = ys ! i \<and>
      lv_iter V (ldb_Next lib l it) it = Some (ys, position ys (i + 1)) \<and>
      lv_iter V (ldb_Prev lib l it) it = Some (ys, if i = 0 then None else position ys (i - 1))"
    using law by simp
  then show "ldb_iter_key lib l it = fst (ys ! i)" "ldb_iter_value lib l it = snd (ys ! i)"
    "lv_iter V (ldb_Next lib l it) it = Some (ys, position ys (i + 1))"
    "lv_iter V (ldb_Prev lib l it) it = Some (ys, if i = 0 then None else position ys (i - 1))"
    by (metis fst_conv, metis snd_conv, simp_all)
qed

section \<open>The operations\<close>

lemma ld_cursor_open_law:
  assumes "leveldb_laws lib V" "ld_table V w h kl ys"
  shows "\<exists>c w'. pl_cursor_open (plugin_leveldb lib g) w h = Some (NLDB_OK, c, w') \<and> ld_cursor V c g ys None w' \<and> ld_table V w' h kl ys"
proof -
  obtain name where n: "kl < 2 ^ 16" "lv_handle V (w_leveldb w) h = Some name" "lv_stored V (w_leveldb w) name = Some ys"
    using assms(2) by (auto simp: ld_rep_def)
  then obtain it l where "ldb_NewIterator lib (w_leveldb w) h = (it, l)" "lv_iter V l = (lv_iter V (w_leveldb w))(it \<mapsto> (ys, None))"
      "lv_same V (w_leveldb w) l"
    using leveldb_lawsD(3) [OF assms(1)] unfolding leveldb_iterator_laws_def by blast
  then show ?thesis
    using n by (simp add: plugin_leveldb_def ld_cursor_open_def cursor_at_def ld_rep_def lv_same_def Let_def)
qed

lemma ld_cursor_seek_law:
  assumes "leveldb_laws lib V" "ld_cursor V c d ys p w" "describes_key key k"
  shows "\<exists>w'. pl_cursor_seek (plugin_leveldb lib g) w c dir key = Some (NLDB_OK, w') \<and> ld_cursor V c dir ys (position ys (rank_lt k ys)) w'"
proof -
  obtain it where it: "w_leveldb_cursors w c = Some (it, d)" "lv_iter V (w_leveldb w) it = Some (ys, p)" using assms(2) by (auto simp: cursor_at_def)
  note s = ldb_iter_law(3) [OF assms(1) it(2), of k]
  show ?thesis
    using it(1) s ldb_iter_law(1) [OF assms(1) s] slice_described(1) [OF assms(3)]
    by (simp add: plugin_leveldb_def ld_cursor_seek_def cursor_at_def)
qed

lemma ld_fetch_end:
  assumes "leveldb_laws lib V" "ld_cursor V c d ys None w"
  shows "pl_cursor_fetch (plugin_leveldb lib g) w c True False = Some (NLDB_ERROR_END_OF_ITERATION, None, w)"
  using assms(2) ldb_iter_law(1,2) [OF assms(1), of "w_leveldb w" _ ys None] by (auto simp: cursor_at_def plugin_leveldb_def ld_cursor_fetch_def)

lemma ld_fetch_item:
  assumes "leveldb_laws lib V" "ld_cursor V c d ys (Some i) w" "d = NLDB_CURSOR_FORWARD \<or> d = NLDB_CURSOR_BACKWARD"
  shows "\<exists>w'. pl_cursor_fetch (plugin_leveldb lib g) w c True False = Some (NLDB_OK, Some (fetched (ys ! i)), w') \<and>
     ld_cursor V c d ys (if d = NLDB_CURSOR_FORWARD then position ys (i + 1) else if i = 0 then None else position ys (i - 1)) w'"
proof -
  obtain it where it: "w_leveldb_cursors w c = Some (it, d)" "lv_iter V (w_leveldb w) it = Some (ys, Some i)"
    using assms(2) by (auto simp: cursor_at_def)
  note law = ldb_iter_law [OF assms(1) it(2)] and forward = ldb_iter_law(6) [OF assms(1) it(2) refl]
    and backward = ldb_iter_law(7) [OF assms(1) it(2) refl]
  show ?thesis
    using it(1) law(1,2,4,5) forward backward ldb_iter_law(1) [OF assms(1) forward] ldb_iter_law(1) [OF assms(1) backward] assms(3)
    by (auto simp: plugin_leveldb_def ld_cursor_fetch_def cursor_at_def fetched_def)
qed

section \<open>Whole scans\<close>

lemma ld_scan_forward:
  assumes laws: "leveldb_laws lib V" and "i \<le> length ys" "ld_cursor V c NLDB_CURSOR_FORWARD ys (position ys i) w"
  shows "cursor_scan (plugin_leveldb lib g) w c = Some (map fetched (drop i ys), NLDB_ERROR_END_OF_ITERATION)"
  using assms(2,3)
proof (induction i arbitrary: w rule: inc_induct)
  case base
  then have "ld_cursor V c NLDB_CURSOR_FORWARD ys None w" by (simp add: position_def)
  from ld_fetch_end [OF laws this] show ?case by (subst cursor_scan.simps) simp
next
  case (step i)
  then have "ld_cursor V c NLDB_CURSOR_FORWARD ys (Some i) w" by (simp add: position_def)
  then obtain w' where "pl_cursor_fetch (plugin_leveldb lib g) w c True False = Some (NLDB_OK, Some (fetched (ys ! i)), w')"
      "ld_cursor V c NLDB_CURSOR_FORWARD ys (position ys (Suc i)) w'"
    using ld_fetch_item [OF laws, of c NLDB_CURSOR_FORWARD ys i w g] by auto
  then show ?case using step.IH step.hyps by (subst cursor_scan.simps) (simp add: Cons_nth_drop_Suc [symmetric])
qed

lemma ld_scan_backward:
  assumes laws: "leveldb_laws lib V"
  shows "i \<le> length ys \<Longrightarrow> ld_cursor V c NLDB_CURSOR_BACKWARD ys (if i = 0 then None else position ys (i - 1)) w \<Longrightarrow>
     cursor_scan (plugin_leveldb lib g) w c = Some (map fetched (rev (take i ys)), NLDB_ERROR_END_OF_ITERATION)"
proof (induction i arbitrary: w)
  case 0
  then have "ld_cursor V c NLDB_CURSOR_BACKWARD ys None w" by simp
  from ld_fetch_end [OF laws this] show ?case by (subst cursor_scan.simps) simp
next
  case (Suc i)
  then have "ld_cursor V c NLDB_CURSOR_BACKWARD ys (Some i) w" by (simp add: position_def)
  then obtain w' where "pl_cursor_fetch (plugin_leveldb lib g) w c True False = Some (NLDB_OK, Some (fetched (ys ! i)), w')"
      "ld_cursor V c NLDB_CURSOR_BACKWARD ys (if i = 0 then None else position ys (i - 1)) w'"
    using ld_fetch_item [OF laws, of c NLDB_CURSOR_BACKWARD ys i w g] by auto
  then show ?case using Suc by (subst cursor_scan.simps) (simp add: take_Suc_conv_app_nth)
qed

text \<open>A seek followed by a scan: upwards all keys that are not smaller, downwards from the smallest of these.\<close>

lemma ld_seek_scan:
  assumes laws: "leveldb_laws lib V" and cur: "ld_cursor V c d ys p w" and k: "length k < 2 ^ 16"
  shows "\<exists>w'. pl_cursor_seek (plugin_leveldb lib g) w c NLDB_CURSOR_FORWARD (the_key k) = Some (NLDB_OK, w') \<and>
       cursor_scan (plugin_leveldb lib g) w' c = Some (map fetched (drop (rank_lt k ys) ys), NLDB_ERROR_END_OF_ITERATION)"
    and "\<exists>w'. pl_cursor_seek (plugin_leveldb lib g) w c NLDB_CURSOR_BACKWARD (the_key k) = Some (NLDB_OK, w') \<and>
       cursor_scan (plugin_leveldb lib g) w' c =
         Some (map fetched (if rank_lt k ys < length ys then rev (take (Suc (rank_lt k ys)) ys) else []), NLDB_ERROR_END_OF_ITERATION)"
proof -
  note seek = ld_cursor_seek_law [OF laws cur describes_the_key [OF k], of g]
  let ?r = "rank_lt k ys"
  show "\<exists>w'. pl_cursor_seek (plugin_leveldb lib g) w c NLDB_CURSOR_FORWARD (the_key k) = Some (NLDB_OK, w') \<and>
      cursor_scan (plugin_leveldb lib g) w' c = Some (map fetched (drop ?r ys), NLDB_ERROR_END_OF_ITERATION)"
    using seek [of NLDB_CURSOR_FORWARD] ld_scan_forward [OF laws rank_lt_length] by blast
  obtain w' where w': "pl_cursor_seek (plugin_leveldb lib g) w c NLDB_CURSOR_BACKWARD (the_key k) = Some (NLDB_OK, w')"
      "ld_cursor V c NLDB_CURSOR_BACKWARD ys (position ys ?r) w'"
    using seek [of NLDB_CURSOR_BACKWARD] by blast
  have "cursor_scan (plugin_leveldb lib g) w' c =
      Some (map fetched (if ?r < length ys then rev (take (Suc ?r) ys) else []), NLDB_ERROR_END_OF_ITERATION)"
    using ld_scan_backward [OF laws, of "Suc ?r" ys c w' g] ld_scan_backward [OF laws, of 0 ys c w' g] w'(2) by (auto simp: position_def)
  then show "\<exists>w'. pl_cursor_seek (plugin_leveldb lib g) w c NLDB_CURSOR_BACKWARD (the_key k) = Some (NLDB_OK, w') \<and>
      cursor_scan (plugin_leveldb lib g) w' c =
        Some (map fetched (if ?r < length ys then rev (take (Suc ?r) ys) else []), NLDB_ERROR_END_OF_ITERATION)"
    using w'(1) by blast
qed

text \<open>What lies behind the position of a seek.\<close>

lemma drop_rank_lt:
  fixes ys :: "('k :: linorder \<times> 'v) list"
  shows "sorted_keys ys \<Longrightarrow> drop (rank_lt k ys) ys = filter (\<lambda>e. k \<le> fst e) ys"
proof (induction ys)
  case (Cons e ys)
  show ?case
  proof (cases "fst e < k")
    case False
    then have "\<forall>x\<in>set ys. \<not> fst x < k \<and> k \<le> fst x" using Cons.prems by fastforce
    then have "filter (\<lambda>e. fst e < k) ys = []" "filter (\<lambda>e. k \<le> fst e) ys = ys" by (auto simp: filter_empty_conv)
    then show ?thesis using False by (simp add: rank_lt_def)
  qed (use Cons in \<open>simp add: rank_lt_def\<close>)
qed (simp add: rank_lt_def)

text \<open>Updates of the table do not move the cursor, nor change what it delivers.\<close>

lemma ld_cursor_after_updates:
  assumes laws: "leveldb_laws (lib :: 'l leveldb) V" and w: "ld_table V (w :: ('l, 't) world) h kl ys" "ld_cursor V c d zs p w"
    and ps: "ops_ok kl cap ps ys" "list_all value_ok ps"
  shows "\<exists>w'. plugin_ops (plugin_leveldb lib g) h ps w = Some w' \<and> ld_table V w' h kl (fold apply_op ps ys) \<and> ld_cursor V c d zs p w'"
proof -
  have "ld_rep V (\<lambda>cs its hs. cursor_at c d zs p cs its) w h kl ys" using w by (simp add: ld_rep_def)
  from ld_ops_law [OF laws this ps, of g] show ?thesis by (auto simp: ld_rep_def)
qed

end
