(* ===== verification/Persistent_Tables.thy ===== *)
theory Persistent_Tables
  imports Nldb_Properties Table_Client
begin

text \<open>
  Tables of the LevelDB plugin as the clients of \<^verbatim>\<open>nldb.cpp\<close> see them: the catalogue entry in the meta table of the database names the LevelDB database of
  the table, which is found again after the table was closed. All lemmas are about the state of LevelDB in the memory \<open>w\<close>.
\<close>

section \<open>The catalogue\<close>

text \<open>The database \<open>db\<close> is open, and table \<open>i\<close> is registered with the given plugin and descriptor.\<close>

abbreviation (input) meta_database :: "db_impl \<Rightarrow> string" where
  "meta_database db \<equiv> leveldb_name (db_id db) 0"

abbreviation (input) table_database :: "db_impl \<Rightarrow> int \<Rightarrow> string" where
  "table_database db i \<equiv> leveldb_name (db_id db) i"

definition db_ready :: "'l leveldb_view \<Rightarrow> ('l, 't) world \<Rightarrow> db_impl \<Rightarrow> bool" where
  "db_ready V w db \<longleftrightarrow> 0 \<le> db_id db \<and> db_id db \<le> 1024 \<and> lv_handle V (w_leveldb w) (db_meta_table_context db) = Some (meta_database db)"

definition catalogued :: "'l leveldb_view \<Rightarrow> ('l, 't) world \<Rightarrow> db_impl \<Rightarrow> int \<Rightarrow> nat \<Rightarrow> bool" where
  "catalogued V w db i pid \<longleftrightarrow> (\<exists>ms desc. lv_stored V (w_leveldb w) (meta_database db) = Some ms \<and>
     map_of ms (meta_entry i) = Some (value_data (meta_table_value pid desc)) \<and>
     leveldb_desc_name desc = Some (table_database db i) \<and> length (table_desc desc) = 256)"

text \<open>A registered table that is closed, and one that is open as \<open>tab\<close>.\<close>

definition closed_table :: "'l leveldb_view \<Rightarrow> ('l, 't) world \<Rightarrow> db_impl \<Rightarrow> int \<Rightarrow> nat \<Rightarrow> table_content \<Rightarrow> bool" where
  "closed_table V w db i pid ys \<longleftrightarrow> db_ready V w db \<and> catalogued V w db i pid \<and>
     table_database db i \<notin> ran (lv_handle V (w_leveldb w)) \<and> lv_stored V (w_leveldb w) (table_database db i) = Some ys"

definition open_table ::
    "'l leveldb_view \<Rightarrow> ('l, 't) world \<Rightarrow> db_impl \<Rightarrow> int \<Rightarrow> nat \<Rightarrow> ('l, 't) world table_impl \<Rightarrow> table_content \<Rightarrow> bool" where
  "open_table V w db i pid tab ys \<longleftrightarrow> db_ready V w db \<and> catalogued V w db i pid \<and> ti_table_id tab = i \<and>
     lv_handle V (w_leveldb w) (ti_context tab) = Some (table_database db i) \<and> lv_stored V (w_leveldb w) (table_database db i) = Some ys"

lemma table_database_meta:
  assumes "db_ready V w db" "0 < i"
  shows "table_database db i \<noteq> meta_database db"
  using leveldb_name_inj [of "db_id db" i "db_id db" 0] assms by (auto simp: db_ready_def)

lemma open_table_rep:
  assumes "open_table V w db i pid tab ys" "kl < 2 ^ 16"
  shows "ld_rep V (\<lambda>cs its hs. hs = lv_handle V (w_leveldb w)) w (ti_context tab) kl ys"
  using assms by (simp add: open_table_def ld_rep_def)

section \<open>The life of a table\<close>

lemma create_law:
  assumes laws: "leveldb_laws lib V" and db: "db_ready V w db" "0 < i" "i < 2 ^ 31" "table_database db i \<notin> ran (lv_handle V (w_leveldb w))"
    and pid: "nldb_plugin reg pid = Some (plugin_leveldb lib g)"
  shows "\<exists>w'. nldb_table_create lib reg w db i pid = Some (NLDB_OK, w') \<and>
     closed_table V w' db i pid (case lv_stored V (w_leveldb w) (table_database db i) of None \<Rightarrow> [] | Some ys \<Rightarrow> ys)"
proof -
  let ?l = "w_leveldb w" and ?m = "db_meta_table_context db" and ?n = "table_database db i"
  obtain h l1 where o: "ldb_Open lib ?l True ?n = (LdbOk, h, l1)" "h \<noteq> NULL" "lv_handle V ?l h = None" "lv_handle V l1 = (lv_handle V ?l)(h \<mapsto> ?n)"
      "lv_stored V l1 = (lv_stored V ?l)(?n \<mapsto> (case lv_stored V ?l ?n of None \<Rightarrow> [] | Some ys \<Rightarrow> ys))"
    using ldb_Open_law [OF laws db(4)] by metis
  let ?l2 = "ldb_delete lib l1 h"
  have l2: "lv_handle V ?l2 = lv_handle V ?l" "lv_stored V ?l2 = lv_stored V l1"
    using ldb_delete_law [OF laws, of l1 h] o(3,4) by auto
  have "length (table_desc fresh_desc) = 256" by (simp add: fresh_desc_def)
  then obtain desc where desc: "leveldb_set_desc fresh_desc (db_id db) i = Some desc" "leveldb_desc_name desc = Some ?n"
      "length (table_desc desc) = 256"
    using leveldb_desc_roundtrip [of fresh_desc "db_id db" i] db by (auto simp: db_ready_def)
  have m: "lv_handle V ?l2 ?m = Some (meta_database db)" using db(1) l2(1) by (simp add: db_ready_def)
  then obtain ms where ms: "lv_stored V ?l2 (meta_database db) = Some ms" using lv_handle_law(1) [OF laws] by blast
  let ?v = "value_data (meta_table_value pid desc)"
  obtain l3 where l3: "ldb_Put lib ?l2 ?m (meta_entry i) ?v = (LdbOk, l3)" "lv_handle V l3 = lv_handle V ?l2"
      "lv_stored V l3 = (lv_stored V ?l2)(meta_database db \<mapsto> ord_put (meta_entry i) ?v ms)"
    using ldb_update_law(1) [OF laws m ms] by blast
  have p: "pid < 2 ^ 32" using pid by (auto simp: nldb_plugin_def split: if_splits)
  have "nldb_table_create lib reg w db i pid = Some (NLDB_OK, w\<lparr>w_leveldb := l3\<rparr>)"
    using pid o(1,2) desc(1) meta_put_law [OF desc(3) p, of lib "w\<lparr>w_leveldb := ?l2\<rparr>" db i] l3(1)
    by (simp add: nldb_table_create_def plugin_leveldb_def ld_table_create_def)
  moreover have "catalogued V (w\<lparr>w_leveldb := l3\<rparr>) db i pid"
    using desc l3(3) by (auto simp: catalogued_def map_of_ord_put)
  moreover have "lv_stored V l3 ?n = Some (case lv_stored V ?l ?n of None \<Rightarrow> [] | Some ys \<Rightarrow> ys)"
    using table_database_meta [OF db(1,2)] l3(3) l2(2) o(5) by simp
  ultimately show ?thesis using db l2(1) l3(2) by (simp add: closed_table_def db_ready_def)
qed

lemma open_law:
  assumes laws: "leveldb_laws lib V" and closed: "closed_table V w db i pid ys" and i: "0 < i"
    and pid: "nldb_plugin reg pid = Some (plugin_leveldb lib g)"
  shows "\<exists>tab w'. nldb_table_open lib reg w db i = Some (NLDB_OK, Some tab, w') \<and> ti_plugin tab = plugin_leveldb lib g \<and>
     open_table V w' db i pid tab ys"
proof -
  let ?l = "w_leveldb w" and ?n = "table_database db i"
  have c: "db_ready V w db" "catalogued V w db i pid" "?n \<notin> ran (lv_handle V ?l)" "lv_stored V ?l ?n = Some ys"
    using closed by (auto simp: closed_table_def)
  obtain ms desc where m: "lv_stored V ?l (meta_database db) = Some ms" "map_of ms (meta_entry i) = Some (value_data (meta_table_value pid desc))"
      "leveldb_desc_name desc = Some ?n" "length (table_desc desc) = 256"
    using c(2) by (auto simp: catalogued_def)
  have handle: "lv_handle V ?l (db_meta_table_context db) = Some (meta_database db)" using c(1) by (simp add: db_ready_def)
  have p: "pid < 2 ^ 32" using pid by (auto simp: nldb_plugin_def split: if_splits)
  have get: "meta_get lib w db i = Some (NLDB_OK, Some (pid, desc))"
    by (rule meta_get_found [OF ldb_update_law(4) [OF laws handle m(1,2)] p m(4)])
  obtain h l1 where o: "ldb_Open lib ?l True ?n = (LdbOk, h, l1)" "h \<noteq> NULL" "lv_handle V ?l h = None" "lv_handle V l1 = (lv_handle V ?l)(h \<mapsto> ?n)"
      "lv_stored V l1 = lv_stored V ?l"
    using ldb_Open_law [OF laws c(3)] c(4) by (metis fun_upd_triv option.simps(5))
  then have "nldb_table_open lib reg w db i = Some (NLDB_OK, Some \<lparr>ti_table_id = i, ti_plugin_id = pid, ti_plugin = plugin_leveldb lib g,
      ti_desc = desc, ti_context = h\<rparr>, w\<lparr>w_leveldb := l1\<rparr>)"
    using get pid m(3) by (simp add: nldb_table_open_def ti_init_def) (simp add: plugin_leveldb_def ld_table_open_def)
  moreover have "db_ready V (w\<lparr>w_leveldb := l1\<rparr>) db" "catalogued V (w\<lparr>w_leveldb := l1\<rparr>) db i pid"
    using c o(3-5) by (auto simp: db_ready_def catalogued_def)
  ultimately show ?thesis using c(4) o(4,5) by (simp add: open_table_def)
qed

text \<open>Updates through the API, which are also logged.\<close>

lemma updates_law:
  assumes laws: "leveldb_laws lib V" and opened: "open_table V w db i pid tab ys" "ti_plugin tab = plugin_leveldb lib g"
    and i: "0 < i" "i \<le> 65536" and ps: "ops_ok kl cap ps ys" "list_all value_ok ps" "kl < 2 ^ 16"
    and log: "tx_log tx logs rs" "16 + logs_size (rs @ map (op_record i) ps) < TX_REPLICATION_MESSAGE_SIZE"
  shows "\<exists>w' logs'. nldb_updates tab tx ps (w, logs) = Some (w', logs') \<and> open_table V w' db i pid tab (fold apply_op ps ys) \<and>
     tx_log tx logs' (rs @ map (op_record i) ps)"
proof -
  let ?l = "w_leveldb w" and ?P = "\<lambda>(cs :: cursor_map) (its :: iterator_map) hs. hs = lv_handle V (w_leveldb w)"
  let ?m = "db_meta_table_context db"
  have c: "db_ready V w db" "catalogued V w db i pid" "ti_table_id tab = i" "lv_handle V ?l (ti_context tab) = Some (table_database db i)"
    using opened(1) by (auto simp: open_table_def)
  have m: "lv_handle V ?l ?m = Some (meta_database db)" using c(1) by (simp add: db_ready_def)
  then obtain ms where ms: "lv_stored V ?l (meta_database db) = Some ms" using lv_handle_law(1) [OF laws] by blast
  have other: "?m \<noteq> ti_context tab" using table_database_meta [OF c(1) i(1)] c(4) m by auto
  have rep: "ld_rep V ?P w (ti_context tab) kl ys" by (rule open_table_rep [OF opened(1) ps(3)])
  obtain w' logs' where u: "nldb_updates tab tx ps (w, logs) = Some (w', logs')" "ld_rep V ?P w' (ti_context tab) kl (fold apply_op ps ys)"
      "frame (ld_rep V ?P) (ti_context tab) w w'" "tx_log tx logs' (rs @ map (op_record i) ps)"
    using table_plugin.nldb_updates_law [OF plugin_leveldb_contract [OF laws] opened(2) _ _ rep log(1) ps(1,2)] c(3) i log(2) by auto
  have "ld_rep V ?P w ?m 0 ms" using m ms by (simp add: ld_rep_def)
  then have "ld_rep V ?P w' ?m 0 ms" by (rule frameD [OF u(3) other])
  then have "db_ready V w' db \<and> catalogued V w' db i pid" using c(1,2) m ms by (auto simp: ld_rep_def db_ready_def catalogued_def)
  moreover have "open_table V w' db i pid tab (fold apply_op ps ys) \<longleftrightarrow> db_ready V w' db \<and> catalogued V w' db i pid"
    using u(2) c(3,4) by (auto simp: open_table_def ld_rep_def)
  ultimately show ?thesis using u(1,4) by blast
qed

lemma close_law:
  assumes laws: "leveldb_laws lib V" and opened: "open_table V w db i pid tab ys" "ti_plugin tab = plugin_leveldb lib g" and i: "0 < i"
  shows "\<exists>w'. nldb_table_close w tab = Some (NLDB_OK, w') \<and> closed_table V w' db i pid ys"
proof -
  let ?l = "w_leveldb w" and ?h = "ti_context tab" and ?n = "table_database db i"
  have c: "db_ready V w db" "catalogued V w db i pid" "lv_handle V ?l ?h = Some ?n" "lv_stored V ?l ?n = Some ys"
    using opened(1) by (auto simp: open_table_def)
  have l: "lv_handle V (ldb_delete lib ?l ?h) = (lv_handle V ?l)(?h := None)" "lv_stored V (ldb_delete lib ?l ?h) = lv_stored V ?l"
    using ldb_delete_law [OF laws] c(3) by auto
  have "?n \<notin> ran ((lv_handle V ?l)(?h := None))" using lv_handle_law(2) [OF laws c(3)] by (auto simp: ran_def)
  moreover have "db_meta_table_context db \<noteq> ?h" using table_database_meta [OF c(1) i] c(1,3) by (auto simp: db_ready_def)
  ultimately have "closed_table V (w\<lparr>w_leveldb := ldb_delete lib ?l ?h\<rparr>) db i pid ys"
    using c l by (simp add: closed_table_def db_ready_def catalogued_def)
  then show ?thesis using opened(2) by (simp add: nldb_table_close_def ti_destroy_def plugin_leveldb_def ld_table_close_def)
qed

text \<open>Dropping removes the entry in the catalogue, but not the LevelDB database.\<close>

lemma drop_law:
  assumes laws: "leveldb_laws lib V" and closed: "closed_table V w db i pid ys" and i: "0 < i"
  shows "\<exists>w'. nldb_table_drop lib w db i = Some (NLDB_OK, w') \<and> db_ready V w' db \<and>
     table_database db i \<notin> ran (lv_handle V (w_leveldb w')) \<and> lv_stored V (w_leveldb w') (table_database db i) = Some ys \<and>
     nldb_table_open lib reg w' db i = Some (NLDB_ERROR_KEY_NOT_FOUND, None, w')"
proof -
  let ?l = "w_leveldb w" and ?m = "db_meta_table_context db" and ?k = "meta_entry i"
  have c: "db_ready V w db" "table_database db i \<notin> ran (lv_handle V ?l)" "lv_stored V ?l (table_database db i) = Some ys"
    using closed by (auto simp: closed_table_def)
  obtain ms v where ms: "lv_stored V ?l (meta_database db) = Some ms" "map_of ms ?k = Some v"
    using closed by (auto simp: closed_table_def catalogued_def)
  have m: "lv_handle V ?l ?m = Some (meta_database db)" using c(1) by (simp add: db_ready_def)
  have g: "ldb_Get lib ?l ?m ?k = (LdbOk, v)" by (rule ldb_update_law(4) [OF laws m ms])
  obtain l1 where l1: "ldb_Delete lib ?l ?m ?k = (LdbOk, l1)" "lv_handle V l1 = lv_handle V ?l"
      "lv_stored V l1 = (lv_stored V ?l)(meta_database db \<mapsto> ord_del ?k ms)"
    using ldb_update_law(2) [OF laws m ms(1)] by blast
  have "fst (ldb_Get lib l1 ?m ?k) = LdbNotFound"
    by (rule ldb_update_law(3) [OF laws, of l1 ?m "meta_database db" "ord_del ?k ms"]) (use m l1 in \<open>auto simp: map_of_ord_del\<close>)
  then have "nldb_table_open lib reg (w\<lparr>w_leveldb := l1\<rparr>) db i = Some (NLDB_ERROR_KEY_NOT_FOUND, None, w\<lparr>w_leveldb := l1\<rparr>)"
    using get_slice_meta_key [of i]
    by (auto simp: nldb_table_open_def ti_init_def meta_get_def ld_table_get_def meta_entry_def split: prod.split)
  moreover have "nldb_table_drop lib w db i = Some (NLDB_OK, w\<lparr>w_leveldb := l1\<rparr>)"
    using g l1(1) get_slice_meta_key [of i] by (simp add: nldb_table_drop_def meta_del_def ld_table_del_def meta_entry_def)
  moreover have "lv_stored V l1 (table_database db i) = Some ys" using l1(3) c(3) table_database_meta [OF c(1) i] by simp
  ultimately show ?thesis using c l1(2) by (simp add: db_ready_def)
qed

lemma get_law:
  assumes "leveldb_laws lib V" "open_table V w db i pid tab ys" "ti_plugin tab = plugin_leveldb lib g" "length k < 2 ^ 16"
  shows "nldb_table_get w tab (the_key k) False =
     Some (case map_of ys k of None \<Rightarrow> (NLDB_ERROR_KEY_NOT_FOUND, None, None) | Some v \<Rightarrow> (NLDB_OK, Some (the_value v), None))"
  using ld_get [OF assms(1) open_table_rep [OF assms(2), of 0] describes_the_key [OF assms(4)]] assms(3)
  by (simp add: nldb_table_get_def ti_get_def)

end
