(* ===== verification/Leveldb_Example.thy ===== *)
theory Leveldb_Example
  imports Persistent_Tables
begin

text \<open>
  A small LevelDB that satisfies \<open>leveldb_laws\<close>, so that the properties of persistent tables can be applied: databases, handles and iterators are kept
  in maps, and pointers are numbered.
\<close>

record sample_state =
  st_files :: "string \<rightharpoonup> table_content"
  st_handles :: "ptr \<rightharpoonup> string"
  st_iters :: "ptr \<rightharpoonup> table_content \<times> nat option"
  st_next :: ptr

definition sample_wf :: "sample_state \<Rightarrow> bool" where
  "sample_wf s \<longleftrightarrow> 0 < st_next s \<and> (\<forall>h. st_handles s h \<noteq> None \<longrightarrow> h < st_next s) \<and> (\<forall>it. st_iters s it \<noteq> None \<longrightarrow> it < st_next s) \<and>
     (\<forall>h h' n. st_handles s h = Some n \<longrightarrow> st_handles s h' = Some n \<longrightarrow> h' = h) \<and> ran (st_handles s) \<subseteq> dom (st_files s) \<and>
     (\<forall>n ys. st_files s n = Some ys \<longrightarrow> sorted_keys ys)"

typedef sample_store = "{s. sample_wf s}"
  by (rule exI [of _ "\<lparr>st_files = Map.empty, st_handles = Map.empty, st_iters = Map.empty, st_next = 1\<rparr>"]) (simp add: sample_wf_def)

setup_lifting type_definition_sample_store

section \<open>Its state\<close>

lift_definition files :: "sample_store \<Rightarrow> string \<rightharpoonup> table_content" is st_files .
lift_definition handles :: "sample_store \<Rightarrow> ptr \<rightharpoonup> string" is st_handles .
lift_definition iters :: "sample_store \<Rightarrow> ptr \<rightharpoonup> table_content \<times> nat option" is st_iters .
lift_definition fresh :: "sample_store \<Rightarrow> ptr" is st_next .

lift_definition empty_store :: sample_store is "\<lparr>st_files = Map.empty, st_handles = Map.empty, st_iters = Map.empty, st_next = 1\<rparr>"
  by (simp add: sample_wf_def)

lift_definition set_file :: "string \<Rightarrow> table_content \<Rightarrow> sample_store \<Rightarrow> sample_store" is
  "\<lambda>n ys s. if sorted_keys ys then s\<lparr>st_files := (st_files s)(n \<mapsto> ys)\<rparr> else s"
  by (auto simp: sample_wf_def)

lift_definition add_handle :: "string \<Rightarrow> sample_store \<Rightarrow> sample_store" is
  "\<lambda>n s. if n \<in> ran (st_handles s) \<or> st_files s n = None then s else s\<lparr>st_handles := (st_handles s)(st_next s \<mapsto> n), st_next := st_next s + 1\<rparr>"
  by (fastforce simp: sample_wf_def ran_def less_Suc_eq)

lift_definition remove_handle :: "ptr \<Rightarrow> sample_store \<Rightarrow> sample_store" is "\<lambda>h s. s\<lparr>st_handles := (st_handles s)(h := None)\<rparr>"
  by (auto simp: sample_wf_def ran_def)

lift_definition add_iter :: "table_content \<Rightarrow> sample_store \<Rightarrow> sample_store" is
  "\<lambda>ys s. s\<lparr>st_iters := (st_iters s)(st_next s \<mapsto> (ys, None)), st_next := st_next s + 1\<rparr>"
  by (auto simp: sample_wf_def less_Suc_eq)

lift_definition set_iter :: "ptr \<Rightarrow> table_content \<times> nat option \<Rightarrow> sample_store \<Rightarrow> sample_store" is
  "\<lambda>it x s. if st_iters s it = None then s else s\<lparr>st_iters := (st_iters s)(it \<mapsto> x)\<rparr>"
  by (auto simp: sample_wf_def)

lift_definition remove_iter :: "ptr \<Rightarrow> sample_store \<Rightarrow> sample_store" is "\<lambda>it s. s\<lparr>st_iters := (st_iters s)(it := None)\<rparr>"
  by (auto simp: sample_wf_def)

lemmas store_rep_eqs = files.rep_eq handles.rep_eq iters.rep_eq fresh.rep_eq empty_store.rep_eq set_file.rep_eq add_handle.rep_eq
  remove_handle.rep_eq add_iter.rep_eq set_iter.rep_eq remove_iter.rep_eq

lemma store_facts:
  shows "0 < fresh s" "handles s (fresh s) = None" "iters s (fresh s) = None" "handles s h = Some n \<Longrightarrow> files s n \<noteq> None"
    "handles s h = Some n \<Longrightarrow> handles s h' = Some n \<Longrightarrow> h' = h" "files s n = Some ys \<Longrightarrow> sorted_keys ys"
proof -
  have wf: "sample_wf (Rep_sample_store s)" using Rep_sample_store [of s] by simp
  show "0 < fresh s" using wf by (simp add: sample_wf_def store_rep_eqs)
  show "handles s (fresh s) = None" "iters s (fresh s) = None" using wf unfolding sample_wf_def store_rep_eqs by (metis less_irrefl)+
  show "handles s h = Some n \<Longrightarrow> files s n \<noteq> None" using wf by (auto simp: sample_wf_def store_rep_eqs ran_def)
  show "handles s h = Some n \<Longrightarrow> handles s h' = Some n \<Longrightarrow> h' = h" using wf unfolding sample_wf_def store_rep_eqs by blast
  show "files s n = Some ys \<Longrightarrow> sorted_keys ys" using wf unfolding sample_wf_def store_rep_eqs by blast
qed

lemma store_simps [simp]:
  "sorted_keys ys \<Longrightarrow> files (set_file n ys s) = (files s)(n \<mapsto> ys)" "handles (set_file n ys s) = handles s" "iters (set_file n ys s) = iters s"
  "fresh (set_file n ys s) = fresh s"
  "files (add_handle n s) = files s" "iters (add_handle n s) = iters s"
  "n \<notin> ran (handles s) \<Longrightarrow> files s n \<noteq> None \<Longrightarrow> handles (add_handle n s) = (handles s)(fresh s \<mapsto> n)"
  "files (remove_handle h s) = files s" "iters (remove_handle h s) = iters s" "handles (remove_handle h s) = (handles s)(h := None)"
  "files (add_iter ys s) = files s" "handles (add_iter ys s) = handles s" "iters (add_iter ys s) = (iters s)(fresh s \<mapsto> (ys, None))"
  "files (set_iter it x s) = files s" "handles (set_iter it x s) = handles s"
  "iters s it \<noteq> None \<Longrightarrow> iters (set_iter it x s) = (iters s)(it \<mapsto> x)"
  "files (remove_iter it s) = files s" "handles (remove_iter it s) = handles s" "iters (remove_iter it s) = (iters s)(it := None)"
  "files empty_store = Map.empty" "handles empty_store = Map.empty" "iters empty_store = Map.empty"
  by (auto simp: store_rep_eqs)

section \<open>Its functions\<close>

definition sample_open :: "sample_store \<Rightarrow> bool \<Rightarrow> string \<Rightarrow> ldb_status \<times> ptr \<times> sample_store" where
  "sample_open s create n =
     (if n \<in> ran (handles s) \<or> (files s n = None \<and> \<not> create) then (LdbError, NULL, s)
      else (LdbOk, fresh s, add_handle n (case files s n of None \<Rightarrow> set_file n [] s | Some ys \<Rightarrow> s)))"

definition sample_file :: "sample_store \<Rightarrow> ptr \<Rightarrow> table_content" where
  "sample_file s h = the (files s (the (handles s h)))"

definition sample_position :: "sample_store \<Rightarrow> ptr \<Rightarrow> nat" where
  "sample_position s it = the (snd (the (iters s it)))"

definition sample_snapshot :: "sample_store \<Rightarrow> ptr \<Rightarrow> table_content" where
  "sample_snapshot s it = fst (the (iters s it))"

definition sample_move :: "sample_store \<Rightarrow> ptr \<Rightarrow> nat option \<Rightarrow> sample_store" where
  "sample_move s it p = set_iter it (sample_snapshot s it, p) s"

definition sample_leveldb :: "sample_store leveldb" where
  "sample_leveldb =
     \<lparr>ldb_Open = sample_open, ldb_delete = (\<lambda>s h. remove_handle h s), ldb_DestroyDB = (\<lambda>s n. (LdbError, s)),
      ldb_Put = (\<lambda>s h k v. (LdbOk, set_file (the (handles s h)) (ord_put k v (sample_file s h)) s)),
      ldb_Get = (\<lambda>s h k. case map_of (sample_file s h) k of None \<Rightarrow> (LdbNotFound, []) | Some v \<Rightarrow> (LdbOk, v)),
      ldb_Delete = (\<lambda>s h k. (LdbOk, set_file (the (handles s h)) (ord_del k (sample_file s h)) s)),
      ldb_NewIterator = (\<lambda>s h. (fresh s, add_iter (sample_file s h) s)),
      ldb_Seek = (\<lambda>s it k. sample_move s it (position (sample_snapshot s it) (rank_lt k (sample_snapshot s it)))),
      ldb_iter_status = (\<lambda>s it. LdbOk), ldb_Valid = (\<lambda>s it. snd (the (iters s it)) \<noteq> None),
      ldb_iter_key = (\<lambda>s it. fst (sample_snapshot s it ! sample_position s it)),
      ldb_iter_value = (\<lambda>s it. snd (sample_snapshot s it ! sample_position s it)),
      ldb_Next = (\<lambda>s it. sample_move s it (position (sample_snapshot s it) (sample_position s it + 1))),
      ldb_Prev = (\<lambda>s it. sample_move s it (if sample_position s it = 0 then None
                                           else position (sample_snapshot s it) (sample_position s it - 1))),
      ldb_delete_iterator = (\<lambda>s it. remove_iter it s)\<rparr>"

definition sample_view :: "sample_store leveldb_view" where
  "sample_view = \<lparr>lv_stored = files, lv_handle = handles, lv_iter = iters\<rparr>"

lemma sample_view_simps [simp]: "lv_stored sample_view = files" "lv_handle sample_view = handles" "lv_iter sample_view = iters"
  by (simp_all add: sample_view_def)

lemma sample_open_law:
  assumes "n \<notin> ran (handles s)"
  shows "\<exists>h s'. sample_open s True n = (LdbOk, h, s') \<and> h \<noteq> NULL \<and> handles s h = None \<and> handles s' = (handles s)(h \<mapsto> n) \<and> iters s' = iters s \<and>
     files s' = (files s)(n \<mapsto> (case files s n of None \<Rightarrow> [] | Some ys \<Rightarrow> ys))"
  using assms store_facts(1,2) [of s] by (auto simp: sample_open_def split: option.split)

lemma sample_leveldb_laws: "leveldb_laws sample_leveldb sample_view"
  unfolding leveldb_laws_def
proof (intro conjI)
  show "leveldb_open_laws sample_leveldb sample_view"
    using sample_open_law store_facts(4-6) unfolding leveldb_open_laws_def by (simp add: sample_leveldb_def)
  show "leveldb_update_laws sample_leveldb sample_view"
    unfolding leveldb_update_laws_def
    by (auto simp: sample_leveldb_def sample_file_def ord_put_sorted [OF store_facts(6)] ord_del_sorted [OF store_facts(6)])
  show "leveldb_iterator_laws sample_leveldb sample_view"
    using store_facts(3) unfolding leveldb_iterator_laws_def
    by (simp add: sample_leveldb_def sample_file_def sample_move_def sample_snapshot_def sample_position_def lv_same_def)
qed

section \<open>An open database\<close>

text \<open>Database 1 with its meta table open.\<close>

definition sample_disk :: "(sample_store, unit) world" where
  "sample_disk = \<lparr>w_leveldb = snd (snd (sample_open empty_store True (leveldb_name 1 0))), w_tc = (), w_tables = Map.empty,
     w_cursors = Map.empty, w_leveldb_cursors = Map.empty, w_next = 1\<rparr>"

definition sample_db :: db_impl where
  "sample_db = (db_impl_new [])\<lparr>db_id := 1, db_meta_table_context := fresh empty_store\<rparr>"

definition sample_registry :: "(sample_store, unit) world plugin_registry" where
  "sample_registry = snd (snd (nldb_plugin_add plugin_registry_new (plugin_leveldb sample_leveldb 0)))"

lemma sample_registry_plugin: "nldb_plugin sample_registry 0 = Some (plugin_leveldb sample_leveldb 0)"
  by (simp add: sample_registry_def nldb_plugin_add_def plugin_registry_new_def nldb_plugin_def numeral_eq_Suc)

lemma sample_disk_handles: "handles (w_leveldb sample_disk) = [fresh empty_store \<mapsto> leveldb_name 1 0]"
    "files (w_leveldb sample_disk) = [leveldb_name 1 0 \<mapsto> []]"
  by (simp_all add: sample_disk_def sample_open_def)

lemma sample_db_ready: "db_ready sample_view sample_disk sample_db"
  by (simp add: db_ready_def sample_db_def sample_disk_handles)

lemma sample_table_new:
  assumes "0 < i"
  shows "table_database sample_db i \<notin> ran (lv_handle sample_view (w_leveldb sample_disk))"
    "lv_stored sample_view (w_leveldb sample_disk) (table_database sample_db i) = None"
  using table_database_meta [OF sample_db_ready assms] by (simp_all add: sample_disk_handles sample_db_def)

end
