(* ===== verification/Persistent_Properties.thy ===== *)
theory Persistent_Properties
  imports Leveldb_Cursors Leveldb_Example Replication_Properties
begin

text \<open>
  Properties of persistent tables, for any LevelDB with the documented behaviour: what is stored survives closing and opening, cursors walk over
  a snapshot, a slave keeps persistent tables like volatile ones; and two places where the plugin differs from what its clients expect.
\<close>

section \<open>Closing and opening\<close>

text \<open>
  C11: a persistent table that is created in an open database, opened, updated in a transaction by any permitted sequence of put and del, and closed is found
  again when it is opened by its id: each lookup answers with the last update of the key.
\<close>

theorem persistent_table_reopens:
  assumes "leveldb_laws lib V" "db_ready V w db" "0 < i" "i \<le> 65536" "table_database db i \<notin> ran (lv_handle V (w_leveldb w))"
    "lv_stored V (w_leveldb w) (table_database db i) = None" "nldb_plugin reg pid = Some (plugin_leveldb lib g)"
    "ops_ok kl cap ps []" "list_all value_ok ps" "kl < 2 ^ 16" "length k < 2 ^ 16"
    "tx_log tx logs rs" "16 + logs_size (rs @ map (op_record i) ps) < TX_REPLICATION_MESSAGE_SIZE"
  shows "\<exists>w1 tab w2 w3 logs' w4 tab' w5. nldb_table_create lib reg w db i pid = Some (NLDB_OK, w1) \<and>
     nldb_table_open lib reg w1 db i = Some (NLDB_OK, Some tab, w2) \<and> nldb_updates tab tx ps (w2, logs) = Some (w3, logs') \<and>
     nldb_table_close w3 tab = Some (NLDB_OK, w4) \<and> nldb_table_open lib reg w4 db i = Some (NLDB_OK, Some tab', w5) \<and>
     nldb_table_get w5 tab' (the_key k) False = Some (case history ps Map.empty k of
       None \<Rightarrow> (NLDB_ERROR_KEY_NOT_FOUND, None, None) | Some v \<Rightarrow> (NLDB_OK, Some (the_value v), None))"
proof -
  note laws = assms(1) and pid = assms(7)
  obtain w1 where w1: "nldb_table_create lib reg w db i pid = Some (NLDB_OK, w1)" "closed_table V w1 db i pid []"
    using create_law [OF laws assms(2,3) _ assms(5) pid] assms(4,6) by auto
  obtain tab w2 where w2: "nldb_table_open lib reg w1 db i = Some (NLDB_OK, Some tab, w2)" "ti_plugin tab = plugin_leveldb lib g"
      "open_table V w2 db i pid tab []"
    using open_law [OF laws w1(2) assms(3) pid] by blast
  obtain w3 logs' where w3: "nldb_updates tab tx ps (w2, logs) = Some (w3, logs')" "open_table V w3 db i pid tab (fold apply_op ps [])"
    using updates_law [OF laws w2(3,2) assms(3,4,8,9,10,12,13)] by blast
  obtain w4 where w4: "nldb_table_close w3 tab = Some (NLDB_OK, w4)" "closed_table V w4 db i pid (fold apply_op ps [])"
    using close_law [OF laws w3(2) w2(2) assms(3)] by blast
  obtain tab' w5 where w5: "nldb_table_open lib reg w4 db i = Some (NLDB_OK, Some tab', w5)" "ti_plugin tab' = plugin_leveldb lib g"
      "open_table V w5 db i pid tab' (fold apply_op ps [])"
    using open_law [OF laws w4(2) assms(3) pid] by blast
  show ?thesis
    using w1(1) w2(1) w3(1) w4(1) w5(1) get_law [OF laws w5(3,2) assms(11)] by (auto simp: map_of_fold_apply_op)
qed

abbreviation (input) sample_updates :: "byte list table_op list" where
  "sample_updates \<equiv> [Put [7] [8, 9, 10], Put [6] [], Put [7] [1], Put [9] [2], Del [6]]"

lemma sample_updates_ok:
  "ops_ok 1 100 sample_updates []" "list_all value_ok sample_updates"
  "16 + logs_size ([] @ map (op_record 3) sample_updates) < TX_REPLICATION_MESSAGE_SIZE"
  by (simp_all add: ord_put_def record_size_def put_record_def del_record_def al_def)

theorem persistent_table_reopens_witness:
  "\<exists>tx logs w1 tab w2 w3 logs' w4 tab' w5. nldb_table_create sample_leveldb sample_registry sample_disk sample_db 3 0 = Some (NLDB_OK, w1) \<and>
     nldb_table_open sample_leveldb sample_registry w1 sample_db 3 = Some (NLDB_OK, Some tab, w2) \<and>
     nldb_updates tab tx sample_updates (w2, logs) = Some (w3, logs') \<and> nldb_table_close w3 tab = Some (NLDB_OK, w4) \<and>
     nldb_table_open sample_leveldb sample_registry w4 sample_db 3 = Some (NLDB_OK, Some tab', w5) \<and>
     nldb_table_get w5 tab' (the_key [7]) False = Some (NLDB_OK, Some (the_value [1]), None)"
proof -
  obtain tx logs where log: "tx_log tx logs []" using sample_tx_log by blast
  note new = sample_table_new [of 3, simplified]
  from persistent_table_reopens [OF sample_leveldb_laws sample_db_ready _ _ _ _ sample_registry_plugin sample_updates_ok(1,2) _ _ log
      sample_updates_ok(3), of "[7]"] new
  show ?thesis by fastforce
qed

text \<open>
  C33: dropping a persistent table does not delete it: \<^verbatim>\<open>nldb_table_drop\<close> removes only the entry in the meta table. When a table
  of the same id is created again, it has the content that was there before.
\<close>

theorem dropped_table_keeps_content:
  assumes "leveldb_laws lib V" "closed_table V w db i pid ys" "0 < i" "i \<le> 65536" "nldb_plugin reg pid = Some (plugin_leveldb lib g)" "length k < 2 ^ 16"
  shows "\<exists>w1 w2 tab w3. nldb_table_drop lib w db i = Some (NLDB_OK, w1) \<and>
     nldb_table_open lib reg w1 db i = Some (NLDB_ERROR_KEY_NOT_FOUND, None, w1) \<and>
     nldb_table_create lib reg w1 db i pid = Some (NLDB_OK, w2) \<and> nldb_table_open lib reg w2 db i = Some (NLDB_OK, Some tab, w3) \<and>
     nldb_table_get w3 tab (the_key k) False = Some (case map_of ys k of
       None \<Rightarrow> (NLDB_ERROR_KEY_NOT_FOUND, None, None) | Some v \<Rightarrow> (NLDB_OK, Some (the_value v), None))"
proof -
  note laws = assms(1)
  obtain w1 where w1: "nldb_table_drop lib w db i = Some (NLDB_OK, w1)" "db_ready V w1 db"
      "table_database db i \<notin> ran (lv_handle V (w_leveldb w1))" "lv_stored V (w_leveldb w1) (table_database db i) = Some ys"
      "nldb_table_open lib reg w1 db i = Some (NLDB_ERROR_KEY_NOT_FOUND, None, w1)"
    using drop_law [OF laws assms(2,3), of reg] by blast
  obtain w2 where w2: "nldb_table_create lib reg w1 db i pid = Some (NLDB_OK, w2)" "closed_table V w2 db i pid ys"
    using create_law [OF laws w1(2) assms(3) _ w1(3) assms(5)] assms(4) w1(4) by auto
  obtain tab w3 where w3: "nldb_table_open lib reg w2 db i = Some (NLDB_OK, Some tab, w3)" "ti_plugin tab = plugin_leveldb lib g"
      "open_table V w3 db i pid tab ys"
    using open_law [OF laws w2(2) assms(3,5)] by blast
  show ?thesis using w1(1,5) w2(1) w3(1) get_law [OF laws w3(3,2) assms(6)] by auto
qed

theorem dropped_table_keeps_content_witness:
  "\<exists>w w1 w2 tab w3. closed_table sample_view w sample_db 3 0 [([7], [1])] \<and>
     nldb_table_drop sample_leveldb w sample_db 3 = Some (NLDB_OK, w1) \<and>
     nldb_table_create sample_leveldb sample_registry w1 sample_db 3 0 = Some (NLDB_OK, w2) \<and>
     nldb_table_open sample_leveldb sample_registry w2 sample_db 3 = Some (NLDB_OK, Some tab, w3) \<and>
     nldb_table_get w3 tab (the_key [7]) False = Some (NLDB_OK, Some (the_value [1]), None)"
proof -
  define w0 where "w0 = sample_disk\<lparr>w_leveldb := set_file (table_database sample_db 3) [([7], [1])] (w_leveldb sample_disk)\<rparr>"
  have files: "lv_stored sample_view (w_leveldb w0) (table_database sample_db 3) = Some [([7], [1])]" by (simp add: w0_def)
  have ready: "db_ready sample_view w0 sample_db" using sample_db_ready by (simp add: w0_def db_ready_def)
  have "table_database sample_db 3 \<notin> ran (lv_handle sample_view (w_leveldb w0))" using sample_table_new(1) [of 3] by (simp add: w0_def)
  from create_law [OF sample_leveldb_laws ready _ _ this sample_registry_plugin] files
  obtain w :: "(sample_store, unit) world" where w: "closed_table sample_view w sample_db 3 0 [([7], [1])]" by auto
  from dropped_table_keeps_content [OF sample_leveldb_laws w _ _ sample_registry_plugin, of "[7]"] w show ?thesis by fastforce
qed

section \<open>A failing disk\<close>

text \<open>
  C32: a put that LevelDB rejects is reported as a success: the table is unchanged, and the record of the put is in the log of the transaction, so that slaves
  store a pair that the master does not have.
\<close>

theorem failed_put_is_replicated:
  assumes "ti_plugin tab = plugin_leveldb lib g" "ldb_Put lib (w_leveldb w) (ti_context tab) k v = (LdbError, w_leveldb w)"
    "length k < 2 ^ 16" "length v < 2 ^ 16" "0 < ti_table_id tab" "ti_table_id tab \<le> 65536" "tx_log tx logs rs"
    "16 + logs_size rs + record_size (put_record (ti_table_id tab) k v) < TX_REPLICATION_MESSAGE_SIZE"
  shows "\<exists>logs'. nldb_table_put w tx logs tab (the_key k) (the_value v) = Some (NLDB_OK, w, logs') \<and>
     tx_log tx logs' (rs @ [put_record (ti_table_id tab) k v])"
proof -
  note d = describes_the_key [OF assms(3)] describes_the_value [OF assms(4)]
  have "record_ok (put_record (ti_table_id tab) k v)" using assms(3-6) by (simp add: record_ok_simps)
  then obtain logs' where l: "append_log_put tx logs (ti_table_id tab) (the_key k) (the_value v) = Some (NLDB_OK, logs')"
      "log_extended tx logs (rs @ [put_record (ti_table_id tab) k v]) logs'"
    by (rule append_put_log [OF assms(7) _ assms(8) d])
  have "ti_put w tab (the_key k) (the_value v) = Some (NLDB_OK, w)"
    using slice_described(1) [OF d(1)] slice_described(2) [OF d(2)] assms(1,2) by (simp add: ti_put_def plugin_leveldb_def ld_table_put_def)
  then show ?thesis using l(1) log_extended_tx_log [OF l(2) assms(7)] by (simp add: nldb_table_put_def)
qed

theorem failed_put_is_replicated_witness:
  "\<exists>tab. \<exists>w :: (sample_store, unit) world. \<exists>tx logs logs'. tx_log tx logs [] \<and>
     nldb_table_put w tx logs tab (the_key [7]) (the_value [8, 9]) = Some (NLDB_OK, w, logs') \<and> tx_log tx logs' [put_record 3 [7] [8, 9]]"
proof -
  define tab :: "(sample_store, unit) world table_impl" where
    "tab = \<lparr>ti_table_id = 3, ti_plugin_id = 0, ti_plugin = plugin_leveldb (sample_leveldb\<lparr>ldb_Put := \<lambda>s h k v. (LdbError, s)\<rparr>) 0, ti_desc = fresh_desc,
       ti_context = fresh empty_store\<rparr>"
  have tab: "ti_plugin tab = plugin_leveldb (sample_leveldb\<lparr>ldb_Put := \<lambda>s h k v. (LdbError, s)\<rparr>) 0" "ti_table_id tab = 3" by (simp_all add: tab_def)
  obtain tx logs where log: "tx_log tx logs []" using sample_tx_log by blast
  from failed_put_is_replicated [OF tab(1) _ _ _ _ _ log, of sample_disk "[7]" "[8, 9]"] log show ?thesis
    by (fastforce simp: tab(2) record_size_def put_record_def al_def)
qed

section \<open>Cursors\<close>

text \<open>
  C16: a cursor on a persistent table walks over the content that the table had when the cursor was opened, whatever updates are made in between: upwards
  over all pairs from the sought key on, and downwards from a key that was stored; then it reports the end.
\<close>

theorem persistent_cursor_scans_snapshot:
  assumes "leveldb_laws lib V" "ld_table V w h kl ys" "ops_ok kl cap ps ys" "list_all value_ok ps" "length k < 2 ^ 16"
    "length j < 2 ^ 16" "map_of ys j \<noteq> None"
  shows "\<exists>c w1 w2 w3 w4. pl_cursor_open (plugin_leveldb lib g) w h = Some (NLDB_OK, c, w1) \<and>
     plugin_ops (plugin_leveldb lib g) h ps w1 = Some w2 \<and>
     pl_cursor_seek (plugin_leveldb lib g) w2 c NLDB_CURSOR_FORWARD (the_key k) = Some (NLDB_OK, w3) \<and>
     cursor_scan (plugin_leveldb lib g) w3 c = Some (map fetched (filter (\<lambda>e. k \<le> fst e) ys), NLDB_ERROR_END_OF_ITERATION) \<and>
     pl_cursor_seek (plugin_leveldb lib g) w2 c NLDB_CURSOR_BACKWARD (the_key j) = Some (NLDB_OK, w4) \<and>
     cursor_scan (plugin_leveldb lib g) w4 c = Some (map fetched (rev (filter (\<lambda>e. fst e \<le> j) ys)), NLDB_ERROR_END_OF_ITERATION)"
proof -
  note laws = assms(1)
  have sorted: "sorted_keys ys" using assms(2) lv_stored_sorted [OF laws] by (auto simp: ld_rep_def)
  obtain c w1 where w1: "pl_cursor_open (plugin_leveldb lib g) w h = Some (NLDB_OK, c, w1)" "ld_cursor V c g ys None w1" "ld_table V w1 h kl ys"
    using ld_cursor_open_law [OF laws assms(2)] by blast
  obtain w2 where w2: "plugin_ops (plugin_leveldb lib g) h ps w1 = Some w2" "ld_cursor V c g ys None w2"
    using ld_cursor_after_updates [OF laws w1(3,2) assms(3,4)] by blast
  have up: "drop (rank_lt k ys) ys = filter (\<lambda>e. k \<le> fst e) ys" by (rule drop_rank_lt [OF sorted])
  have j: "j \<in> fst ` set ys" using assms(7) by (simp add: map_of_eq_None_iff)
  then have "rank_le j ys = Suc (rank_lt j ys)" using rank_le_present [OF sorted] by simp
  then have down: "rank_lt j ys < length ys" "take (Suc (rank_lt j ys)) ys = filter (\<lambda>e. fst e \<le> j) ys"
    using rank_le_length [of j ys] filter_sorted_take(2) [OF sorted, of j] by simp_all
  show ?thesis
    using w1(1) w2(1) ld_seek_scan(1) [OF laws w2(2) assms(5), of g] ld_seek_scan(2) [OF laws w2(2) assms(6), of g] unfolding up
    by (simp add: down)
qed

definition sample_open_disk :: "(sample_store, unit) world" where
  "sample_open_disk = sample_disk\<lparr>w_leveldb := set_file (leveldb_name 1 0) [([2], [20]), ([4], [40]), ([6], [60])] (w_leveldb sample_disk)\<rparr>"

lemma sample_open_disk_table: "ld_table sample_view sample_open_disk (fresh empty_store) 1 [([2], [20]), ([4], [40]), ([6], [60])]"
  by (simp add: ld_rep_def sample_open_disk_def sample_disk_handles)

theorem persistent_cursor_scans_snapshot_witness:
  "\<exists>c w1 w2 w3. pl_cursor_open (plugin_leveldb sample_leveldb 0) sample_open_disk (fresh empty_store) = Some (NLDB_OK, c, w1) \<and>
     plugin_ops (plugin_leveldb sample_leveldb 0) (fresh empty_store) [Del [6], Put [5] [50]] w1 = Some w2 \<and>
     pl_cursor_seek (plugin_leveldb sample_leveldb 0) w2 c NLDB_CURSOR_FORWARD (the_key [3]) = Some (NLDB_OK, w3) \<and>
     cursor_scan (plugin_leveldb sample_leveldb 0) w3 c = Some (map fetched [([4], [40]), ([6], [60])], NLDB_ERROR_END_OF_ITERATION)"
  using persistent_cursor_scans_snapshot [OF sample_leveldb_laws sample_open_disk_table, of 100 "[Del [6], Put [5] [50]]" "[3]" "[2]" 0]
  by (simp add: ord_del_def) blast

text \<open>
  C34: a downward scan from a key that is not stored does not start at the next smaller key, as the tests of the cursors expect: it starts at the next larger
  one, and when there is none it delivers nothing, although all keys are smaller.
\<close>

theorem persistent_backward_seek_starts_above:
  assumes "leveldb_laws lib V" "ld_table V w h kl ys" "length k < 2 ^ 16" "map_of ys k = None"
  shows "\<exists>c w1 w2. pl_cursor_open (plugin_leveldb lib g) w h = Some (NLDB_OK, c, w1) \<and>
     pl_cursor_seek (plugin_leveldb lib g) w1 c NLDB_CURSOR_BACKWARD (the_key k) = Some (NLDB_OK, w2) \<and>
     cursor_scan (plugin_leveldb lib g) w2 c =
       (let above = filter (\<lambda>e. k < fst e) ys in
        Some (map fetched (if above = [] then [] else hd above # rev (filter (\<lambda>e. fst e < k) ys)), NLDB_ERROR_END_OF_ITERATION))"
proof -
  note laws = assms(1)
  let ?r = "rank_lt k ys"
  have sorted: "sorted_keys ys" using assms(2) lv_stored_sorted [OF laws] by (auto simp: ld_rep_def)
  have absent: "k \<notin> fst ` set ys" using assms(4) by (simp add: map_of_eq_None_iff)
  have "filter (\<lambda>e. k \<le> fst e) ys = filter (\<lambda>e. k < fst e) ys" using absent by (intro filter_cong) (auto simp: le_less)
  then have above: "drop ?r ys = filter (\<lambda>e. k < fst e) ys" using drop_rank_lt [OF sorted, of k] by simp
  have below: "take ?r ys = filter (\<lambda>e. fst e < k) ys" using filter_sorted_take(1) [OF sorted, of k] by simp
  have e: "(if ?r < length ys then rev (take (Suc ?r) ys) else []) =
      (if drop ?r ys = [] then [] else hd (drop ?r ys) # rev (take ?r ys))"
    by (simp add: take_Suc_conv_app_nth hd_drop_conv_nth)
  obtain c w1 where w1: "pl_cursor_open (plugin_leveldb lib g) w h = Some (NLDB_OK, c, w1)" "ld_cursor V c g ys None w1"
    using ld_cursor_open_law [OF laws assms(2)] by blast
  show ?thesis using w1(1) ld_seek_scan(2) [OF laws w1(2) assms(3), of g] unfolding e unfolding above below Let_def by blast
qed

theorem persistent_backward_seek_starts_above_witness:
  "\<exists>c w1 w2 w3. pl_cursor_open (plugin_leveldb sample_leveldb 0) sample_open_disk (fresh empty_store) = Some (NLDB_OK, c, w1) \<and>
     pl_cursor_seek (plugin_leveldb sample_leveldb 0) w1 c NLDB_CURSOR_BACKWARD (the_key [3]) = Some (NLDB_OK, w2) \<and>
     cursor_scan (plugin_leveldb sample_leveldb 0) w2 c = Some (map fetched [([4], [40]), ([2], [20])], NLDB_ERROR_END_OF_ITERATION) \<and>
     pl_cursor_seek (plugin_leveldb sample_leveldb 0) w1 c NLDB_CURSOR_BACKWARD (the_key [9]) = Some (NLDB_OK, w3) \<and>
     cursor_scan (plugin_leveldb sample_leveldb 0) w3 c = Some ([], NLDB_ERROR_END_OF_ITERATION)"
proof -
  note scan = persistent_backward_seek_starts_above [OF sample_leveldb_laws sample_open_disk_table, where g = 0]
  obtain c w1 w2 where w2: "pl_cursor_open (plugin_leveldb sample_leveldb 0) sample_open_disk (fresh empty_store) = Some (NLDB_OK, c, w1)"
      "pl_cursor_seek (plugin_leveldb sample_leveldb 0) w1 c NLDB_CURSOR_BACKWARD (the_key [3]) = Some (NLDB_OK, w2)"
      "cursor_scan (plugin_leveldb sample_leveldb 0) w2 c = Some (map fetched [([4], [40]), ([2], [20])], NLDB_ERROR_END_OF_ITERATION)"
    using scan [of "[3]"] by auto
  obtain w3 where "pl_cursor_seek (plugin_leveldb sample_leveldb 0) w1 c NLDB_CURSOR_BACKWARD (the_key [9]) = Some (NLDB_OK, w3)"
      "cursor_scan (plugin_leveldb sample_leveldb 0) w3 c = Some ([], NLDB_ERROR_END_OF_ITERATION)"
    using scan [of "[9]"] w2(1) by auto
  with w2 show ?thesis by blast
qed

section \<open>Replication\<close>

text \<open>
  C19: a slave may keep its tables in LevelDB: when they are open it applies any number of messages with consecutive transaction ids whose
  records are puts of values of at least two bytes and dels of stored keys, and its persistent tables then hold the result of redoing all
  records in order, where redoing a put stores the first two bytes of its value.
\<close>

theorem persistent_slave_applies_messages:
  assumes "leveldb_laws (ldb :: 'l leveldb) V" "idle_slave (plugin_leveldb ldb g) (ld_table V) s T" "sv_prevTransactionId s = 0"
    "length msgs = length rss" "length msgs < 2 ^ 63" "\<forall>i<length msgs. message_image (int i + 1) (rss ! i) (msgs ! i)" "redos_ok cap (concat rss) T"
  shows "\<exists>s'. replication_slave_thread_func lib reg msgs s = Some s' \<and> sv_prevTransactionId s' = int (length msgs) \<and>
     idle_slave (plugin_leveldb ldb g) (ld_table V) s' (fold redo (concat rss) T)"
proof -
  have "replicated_tables (plugin_leveldb ldb g :: ('l, 't) world nldb_plugin_t) cap (ld_table V)"
    unfolding replicated_tables_def by (rule plugin_leveldb_contract [OF assms(1)])
  note thread = replicated_tables.thread_law [OF this assms(2,4) _ assms(7), of lib reg]
  have "\<forall>i<length msgs. message_image (sv_prevTransactionId s + 1 + int i) (rss ! i) (msgs ! i)"
    using assms(3,6) by (simp add: add.commute)
  moreover have "int (length msgs) < 2 ^ 63" using assms(5) by (metis of_nat_less_iff of_nat_numeral of_nat_power)
  ultimately show ?thesis using thread assms(3) by auto
qed

text \<open>A slave whose table 1 is the one of \<open>sample_open_disk\<close>.\<close>

definition persistent_table :: "(sample_store, unit) world table_impl" where
  "persistent_table = \<lparr>ti_table_id = 1, ti_plugin_id = 0, ti_plugin = plugin_leveldb sample_leveldb 0, ti_desc = fresh_desc, ti_context = fresh empty_store\<rparr>"

definition persistent_slave :: "(sample_store, unit) slave" where
  "persistent_slave = (let s = snd (slave_start sample_open_disk (db_impl_new sample_mems) 1 False 1)
     in s\<lparr>sv_redoer := (sv_redoer s)\<lparr>rd_tables := (rd_tables (sv_redoer s))[1 := Some persistent_table]\<rparr>\<rparr>)"

lemma persistent_slave_fields:
  "sv_world persistent_slave = sample_open_disk" "rd_tables (sv_redoer persistent_slave) = (replicate 65537 None)[1 := Some persistent_table]"
  "sv_prevTransactionId persistent_slave = 0" "sv_nextTxId persistent_slave = 1"
  "db_tx_logs (sv_db persistent_slave) = tx_logs_new sample_mems" "tx_txEvent (rd_tx (sv_redoer persistent_slave)) = None"
  by (simp_all add: persistent_slave_def slave_start_def redoer_init_def redoer_new_def nldb_tx_init_def tx_init_def tx_impl_new_def db_impl_new_def)

lemma persistent_slave_idle:
  "idle_slave (plugin_leveldb sample_leveldb 0) (ld_table sample_view) persistent_slave [1 \<mapsto> (1, [([2], [20]), ([4], [40]), ([6], [60])])]"
proof -
  have "slave_tables (plugin_leveldb sample_leveldb 0) (ld_table sample_view) persistent_slave [1 \<mapsto> (1, [([2], [20]), ([4], [40]), ([6], [60])])]"
    unfolding slave_tables_def persistent_slave_fields
    by (intro conjI exI [of _ "\<lambda>t. persistent_table"])
      (auto simp: sample_open_disk_table [unfolded One_nat_def] persistent_table_def split: if_splits)
  then show ?thesis using idle_logs_new [OF sample_mems_ok] by (simp add: idle_slave_def persistent_slave_fields)
qed

theorem persistent_slave_applies_messages_witness:
  "\<forall>lib reg. \<exists>msg s'. message_image 1 [put_record 1 [4] [8, 9]] msg \<and> replication_slave_thread_func lib reg [msg] persistent_slave = Some s' \<and>
     idle_slave (plugin_leveldb sample_leveldb 0) (ld_table sample_view) s' [1 \<mapsto> (1, [([2], [20]), ([4], [8, 9]), ([6], [60])])]"
proof (intro allI)
  fix lib reg
  let ?r = "put_record 1 [4] [8, 9]" and ?T = "[1 \<mapsto> (1, [([2], [20]), ([4], [40]), ([6], [60])])] :: tables"
  have "record_ok ?r" "16 + record_size ?r < 65536" by (simp add: record_ok_simps) (simp add: record_size_def put_record_def al_def)
  then obtain msg where m: "message_image 1 [?r] msg" using message_exists by blast
  have "redos_ok 100 (concat [[?r]]) ?T" by (simp add: redo_ok_def record_ok_simps) (simp add: put_record_def)
  from persistent_slave_applies_messages [OF sample_leveldb_laws persistent_slave_idle _ _ _ _ this, of "[msg]" lib reg] m
  obtain s' where "replication_slave_thread_func lib reg [msg] persistent_slave = Some s'"
      "idle_slave (plugin_leveldb sample_leveldb 0) (ld_table sample_view) s' (redo ?r ?T)"
    by (auto simp: persistent_slave_fields)
  moreover have "redo ?r ?T = [1 \<mapsto> (1, [([2], [20]), ([4], [8, 9]), ([6], [60])])]"
    by (simp add: redo_def redo_content_def put_record_def ord_put_def)
  ultimately show "\<exists>msg s'. message_image 1 [?r] msg \<and> replication_slave_thread_func lib reg [msg] persistent_slave = Some s' \<and>
     idle_slave (plugin_leveldb sample_leveldb 0) (ld_table sample_view) s' [1 \<mapsto> (1, [([2], [20]), ([4], [8, 9]), ([6], [60])])]"
    using m by metis
qed

end
