(* ===== verification/Sockets.thy ===== *)
theory Sockets
  imports Redoer
begin

text \<open>
  The two ends of replication: the constructor and destructor of \<^verbatim>\<open>TxTransactionLogPublisher\<close> (\<^verbatim>\<open>nldb_txevent.h\<close>) and the thread of a slave, from
  connecting to the master to the receiving loop (\<^verbatim>\<open>nldb_repl_slave_thread.cpp\<close>). The functions of the messaging library Crossroads I/O are fields of the record
  \<open>crossroads\<close>, acting on a state \<open>'x\<close>. Progress messages on the standard output are left out.
\<close>

section \<open>The messaging library\<close>

datatype xs_socket_type = XS_PUB | XS_SUB
datatype xs_option = XS_SNDHWM | XS_RCVHWM | XS_SUBSCRIBE

record 'x crossroads =
  xs_init :: "'x \<Rightarrow> ptr \<times> 'x"
  xs_term :: "'x \<Rightarrow> ptr \<Rightarrow> int \<times> 'x"
  xs_socket :: "'x \<Rightarrow> ptr \<Rightarrow> xs_socket_type \<Rightarrow> ptr \<times> 'x"
  xs_close :: "'x \<Rightarrow> ptr \<Rightarrow> int \<times> 'x"
  xs_setsockopt :: "'x \<Rightarrow> ptr \<Rightarrow> xs_option \<Rightarrow> byte list \<Rightarrow> int \<times> 'x"
  xs_getsockopt :: "'x \<Rightarrow> ptr \<Rightarrow> xs_option \<Rightarrow> int"
  xs_bind :: "'x \<Rightarrow> ptr \<Rightarrow> string \<Rightarrow> int \<times> 'x"
  xs_connect :: "'x \<Rightarrow> ptr \<Rightarrow> string \<Rightarrow> int \<times> 'x"
  xs_msg_init :: "'x \<Rightarrow> int \<times> 'x"
  xs_recvmsg :: "'x \<Rightarrow> ptr \<Rightarrow> int \<times> byte list \<times> 'x"
  xs_msg_close :: "'x \<Rightarrow> int \<times> 'x"

section \<open>Addresses\<close>

text \<open>\<^verbatim>\<open>snprintf\<close> of a text into a buffer of \<open>n\<close> characters: at most \<open>n - 1\<close> of them, and a null character.\<close>

definition snprintf :: "nat \<Rightarrow> string \<Rightarrow> string \<Rightarrow> string" where
  "snprintf n txt buf = take (n - 1) txt @ CHR 0x00 # drop (Suc (length (take (n - 1) txt))) buf"

definition c_string :: "string \<Rightarrow> string" where
  "c_string buf = takeWhile (\<lambda>c. c \<noteq> CHR 0x00) buf"

text \<open>The address of the master, built in a buffer of 512 characters with unknown content; \<^term>\<open>None\<close> when the check of its last character fails.\<close>

definition address_text :: "string \<Rightarrow> 16 word \<Rightarrow> string" where
  "address_text ip port = ''tcp://'' @ ip @ '':'' @ show_nat (unat port)"

definition tcp_address :: "string \<Rightarrow> string \<Rightarrow> 16 word \<Rightarrow> string option" where
  "tcp_address buf ip port =
     (let addr = snprintf 512 (address_text ip port) (buf[511 := CHR 0x00])
      in if addr ! 511 \<noteq> CHR 0x00 then None else Some (c_string addr))"

section \<open>Options of a database\<close>

text \<open>
  The options of \<^verbatim>\<open>nldb_db_open\<close>. A host name is an array of 64 characters, of which those before the first null character count; without one the
  conversion to \<^verbatim>\<open>std::string\<close> reads past the array.
\<close>

record nldb_replication_master_op_t =
  op_ip :: string
  op_port :: "16 word"

record nldb_replication_master_desc_t =
  md_ip :: string
  md_port :: "16 word"

record nldb_replication_slave_op_t =
  so_master_desc :: nldb_replication_master_desc_t
  so_trigger_handler :: bool

definition host_name :: "string \<Rightarrow> string option" where
  "host_name ip = (if CHR 0x00 \<in> set ip then Some (c_string ip) else None)"

section \<open>The publisher\<close>

abbreviation (input) newhwm :: "byte list" where
  "newhwm \<equiv> le_bytes 4 (1024 * 1024 * 1024)"

definition publisher_open :: "'x crossroads \<Rightarrow> string \<Rightarrow> string \<Rightarrow> 16 word \<Rightarrow> 'x \<Rightarrow> (ptr \<times> ptr \<times> 'x) option" where
  "publisher_open X buf master_ip master_port x =
     do { bind_addr \<leftarrow> tcp_address buf master_ip master_port;
          let (context, x1) = xs_init X x;
          if context = NULL then None
          else let (publisher, x2) = xs_socket X x1 context XS_PUB in
          if publisher = NULL then None
          else let (rc, x3) = xs_setsockopt X x2 publisher XS_SNDHWM newhwm in
          if rc \<noteq> 0 then None
          else if xs_getsockopt X x3 publisher XS_SNDHWM \<noteq> 0 then None
          else let (rc, x4) = xs_bind X x3 publisher bind_addr in
          if rc = - 1 then None else Some (context, publisher, x4) }"

definition publisher_close :: "'x crossroads \<Rightarrow> ptr \<Rightarrow> ptr \<Rightarrow> 'x \<Rightarrow> 'x option" where
  "publisher_close X context publisher x =
     (let (rc, x1) = xs_close X x publisher in
      if rc \<noteq> 0 then None
      else let (rc, x2) = xs_term X x1 context in if rc \<noteq> 0 then None else Some x2)"

text \<open>
  \<^verbatim>\<open>nldb_db_open\<close> with its options: a master gets a replicator, whose construction opens the sockets of the publisher; for a slave the result says with
  which host, port and trigger handler the thread is started.
\<close>

definition nldb_db_open_options ::
    "'x crossroads \<Rightarrow> 'l leveldb \<Rightarrow> byte list list \<Rightarrow> string \<Rightarrow> ('l, 't) world \<Rightarrow> int \<Rightarrow> nldb_replication_master_op_t option
      \<Rightarrow> nldb_replication_slave_op_t option \<Rightarrow> 'x
      \<Rightarrow> (nldb_rc_t \<times> db_impl option \<times> ('l, 't) world \<times> (ptr \<times> ptr) option \<times> (string \<times> 16 word \<times> bool) option \<times> 'x) option" where
  "nldb_db_open_options X lib mems buf w i master_op slave_op x =
     do { (rc, db, w', _) \<leftarrow> nldb_db_open lib mems w i (master_op \<noteq> None) (slave_op \<noteq> None);
          if rc \<noteq> NLDB_OK then Some (rc, db, w', None, None, x)
          else do {
            (sockets, x') \<leftarrow> (case master_op of None \<Rightarrow> Some (None, x)
              | Some op \<Rightarrow> do { ip \<leftarrow> host_name (op_ip op);
                              (ctx, publisher, x1) \<leftarrow> publisher_open X buf ip (op_port op) x;
                              Some (Some (ctx, publisher), x1) });
            thread \<leftarrow> (case slave_op of None \<Rightarrow> Some None
              | Some op \<Rightarrow> do { ip \<leftarrow> host_name (md_ip (so_master_desc op));
                              Some (Some (ip, md_port (so_master_desc op), so_trigger_handler op)) });
            Some (rc, db, w', sockets, thread, x') } }"

section \<open>The thread of a slave\<close>

text \<open>The part before the redoer is initialised.\<close>

definition slave_connect :: "'x crossroads \<Rightarrow> string \<Rightarrow> string \<Rightarrow> 16 word \<Rightarrow> 'x \<Rightarrow> (ptr \<times> ptr \<times> 'x) option" where
  "slave_connect X buf master_ip master_port x =
     (let (context, x1) = xs_init X x in
      if context = NULL then None
      else let (subscriber, x2) = xs_socket X x1 context XS_SUB in
      if subscriber = NULL then None
      else let (xrc, x3) = xs_setsockopt X x2 subscriber XS_SUBSCRIBE [] in
      if xrc \<noteq> 0 then None
      else let (xrc, x4) = xs_setsockopt X x3 subscriber XS_RCVHWM newhwm in
      if xrc \<noteq> 0 then None
      else if xs_getsockopt X x4 subscriber XS_RCVHWM \<noteq> 0 then None
      else do {
        master_addr \<leftarrow> tcp_address buf master_ip master_port;
        let (xrc, x5) = xs_connect X x4 subscriber master_addr;
        if xrc = - 1 then None else Some (context, subscriber, x5) })"

text \<open>One pass through the receiving loop, and \<open>n\<close> passes: the loop itself has no end.\<close>

definition slave_receive ::
    "'x crossroads \<Rightarrow> 'l leveldb \<Rightarrow> ('l, 't) world plugin_registry \<Rightarrow> ptr \<Rightarrow> 'x \<times> ('l, 't) slave \<Rightarrow> ('x \<times> ('l, 't) slave) option" where
  "slave_receive X lib reg subscriber xs =
     (let (x, s) = xs; (xrc, x1) = xs_msg_init X x in
      if xrc \<noteq> 0 then None
      else let (xrc, replicationMessage, x2) = xs_recvmsg X x1 subscriber in
      if xrc = - 1 then None
      else do {
        (rc, s') \<leftarrow> applyReplicationMessage lib reg replicationMessage s;
        if rc \<noteq> NLDB_OK then None
        else let (xrc, x3) = xs_msg_close X x2 in if xrc \<noteq> 0 then None else Some (x3, s') })"

fun slave_passes ::
    "'x crossroads \<Rightarrow> 'l leveldb \<Rightarrow> ('l, 't) world plugin_registry \<Rightarrow> ptr \<Rightarrow> nat \<Rightarrow> 'x \<times> ('l, 't) slave \<Rightarrow> ('x \<times> ('l, 't) slave) option" where
  "slave_passes X lib reg subscriber 0 xs = Some xs"
| "slave_passes X lib reg subscriber (Suc n) xs = slave_receive X lib reg subscriber xs \<bind> slave_passes X lib reg subscriber n"

text \<open>The thread up to the end of pass \<open>n\<close>; it ends at once when the redoer cannot be initialised.\<close>

definition slave_thread ::
    "'x crossroads \<Rightarrow> 'l leveldb \<Rightarrow> ('l, 't) world plugin_registry \<Rightarrow> string \<Rightarrow> string \<Rightarrow> 16 word \<Rightarrow> ('l, 't) world \<Rightarrow> db_impl \<Rightarrow> ptr \<Rightarrow> bool \<Rightarrow> int
      \<Rightarrow> nat \<Rightarrow> 'x \<Rightarrow> ('x \<times> ('l, 't) slave) option" where
  "slave_thread X lib reg buf master_ip master_port w db dbp trigger_handler nextTxId n x =
     do { (context, subscriber, x1) \<leftarrow> slave_connect X buf master_ip master_port x;
          let (rc, s) = slave_start w db dbp trigger_handler nextTxId;
          if rc \<noteq> NLDB_OK then Some (x1, s) else slave_passes X lib reg subscriber n (x1, s) }"

section \<open>Properties\<close>

lemma c_string_snprintf:
  assumes "CHR 0x00 \<notin> set txt"
  shows "c_string (snprintf n txt buf) = take (n - 1) txt"
proof -
  have "\<forall>c\<in>set (take (n - 1) txt). c \<noteq> CHR 0x00" using assms set_take_subset by fastforce
  then show ?thesis by (simp add: c_string_def snprintf_def takeWhile_append)
qed

lemma snprintf_last:
  assumes "length buf = 512"
  shows "snprintf 512 txt (buf[511 := CHR 0x00]) ! 511 = CHR 0x00"
proof (cases "length txt < 511")
  case True
  then show ?thesis using assms by (simp add: snprintf_def nth_append nth_Cons')
next
  case False
  then show ?thesis by (simp add: snprintf_def nth_append)
qed

lemma address_text_no_null: "CHR 0x00 \<notin> set ip \<Longrightarrow> CHR 0x00 \<notin> set (address_text ip port)"
proof -
  assume ip: "CHR 0x00 \<notin> set ip"
  have "CHR 0x00 \<notin> char_of ` {48..<58 :: nat}" by (auto simp: char_of_eq_iff take_bit_eq_mod dest: sym)
  then have "CHR 0x00 \<notin> set (show_nat (unat port))" using show_nat_digits [of "unat port"] by blast
  with ip show ?thesis by (simp add: address_text_def)
qed

lemma address_text_length: "length (address_text ip port) \<le> length ip + 12"
proof -
  have "unat port < 10 ^ Suc 4" using unsigned_less [where 'a = nat, of port] by simp
  from length_show_nat [OF this] show ?thesis by (simp add: address_text_def)
qed

lemma tcp_address_eq:
  assumes "length buf = 512" "CHR 0x00 \<notin> set ip"
  shows "tcp_address buf ip port = Some (take 511 (address_text ip port))"
  using snprintf_last [OF assms(1)] c_string_snprintf [OF address_text_no_null [OF assms(2)], of 512 port]
  by (simp add: tcp_address_def)

lemma host_name_bounds:
  assumes "host_name ip = Some host" "length ip = 64"
  shows "CHR 0x00 \<notin> set host" "length host < 64"
proof -
  have h: "CHR 0x00 \<in> set ip" "host = takeWhile (\<lambda>c. c \<noteq> CHR 0x00) ip" using assms(1) by (auto simp: host_name_def c_string_def split: if_splits)
  show "CHR 0x00 \<notin> set host" using h(2) by (auto dest: set_takeWhileD)
  obtain as bs where "ip = as @ CHR 0x00 # bs" "CHR 0x00 \<notin> set as" using h(1) by (metis split_list_first)
  moreover from this have "host = as" using h(2) by (auto simp: takeWhile_append)
  ultimately show "length host < 64" using assms(2) by simp
qed

text \<open>
  C27: the address that a publisher binds and a slave connects to is complete for every host name that the options of the API can hold. It would be cut off
  silently for a longer one: the check of the last character never fails, as \<^verbatim>\<open>snprintf\<close> always ends the text.
\<close>

theorem address_fits:
  assumes "length buf = 512"
  shows "(\<forall>ip host. length ip = 64 \<longrightarrow> host_name ip = Some host \<longrightarrow>
        tcp_address buf host port = Some (''tcp://'' @ host @ '':'' @ show_nat (unat port))) \<and>
     (\<forall>host. CHR 0x00 \<notin> set host \<longrightarrow> tcp_address buf host port = Some (take 511 (''tcp://'' @ host @ '':'' @ show_nat (unat port))))"
proof -
  have "tcp_address buf host port = Some (''tcp://'' @ host @ '':'' @ show_nat (unat port))"
    if "length ip = 64" "host_name ip = Some host" for ip host
  proof -
    note b = host_name_bounds [OF that(2,1)]
    have "take 511 (address_text host port) = address_text host port" using b(2) address_text_length [of host port] by simp
    then show ?thesis using tcp_address_eq [OF assms b(1), of port] by (simp add: address_text_def)
  qed
  moreover have "tcp_address buf host port = Some (take 511 (''tcp://'' @ host @ '':'' @ show_nat (unat port)))" if "CHR 0x00 \<notin> set host" for host
    using tcp_address_eq [OF assms that, of port] by (simp add: address_text_def)
  ultimately show ?thesis by blast
qed

theorem address_fits_witness:
  "host_name (''127.0.0.1'' @ replicate 55 CHR 0x00) = Some ''127.0.0.1'' \<and>
     tcp_address (replicate 512 CHR ''x'') ''127.0.0.1'' 3003 = Some ''tcp://127.0.0.1:3003''"
proof -
  have h: "host_name (''127.0.0.1'' @ replicate 55 CHR 0x00) = Some ''127.0.0.1''" by (simp add: host_name_def c_string_def)
  have "show_nat 3003 = ''3003''" by code_simp
  moreover have "length (''127.0.0.1'' @ replicate 55 CHR 0x00) = 64" by simp
  ultimately have "tcp_address (replicate 512 CHR ''x'') ''127.0.0.1'' 3003 = Some (''tcp://'' @ ''127.0.0.1'' @ '':'' @ ''3003'')"
    using address_fits [of "replicate 512 CHR ''x''" 3003, THEN conjunct1, rule_format, OF _ _ h] by simp
  with h show ?thesis by simp
qed

text \<open>The messaging library hands out the given messages, one per pass.\<close>

fun delivers :: "'x crossroads \<Rightarrow> ptr \<Rightarrow> byte list list \<Rightarrow> 'x \<Rightarrow> bool" where
  "delivers X subscriber [] x \<longleftrightarrow> True"
| "delivers X subscriber (msg # msgs) x \<longleftrightarrow>
     (let (rc, x1) = xs_msg_init X x; (rc', m, x2) = xs_recvmsg X x1 subscriber; (rc'', x3) = xs_msg_close X x2
      in rc = 0 \<and> rc' \<noteq> - 1 \<and> m = msg \<and> rc'' = 0 \<and> delivers X subscriber msgs x3)"

lemma slave_passes_delivered:
  "delivers X subscriber msgs x \<Longrightarrow> replication_slave_thread_func lib reg msgs s = Some s' \<Longrightarrow>
     \<exists>x'. slave_passes X lib reg subscriber (length msgs) (x, s) = Some (x', s')"
proof (induction msgs arbitrary: x s)
  case (Cons msg msgs)
  obtain x1 rc x2 x3 where x: "xs_msg_init X x = (0, x1)" "xs_recvmsg X x1 subscriber = (rc, msg, x2)" "rc \<noteq> - 1" "xs_msg_close X x2 = (0, x3)"
      "delivers X subscriber msgs x3"
    using Cons.prems(1) by (auto split: prod.splits)
  obtain s1 where s1: "applyReplicationMessage lib reg msg s = Some (NLDB_OK, s1)" "replication_slave_thread_func lib reg msgs s1 = Some s'"
    using Cons.prems(2) by (auto split: Option.bind_splits if_splits)
  have "slave_receive X lib reg subscriber (x, s) = Some (x3, s1)" using x s1(1) by (simp add: slave_receive_def)
  then show ?case using Cons.IH [OF x(5) s1(2)] by simp
qed simp

end
