(* ===== verification/Socket_Properties.thy ===== *)
theory Socket_Properties
  imports Sockets Replication_Properties
begin

text \<open>
  The thread of a slave as a whole: connecting, initialising the redoer and working through the messages that arrive.
\<close>

text \<open>
  A slave whose connection is set up without errors works through the messages that the library delivers to it: after as many passes through its
  loop as there are messages it has applied them all, in order.
\<close>

theorem slave_thread_applies_delivered:
  assumes "length buf = 512" "CHR 0x00 \<notin> set ip" "xs_init X x = (ctx, x1)" "ctx \<noteq> NULL" "xs_socket X x1 ctx XS_SUB = (subscriber, x2)"
    "subscriber \<noteq> NULL" "xs_setsockopt X x2 subscriber XS_SUBSCRIBE [] = (0, x3)" "xs_setsockopt X x3 subscriber XS_RCVHWM newhwm = (0, x4)"
    "xs_getsockopt X x4 subscriber XS_RCVHWM = 0" "length ip < 64"
    "xs_connect X x4 subscriber (''tcp://'' @ ip @ '':'' @ show_nat (unat port)) = (rc, x5)" "rc \<noteq> - 1"
    "slave_start w db dbp trigger_handler nextTxId = (NLDB_OK, s)" "delivers X subscriber msgs x5"
    "replication_slave_thread_func lib reg msgs s = Some s'"
  shows "\<exists>x'. slave_thread X lib reg buf ip port w db dbp trigger_handler nextTxId (length msgs) x = Some (x', s')"
proof -
  have "tcp_address buf ip port = Some (address_text ip port)"
    using tcp_address_eq [OF assms(1,2), of port] assms(10) address_text_length [of ip port] by simp
  then have "slave_connect X buf ip port x = Some (ctx, subscriber, x5)"
    using assms(3-9,11,12) by (simp add: slave_connect_def address_text_def)
  then show ?thesis using slave_passes_delivered [OF assms(14,15)] assms(13) by (simp add: slave_thread_def)
qed

text \<open>A messaging library whose state is the queue of messages still to be received.\<close>

definition sample_xs :: "byte list list crossroads" where
  "sample_xs =
     \<lparr>xs_init = (\<lambda>x. (1, x)), xs_term = (\<lambda>x c. (0, x)), xs_socket = (\<lambda>x c t. (2, x)), xs_close = (\<lambda>x s. (0, x)),
      xs_setsockopt = (\<lambda>x s opt v. (0, x)), xs_getsockopt = (\<lambda>x s opt. 0), xs_bind = (\<lambda>x s addr. (0, x)), xs_connect = (\<lambda>x s addr. (0, x)),
      xs_msg_init = (\<lambda>x. (0, x)), xs_recvmsg = (\<lambda>x s. case x of [] \<Rightarrow> (- 1, [], []) | m # ms \<Rightarrow> (int (length m), m, ms)),
      xs_msg_close = (\<lambda>x. (0, x))\<rparr>"

theorem slave_thread_applies_delivered_witness:
  "\<forall>lib reg. \<exists>msg x' s'. message_image 1 [] msg \<and>
     slave_thread sample_xs lib reg (replicate 512 CHR ''x'') ''127.0.0.1'' 3003 sample_world (db_impl_new sample_mems) 1 False 1 1 [msg] = Some (x', s') \<and>
     sv_prevTransactionId s' = 1"
proof (intro allI)
  fix lib reg
  define s where "s = snd (slave_start sample_world (db_impl_new sample_mems) 1 False 1)"
  have s: "slave_start sample_world (db_impl_new sample_mems) 1 False 1 = (NLDB_OK, s)" "sv_prevTransactionId s = 0"
    by (simp_all add: s_def slave_start_def redoer_init_def nldb_tx_init_def tx_init_def tx_impl_new_def)
  have "idle_slave (plugin_array_tree sample_garbage) at_rep s Map.empty"
    using idle_logs_new [OF sample_mems_ok]
    by (simp add: idle_slave_def slave_tables_def s_def slave_start_def redoer_init_def redoer_new_def nldb_tx_init_def tx_init_def tx_impl_new_def
        db_impl_new_def)
  moreover have "message_image 1 [] (message_header_bytes 1 0)" by (simp add: message_image_def message_header_bytes_def)
  ultimately obtain s' where s': "replication_slave_thread_func lib reg [message_header_bytes 1 0] s = Some s'" "sv_prevTransactionId s' = 1"
    using at_slave.thread_law [of sample_garbage s Map.empty "[message_header_bytes 1 0]" "[[]]" lib reg] s(2) by auto
  have d: "delivers sample_xs 2 [message_header_bytes 1 0] [message_header_bytes 1 0]" by (simp add: sample_xs_def)
  have "\<exists>x'. slave_thread sample_xs lib reg (replicate 512 CHR ''x'') ''127.0.0.1'' 3003 sample_world (db_impl_new sample_mems) 1 False 1
      (length [message_header_bytes 1 0]) [message_header_bytes 1 0] = Some (x', s')"
    using slave_thread_applies_delivered [OF _ _ _ _ _ _ _ _ _ _ _ _ s(1) d s'(1), where buf = "replicate 512 CHR ''x''" and ip = "''127.0.0.1''"
      and ctx = 1 and x = "[message_header_bytes 1 0]" and ?x1.0 = "[message_header_bytes 1 0]" and ?x2.0 = "[message_header_bytes 1 0]"
      and ?x3.0 = "[message_header_bytes 1 0]" and ?x4.0 = "[message_header_bytes 1 0]" and rc = 0 and port = 3003]
    by (simp add: sample_xs_def)
  with s'(2) \<open>message_image 1 [] (message_header_bytes 1 0)\<close> show "\<exists>msg x' s'. message_image 1 [] msg \<and>
     slave_thread sample_xs lib reg (replicate 512 CHR ''x'') ''127.0.0.1'' 3003 sample_world (db_impl_new sample_mems) 1 False 1 1 [msg] = Some (x', s') \<and>
     sv_prevTransactionId s' = 1"
    by auto
qed

end
