(* ===== verification/Lost_Messages.thy ===== *)
theory Lost_Messages
  imports Master_Properties Replication
begin

text \<open>
  What the publisher does not guard against. It hands the library a pointer into the buffer of an event and gives the event free at once: when the
  library has not transmitted the message before the ring buffer comes round to the slot again, it transmits the bytes of another
  transaction. And it takes the result \<open>- 1\<close> of a failed send for success.
\<close>

section \<open>Long runs\<close>




section \<open>Overwritten messages\<close>







section \<open>Properties\<close>



text \<open>
  When every send fails, the replicator goes on as if it had succeeded: it can always work off all ended transactions, and not a single message has
  been handed over.
\<close>

theorem failed_sends_are_lost:
  assumes "master_reachable xs mems db m" "length mems = NLDB_TX_EVENT_COUNT"
    "\<forall>mem\<in>set mems. length mem = TX_REPLICATION_MESSAGE_SIZE" "xs_works xs" "\<forall>bs. xo_sendmsg xs bs = - 1"
  shows "\<exists>m'. (replicates xs)\<^sup>*\<^sup>* m m' \<and> ms_done m' = ms_done m \<and> pub_prevTransactionId (ms_pub m') = int (length (ms_done m)) \<and>
     pub_queue (ms_pub m') = [] \<and> pub_sent (ms_pub m') = []"
proof -
  have empty: "pub_queue (ms_pub m) = [] \<and> pub_sent (ms_pub m) = [] \<and> (\<exists>p. master_inv m p)" if "master_reachable xs mems db m" for m
    using that
  proof induction
    case (Init m)
    then show ?case using master_init_inv [OF assms(2,3), of db] by (auto simp: master_init_def split: Option.bind_splits)
  next
    case (Step m m')
    then obtain p where inv: "master_inv m p" by blast
    from Step.hyps(2) inv assms(4) show ?case
      by (cases rule: master_step_kinds) (use Step.IH assms(5) in \<open>auto simp: published_next_def enqueue_def transmit_def\<close>)
  qed
  obtain p where p: "master_inv m p" using empty [OF assms(1)] by blast
  obtain m' p' where m': "(replicates xs)\<^sup>*\<^sup>* m m'" "master_inv m' p'" "bp_next_sequence p' = published (ms_logs m') + 1"
    using drain [OF p assms(4)] by blast
  note d = replicates_done [OF m'(1)]
  have "pub_prevTransactionId (ms_pub m') = int (length (ms_done m))" using master_invD(4,6) [OF m'(2)] m'(3) d by simp
  then show ?thesis using m'(1) d empty [OF replicates_reachable [OF m'(1) assms(1)]] by blast
qed

end
