(* ===== verification/Spec2Isabelle.thy ===== *)
theory Spec2Isabelle
  imports Sorted_Array_Properties Tree_Properties Tree_Scans Tree_Printing Plugin_Properties Log_Properties
    Disruptor_Properties Master_Properties Nldb_Properties Replication_Properties
    Event_Processor Tc_Tables Persistent_Properties Socket_Properties Lost_Messages
begin

text \<open>
  A verification of the database nldb: an in-memory key/value store with ranks, transactions and master/slave replication.

  \<^bold>\<open>The program.\<close> Applications call the functions of \<^verbatim>\<open>nldb.cpp\<close>. A database has tables, and each table is served by a plugin: tables in memory by
  \<^verbatim>\<open>nldb_plugin_array_tree.cpp\<close>, persistent ones by wrappers around LevelDB and Tokyo Cabinet. A table in memory is an array tree
  (\<^verbatim>\<open>nldb_array_tree.h\<close>) whose nodes hold sorted arrays of keys (\<^verbatim>\<open>nldb_sorted_array.h\<close>) and count the keys below them, so that a key can be
  found by its rank. An update inside a transaction changes the table and appends a record to the log buffer of the transaction
  (\<^verbatim>\<open>nldb_transaction_log_buffer.h\<close>), which is an event of a ring buffer (\<^verbatim>\<open>disruptor--\<close>). Ending the transaction publishes the event; a
  publisher thread (\<^verbatim>\<open>nldb_txevent.h\<close>) sends the log as a message, and slaves redo its records on their own tables
  (\<^verbatim>\<open>nldb_transaction_log_redoer.h\<close>, \<^verbatim>\<open>nldb_repl_slave_thread.cpp\<close>).

  \<^bold>\<open>How code is modelled.\<close> A class is a record of its fields, a member function a function that takes and returns the object. Heap nodes of the tree are an
  explicit map from addresses to nodes. A function that may violate an assertion, leave an object's memory or not terminate returns an
  option, and \<^term>\<open>None\<close> is each of these. Return codes are integers as in \<^verbatim>\<open>nldb_common.h\<close>. \<^verbatim>\<open>tx_assert\<close> is a branch of the model and \<^verbatim>\<open>tx_debug_assert\<close> is
  not, as in a build without \<^verbatim>\<open>DEBUG\<close>. Keys and values are lists of bytes; lengths are 16 bit words, sizes of log records 64 bit words, and sums of
  key counts wrap as a C \<^verbatim>\<open>int\<close>. Loops are recursive functions with a termination proof or \<^verbatim>\<open>partial_function (option)\<close>, so that no operation is given
  fuel: that the operations return is part of the theorems. Only the endless loop of a slave is taken for a given number of passes. Waiting loops of threads are one iteration at a time, and interleavings
  are step relations.

  \<^bold>\<open>Theories.\<close>
  \<^item> \<^verbatim>\<open>Nldb_Prelude\<close>: types, return codes, C memory functions, operations on sorted association lists. \<^verbatim>\<open>Ordered_Table\<close>: the contract of an ordered map as a
    locale, interpreted by the sorted array and by the array tree. \<^verbatim>\<open>Key_Format\<close>: integer keys in big-endian order (\<^verbatim>\<open>nldb_internal.h\<close>).
  \<^item> \<^verbatim>\<open>Sorted_Array\<close>, \<^verbatim>\<open>Sorted_Array_Proofs\<close>, \<^verbatim>\<open>Sorted_Array_Properties\<close>: model, refinement and properties of the sorted array.
  \<^item> \<^verbatim>\<open>Array_Tree\<close>: model of the tree. \<^verbatim>\<open>Tree_Shape\<close>: the heap as a list of levels; \<^verbatim>\<open>Tree_Insert\<close>, \<^verbatim>\<open>Tree_Split\<close>, \<^verbatim>\<open>Tree_Climb\<close>, \<^verbatim>\<open>Tree_Raise\<close>: insertion into internal
    nodes with splits up to the root; \<^verbatim>\<open>Tree_Search\<close>: the invariant and the searches by key and by rank; \<^verbatim>\<open>Tree_Update\<close>, \<^verbatim>\<open>Leaf_Split\<close>, \<^verbatim>\<open>Tree_Ops\<close>: put and del;
    \<^verbatim>\<open>Tree_Iter\<close>: iterators; \<^verbatim>\<open>Tree_Properties\<close>, \<^verbatim>\<open>Tree_Wellformed\<close>: what the tree promises; \<^verbatim>\<open>Tree_Scans\<close>: scans over empty leaves. \<^verbatim>\<open>Debuggable_Tree\<close>, \<^verbatim>\<open>Tree_Printing\<close>: the
    consistency check and the printing of \<^verbatim>\<open>nldb_debuggable_array_tree.h\<close>.
  \<^item> \<^verbatim>\<open>Plugin_Interface\<close>, \<^verbatim>\<open>Plugin_Array_Tree\<close>, \<^verbatim>\<open>Plugin_Values\<close>, \<^verbatim>\<open>Plugin_Tables\<close>, \<^verbatim>\<open>Plugin_Cursors\<close>: the plugin for tables in memory with its value objects.
    \<^verbatim>\<open>Plugins\<close>, \<^verbatim>\<open>Plugin_Libraries\<close>: plugins as records of functions, LevelDB and Tokyo Cabinet, whose library functions are parameters. \<^verbatim>\<open>Plugin_Contract\<close>:
    the contract of a table plugin as a locale, extended for plugins that know the ranks of keys and interpreted by the array tree plugin.
    \<^verbatim>\<open>Plugin_Properties\<close>: what the plugin promises.
  \<^item> \<^verbatim>\<open>Leveldb_Tables\<close>, \<^verbatim>\<open>Leveldb_Cursors\<close>, \<^verbatim>\<open>Tc_Tables\<close>: the documented behaviour of LevelDB and Tokyo Cabinet as predicates on the library functions
    (\<open>leveldb_laws\<close>, \<open>tc_laws\<close>), under which their plugins keep the contract as well, and the cursors of LevelDB. \<^verbatim>\<open>Persistent_Tables\<close>: the life of a
    persistent table through the API. \<^verbatim>\<open>Leveldb_Example\<close>: a LevelDB that satisfies the laws. \<^verbatim>\<open>Persistent_Properties\<close>: what persistent tables promise.
  \<^item> \<^verbatim>\<open>Log_Buffer\<close>, \<^verbatim>\<open>Log_Format\<close>, \<^verbatim>\<open>Log_Properties\<close>: the bytes of log buffers and messages and their decoding.
  \<^item> \<^verbatim>\<open>Disruptor\<close>, \<^verbatim>\<open>Sequence_Barrier\<close>, \<^verbatim>\<open>Disruptor_Properties\<close>: the ring buffer library. \<^verbatim>\<open>Event_Processor\<close>: the thread of a
    processor from start to stop, with exceptions of its event handler.
  \<^item> \<^verbatim>\<open>Transactions\<close>: transactions, the ring of their logs, the publisher. \<^verbatim>\<open>Master_Invariant\<close>, \<^verbatim>\<open>Master_Steps\<close>, \<^verbatim>\<open>Master_Queue\<close>, \<^verbatim>\<open>Master_Properties\<close>: the master as
    a step relation that interleaves a client with the publisher thread and with the thread of the messaging library that transmits the messages,
    its invariant, safety and liveness. \<^verbatim>\<open>Lost_Messages\<close>: messages that are overwritten before they are transmitted, and failed sends.
  \<^item> \<^verbatim>\<open>Nldb\<close>, \<^verbatim>\<open>Nldb_Properties\<close>: the functions of \<^verbatim>\<open>nldb.cpp\<close>, the catalogue of tables and the error returns.
  \<^item> \<^verbatim>\<open>Redoer\<close>: the slave. \<^verbatim>\<open>Solo_Logs\<close>, \<^verbatim>\<open>Table_Client\<close>: logging of updates, for every plugin that keeps the contract. \<^verbatim>\<open>Replication\<close>: the slave's loop for every
    such plugin. \<^verbatim>\<open>Replication_Properties\<close>: the composition of master, messages and slave. \<^verbatim>\<open>Sockets\<close>, \<^verbatim>\<open>Socket_Properties\<close>: addresses, the set-up of
    publisher and slave, the slave's thread; the functions of the messaging library are parameters.

  \<^bold>\<open>What is shown.\<close> Sequences of put and del on an array, a tree and a table return and are the updates of a sorted association list; lookups
  by key and rank, counts and (without emptied leaves) scans agree with it; the heap of the tree stays well-formed. The replicator of the master never
  violates an assertion, in any interleaving. The message that it hands to the messaging library is a reference to the buffer of the
  event (\<^verbatim>\<open>xs_msg_init_data\<close> does not copy), and the library may read the bytes at any later time: as long as sending does not fail and no transaction is open in
  the slot of a message that the library still holds, exactly the messages of the ended transactions are transmitted, in order, and all of
  them when the threads get enough steps. Messages decode to the records appended; a slave applies all messages, and holds the
  tables of the master as long as every value is two bytes long. A processor
  hands every event to its handler once, also when the handler throws. For a LevelDB with the documented behaviour, persistent tables keep the contract, survive
  closing and opening, can be replicated, and have cursors that walk over a snapshot. Errors of the API are stated branch
  by branch. The properties about what does not work (replicated values are cut to two bytes, deleting an absent key spoils the key
  counts, a scan stops at an emptied leaf, a message that the library transmits too late carries another transaction and stops the slave, failed sends are
  taken for successful ones, abort does not undo, a dropped persistent table comes back with its content, a downward scan of one starts too high,
  a second replicator or a second database with replication fails, a put that the disk rejects is replicated, a halt that comes too early is lost) are theorems as well.

  \<^bold>\<open>Bounds.\<close> Trees have fewer than \<open>2 ^ 31\<close> keys, since the code adds key counts in an \<^verbatim>\<open>int\<close>, and a node has room for at least three keys; transaction ids are below
  \<open>2 ^ 63\<close> where a message is decoded. Scans by key and rank are verified for trees without emptied leaves; what happens at an emptied leaf is a theorem
  of its own.

  \<^bold>\<open>Not modelled.\<close> The libraries LevelDB, Tokyo Cabinet and Crossroads I/O themselves, of which only the documented behaviour is used, as a hypothesis; failures of
  LevelDB in the properties of persistent tables (the model of the plugin has them); memory orderings of atomics (steps of threads are
  sequentially consistent); freeing of memory; the exhaustion of memory; the abstract classes of the disruptor, which have no code, and its multi-threaded claim strategy,
  which is commented out; tests and the benchmark program.
\<close>

end
